theory Spec2Isabelle
  imports Main "HOL-Library.Word"
begin

unbundle bit_operations_syntax

section \<open>Outcomes of an operation\<close>

text \<open>
  Every public operation of the three components either returns (with a value and the
  state it leaves), throws a C++ exception (with the state at the moment of the throw), or
  runs into behaviour the C++ standard leaves undefined (an out-of-bounds index, an
  \<^verbatim>\<open>erase\<close> through an iterator that does not belong to the list, a null bucket pointer,
  signed overflow).  The mutexes are not modelled: every operation holds its latch from
  entry to exit, so operations are atomic steps on the state.
\<close>

datatype exn = InvalidArgument | LogicError

datatype ('a, 's) outcome =
    is_Returns: Returns (ret_val: 'a) (ret_state: 's)
  | is_Throws: Throws (thrown: exn) (throw_state: 's)
  | Undefined

text \<open>\<^verbatim>\<open>size_t\<close> is a 64-bit unsigned integer: \<^verbatim>\<open>++\<close> and \<^verbatim>\<open>--\<close> wrap.\<close>

definition inc64 :: "nat \<Rightarrow> nat" where
  "inc64 n = (n + 1) mod 2 ^ 64"

definition dec64 :: "nat \<Rightarrow> nat" where
  "dec64 n = (n + (2 ^ 64 - 1)) mod 2 ^ 64"

text \<open>\<^verbatim>\<open>static_cast<int>(size_t)\<close>: the low 32 bits, read as a signed integer.\<close>

definition static_cast_int :: "nat \<Rightarrow> int" where
  "static_cast_int n = sint (word_of_nat n :: 32 word)"

section \<open>LRU-K replacer (src/buffer/lru\_k\_replacer.cpp)\<close>

type_synonym frame_id_t = int

text \<open>\<^verbatim>\<open>k_time\<close> is \<^verbatim>\<open>std::pair<size_t, frame_id_t>\<close>: a timestamp and a frame.\<close>

type_synonym k_time = "nat \<times> frame_id_t"

text \<open>
  A \<^verbatim>\<open>std::list<k_time>::iterator\<close> names one node of one of the two lists.  The model
  keeps which list it was taken from and the node's contents; a default-constructed
  iterator is \<open>Singular\<close>.  An iterator is valid for a list while its node is still in it.
\<close>

datatype list_iter = Singular | HistNode k_time | CacheNode k_time

text \<open>
  Modelled from the spec: the per-frame record (an access count, the K-th timestamp, the
  evictable flag and a position handle) is declared in lru\_k\_replacer.h, which is not
  under src/.  The field names are those the source file uses (without the trailing
  underscore).  A fresh record has count 0; the initial value of the evictable flag is
  not visible in the source and is a parameter of the constructor below.
\<close>

record FrameInfo =
  count :: nat
  kth :: nat
  evictable :: bool
  it :: list_iter

text \<open>
  \<^verbatim>\<open>frame_map_\<close> is an \<^verbatim>\<open>unordered_map<frame_id_t, FrameInfo>\<close> that the source reads
  with \<^verbatim>\<open>operator[]\<close>, which default-constructs a missing entry; its only other use is
  the \<^verbatim>\<open>find\<close> in \<^verbatim>\<open>Remove\<close>, whose "absent" branch coincides with the branch for
  count 0.  It is modelled as a total map that starts with the default record everywhere.
  \<^verbatim>\<open>frame_time_\<close> is a vector (of length \<^verbatim>\<open>num_frames + 1\<close>) of vectors of timestamps.
\<close>

record LRUKReplacer =
  replacer_size :: nat
  replacer_k :: nat
  frame_map :: "frame_id_t \<Rightarrow> FrameInfo"
  frame_time :: "nat list list"
  hist_list :: "k_time list"
  cache_list :: "k_time list"
  current_timestamp :: nat
  curr_size :: nat

definition FrameInfo_default :: "bool \<Rightarrow> FrameInfo" where
  "FrameInfo_default d = \<lparr>count = 0, kth = 0, evictable = d, it = Singular\<rparr>"

definition LRUKReplacer_new :: "bool \<Rightarrow> nat \<Rightarrow> nat \<Rightarrow> LRUKReplacer" where
  "LRUKReplacer_new d num_frames k =
     \<lparr>replacer_size = num_frames, replacer_k = k,
      frame_map = (\<lambda>_. FrameInfo_default d),
      frame_time = replicate (num_frames + 1) [],
      hist_list = [], cache_list = [],
      current_timestamp = 0, curr_size = 0\<rparr>"

text \<open>Indexing \<^verbatim>\<open>frame_time_[frame_id]\<close> is defined only inside the vector.\<close>

definition in_frame_time :: "LRUKReplacer \<Rightarrow> frame_id_t \<Rightarrow> bool" where
  "in_frame_time r f = (0 \<le> f \<and> nat f < length (frame_time r))"

text \<open>The first node of a list (in the direction scanned) whose frame is evictable.\<close>

definition first_evictable :: "(frame_id_t \<Rightarrow> FrameInfo) \<Rightarrow> k_time list \<Rightarrow> k_time option" where
  "first_evictable fm xs = List.find (\<lambda>e. evictable (fm (snd e))) xs"

text \<open>The removal protocol shared by both loops of \<^verbatim>\<open>Evict\<close>, minus the list erase.\<close>

definition evict_frame :: "LRUKReplacer \<Rightarrow> frame_id_t \<Rightarrow> LRUKReplacer" where
  "evict_frame r f =
     r\<lparr>frame_time := (frame_time r)[nat f := []],
       frame_map := (frame_map r)(f := (frame_map r f)\<lparr>count := 0\<rparr>),
       curr_size := dec64 (curr_size r)\<rparr>"

text \<open>
  \<^verbatim>\<open>Evict\<close>: the history list is walked from \<^verbatim>\<open>rbegin\<close>, the cache list from
  \<^verbatim>\<open>begin\<close>; the node found is the one erased.  The result is the victim, if any.
\<close>

definition Evict :: "LRUKReplacer \<Rightarrow> (frame_id_t option, LRUKReplacer) outcome" where
  "Evict r =
     (case first_evictable (frame_map r) (rev (hist_list r)) of
        Some e \<Rightarrow>
          if in_frame_time r (snd e)
          then Returns (Some (snd e))
                 ((evict_frame r (snd e))\<lparr>hist_list := rev (remove1 e (rev (hist_list r)))\<rparr>)
          else Undefined
      | None \<Rightarrow>
          (case first_evictable (frame_map r) (cache_list r) of
             Some e \<Rightarrow>
               if in_frame_time r (snd e)
               then Returns (Some (snd e))
                      ((evict_frame r (snd e))\<lparr>cache_list := remove1 e (cache_list r)\<rparr>)
               else Undefined
           | None \<Rightarrow> Returns None r))"

text \<open>
  \<^verbatim>\<open>operator<\<close> of \<^verbatim>\<open>std::pair\<close> is lexicographic.  \<^verbatim>\<open>std::upper_bound\<close> gives the
  first position whose element is greater than the new one, and the new node is inserted
  before it.
\<close>

definition k_time_less :: "k_time \<Rightarrow> k_time \<Rightarrow> bool" where
  "k_time_less a b = (fst a < fst b \<or> (fst a = fst b \<and> snd a < snd b))"

definition upper_bound_insert :: "k_time \<Rightarrow> k_time list \<Rightarrow> k_time list" where
  "upper_bound_insert e xs =
     takeWhile (\<lambda>x. \<not> k_time_less e x) xs @ e # dropWhile (\<lambda>x. \<not> k_time_less e x) xs"

text \<open>
  The tail of \<^verbatim>\<open>RecordAccess\<close> (lines 94 to 101): the oldest retained timestamp becomes
  the key, is dropped from the frame's vector, and the frame is inserted into the cache
  list.  \<open>r\<close> already has the new count, the new timestamp and the erased old node.
\<close>

definition cache_insert :: "LRUKReplacer \<Rightarrow> frame_id_t \<Rightarrow> LRUKReplacer" where
  "cache_insert r f =
     (let acc_time = frame_time r ! nat f;
          new_cache = (hd acc_time, f)
      in r\<lparr>frame_time := (frame_time r)[nat f := tl acc_time],
           cache_list := upper_bound_insert new_cache (cache_list r),
           frame_map := (frame_map r)(f := (frame_map r f)\<lparr>kth := hd acc_time, it := CacheNode new_cache\<rparr>)\<rparr>)"

definition RecordAccess :: "LRUKReplacer \<Rightarrow> frame_id_t \<Rightarrow> (unit, LRUKReplacer) outcome" where
  "RecordAccess r f =
     (if f > static_cast_int (replacer_size r) then Throws InvalidArgument r
      else if \<not> in_frame_time r f then Undefined
      else
        let new_count = inc64 (count (frame_map r f));
            ts = inc64 (current_timestamp r);
            r1 = r\<lparr>frame_map := (frame_map r)(f := (frame_map r f)\<lparr>count := new_count\<rparr>),
                   frame_time := (frame_time r)[nat f := frame_time r ! nat f @ [ts]],
                   current_timestamp := ts\<rparr>
        in
          if new_count = 1 then
            Returns ()
              (r1\<lparr>curr_size := inc64 (curr_size r1),
                  hist_list := (ts, f) # hist_list r1,
                  frame_map := (frame_map r1)(f := (frame_map r1 f)\<lparr>it := HistNode (ts, f)\<rparr>)\<rparr>)
          else if new_count = replacer_k r then
            (case it (frame_map r1 f) of
               HistNode e \<Rightarrow>
                 if e \<in> set (hist_list r1)
                 then Returns () (cache_insert (r1\<lparr>hist_list := remove1 e (hist_list r1)\<rparr>) f)
                 else Undefined
             | _ \<Rightarrow> Undefined)
          else if new_count > replacer_k r then
            (case it (frame_map r1 f) of
               CacheNode e \<Rightarrow>
                 if e \<in> set (cache_list r1)
                 then Returns () (cache_insert (r1\<lparr>cache_list := remove1 e (cache_list r1)\<rparr>) f)
                 else Undefined
             | _ \<Rightarrow> Undefined)
          else Returns () r1)"

definition SetEvictable :: "LRUKReplacer \<Rightarrow> frame_id_t \<Rightarrow> bool \<Rightarrow> (unit, LRUKReplacer) outcome" where
  "SetEvictable r f set_evictable =
     (if f > static_cast_int (replacer_size r) then Throws InvalidArgument r
      else
        let set_frame = frame_map r f;
            r1 = (if evictable set_frame \<and> \<not> set_evictable then r\<lparr>curr_size := dec64 (curr_size r)\<rparr>
                  else if \<not> evictable set_frame \<and> set_evictable then r\<lparr>curr_size := inc64 (curr_size r)\<rparr>
                  else r)
        in Returns () (r1\<lparr>frame_map := (frame_map r1)(f := set_frame\<lparr>evictable := set_evictable\<rparr>)\<rparr>))"

text \<open>The last three statements of \<^verbatim>\<open>Remove\<close>.\<close>

definition remove_frame :: "LRUKReplacer \<Rightarrow> frame_id_t \<Rightarrow> (unit, LRUKReplacer) outcome" where
  "remove_frame r f =
     (if in_frame_time r f
      then Returns ()
             (r\<lparr>frame_time := (frame_time r)[nat f := []],
                frame_map := (frame_map r)(f := (frame_map r f)\<lparr>count := 0\<rparr>),
                curr_size := dec64 (curr_size r)\<rparr>)
      else Undefined)"

definition Remove :: "LRUKReplacer \<Rightarrow> frame_id_t \<Rightarrow> (unit, LRUKReplacer) outcome" where
  "Remove r f =
     (let del_frame = frame_map r f in
      if count del_frame = 0 then Returns () r
      else if \<not> evictable del_frame then Throws LogicError r
      else if count del_frame < replacer_k r \<and> count del_frame > 0 then
        (case it del_frame of
           HistNode e \<Rightarrow>
             if e \<in> set (hist_list r)
             then remove_frame (r\<lparr>hist_list := remove1 e (hist_list r)\<rparr>) f
             else Undefined
         | _ \<Rightarrow> Undefined)
      else if count del_frame \<ge> replacer_k r then
        (case it del_frame of
           CacheNode e \<Rightarrow>
             if e \<in> set (cache_list r)
             then remove_frame (r\<lparr>cache_list := remove1 e (cache_list r)\<rparr>) f
             else Undefined
         | _ \<Rightarrow> Undefined)
      else remove_frame r f)"

definition Size :: "LRUKReplacer \<Rightarrow> nat" where
  "Size r = curr_size r"

section \<open>Extendible hash table (src/container/hash/extendible\_hash\_table.cpp)\<close>

text \<open>
  A bucket has a capacity \<^verbatim>\<open>size_\<close>, a local depth \<^verbatim>\<open>depth_\<close> and the list
  \<^verbatim>\<open>list_\<close> of its entries.  Depths start at 0 and only grow, so they are naturals; the
  shifts that overflow \<^verbatim>\<open>int\<close> are written out below.
\<close>

record ('k, 'v) Bucket =
  size_B :: nat
  depth_B :: nat
  list_B :: "('k \<times> 'v) list"

text \<open>
  Modelled from the spec: \<^verbatim>\<open>IsFull\<close>, \<^verbatim>\<open>GetDepth\<close> and \<^verbatim>\<open>GetItems\<close> are inline members
  declared in extendible\_hash\_table.h, which is not under src/.  A bucket holds up to
  \<^verbatim>\<open>bucket_size\<close> entries, so it is full when it holds that many.
\<close>

definition IsFull :: "('k, 'v) Bucket \<Rightarrow> bool" where
  "IsFull b = (length (list_B b) = size_B b)"

definition Bucket_new :: "nat \<Rightarrow> nat \<Rightarrow> ('k, 'v) Bucket" where
  "Bucket_new array_size depth = \<lparr>size_B = array_size, depth_B = depth, list_B = []\<rparr>"

fun find_items :: "('k \<times> 'v) list \<Rightarrow> 'k \<Rightarrow> 'v option" where
  "find_items [] key = None"
| "find_items ((k, v) # xs) key = (if k = key then Some v else find_items xs key)"

definition Bucket_Find :: "('k, 'v) Bucket \<Rightarrow> 'k \<Rightarrow> 'v option" where
  "Bucket_Find b key = find_items (list_B b) key"

text \<open>The erase loop of \<^verbatim>\<open>Bucket::Remove\<close>: whether a node was erased, and the list left.\<close>

fun remove_items :: "('k \<times> 'v) list \<Rightarrow> 'k \<Rightarrow> bool \<times> ('k \<times> 'v) list" where
  "remove_items [] key = (False, [])"
| "remove_items ((k, v) # xs) key =
     (if key = k then (True, xs)
      else (fst (remove_items xs key), (k, v) # snd (remove_items xs key)))"

definition Bucket_Remove :: "('k, 'v) Bucket \<Rightarrow> 'k \<Rightarrow> bool \<times> ('k, 'v) Bucket" where
  "Bucket_Remove b key =
     (fst (remove_items (list_B b) key), b\<lparr>list_B := snd (remove_items (list_B b) key)\<rparr>)"

text \<open>The overwrite loop of \<^verbatim>\<open>Bucket::Insert\<close>: whether the key was found, and the list left.\<close>

fun overwrite_items :: "('k \<times> 'v) list \<Rightarrow> 'k \<Rightarrow> 'v \<Rightarrow> bool \<times> ('k \<times> 'v) list" where
  "overwrite_items [] key val = (False, [])"
| "overwrite_items ((k, v) # xs) key val =
     (if key = k then (True, (k, val) # xs)
      else (fst (overwrite_items xs key val), (k, v) # snd (overwrite_items xs key val)))"

definition Bucket_Insert :: "('k, 'v) Bucket \<Rightarrow> 'k \<Rightarrow> 'v \<Rightarrow> bool \<times> ('k, 'v) Bucket" where
  "Bucket_Insert b key val =
     (if fst (overwrite_items (list_B b) key val)
      then (True, b\<lparr>list_B := snd (overwrite_items (list_B b) key val)\<rparr>)
      else if \<not> IsFull b then (True, b\<lparr>list_B := list_B b @ [(key, val)]\<rparr>)
      else (False, b))"

text \<open>
  The directory is a vector of \<^verbatim>\<open>shared_ptr<Bucket>\<close>, and several slots may share one
  bucket.  The buckets live in a store (\<open>heap\<close>, extended by every \<^verbatim>\<open>make_shared\<close>), a
  slot holds the address of its bucket, and \<open>None\<close> is the null pointer.  Buckets that no
  slot references any more stay in the store, where nothing reads them.
  \<^verbatim>\<open>num_buckets_\<close> is an \<^verbatim>\<open>int\<close>.
\<close>

record ('k, 'v) ExtendibleHashTable =
  global_depth :: nat
  bucket_size :: nat
  num_buckets :: int
  dir :: "nat option list"
  heap :: "('k, 'v) Bucket list"

definition ExtendibleHashTable_new :: "nat \<Rightarrow> ('k, 'v) ExtendibleHashTable" where
  "ExtendibleHashTable_new bsz =
     \<lparr>global_depth = 0, bucket_size = bsz, num_buckets = 1,
      dir = [Some 0], heap = [Bucket_new bsz 0]\<rparr>"

text \<open>\<^verbatim>\<open>GetGlobalDepth\<close> and \<^verbatim>\<open>GetNumBuckets\<close> read the two counters.\<close>

definition GetGlobalDepth :: "('k, 'v) ExtendibleHashTable \<Rightarrow> nat" where
  "GetGlobalDepth t = global_depth t"

definition GetNumBuckets :: "('k, 'v) ExtendibleHashTable \<Rightarrow> int" where
  "GetNumBuckets t = num_buckets t"

text \<open>
  \<^verbatim>\<open>IndexOf\<close>: \<^verbatim>\<open>(1 << global_depth_) - 1\<close> is computed in \<^verbatim>\<open>int\<close> and is defined up
  to depth 30.  The hash function \<open>h\<close> (\<^verbatim>\<open>std::hash<K>\<close>, a \<^verbatim>\<open>size_t\<close>) is a parameter.
\<close>

definition IndexOf :: "('k \<Rightarrow> nat) \<Rightarrow> ('k, 'v) ExtendibleHashTable \<Rightarrow> 'k \<Rightarrow> nat option" where
  "IndexOf h t key =
     (if global_depth t < 31 then Some (h key AND (2 ^ global_depth t - 1)) else None)"

text \<open>
  \<^verbatim>\<open>dir_[pos]\<close> followed by \<^verbatim>\<open>->\<close>: the address of the bucket, when the slot exists and
  is not null.
\<close>

definition bucket_at :: "('k, 'v) ExtendibleHashTable \<Rightarrow> nat \<Rightarrow> nat option" where
  "bucket_at t pos =
     (if pos < length (dir t) then
        (case dir t ! pos of
           Some a \<Rightarrow> if a < length (heap t) then Some a else None
         | None \<Rightarrow> None)
      else None)"

definition Find :: "('k \<Rightarrow> nat) \<Rightarrow> ('k, 'v) ExtendibleHashTable \<Rightarrow> 'k
    \<Rightarrow> ('v option, ('k, 'v) ExtendibleHashTable) outcome" where
  "Find h t key =
     (case IndexOf h t key of
        None \<Rightarrow> Undefined
      | Some pos \<Rightarrow>
          (case bucket_at t pos of
             None \<Rightarrow> Undefined
           | Some a \<Rightarrow> Returns (Bucket_Find (heap t ! a) key) t))"

definition Remove_ht :: "('k \<Rightarrow> nat) \<Rightarrow> ('k, 'v) ExtendibleHashTable \<Rightarrow> 'k
    \<Rightarrow> (bool, ('k, 'v) ExtendibleHashTable) outcome" where
  "Remove_ht h t key =
     (case IndexOf h t key of
        None \<Rightarrow> Undefined
      | Some pos \<Rightarrow>
          (case bucket_at t pos of
             None \<Rightarrow> Undefined
           | Some a \<Rightarrow>
               Returns (fst (Bucket_Remove (heap t ! a) key))
                 (t\<lparr>heap := (heap t)[a := snd (Bucket_Remove (heap t ! a) key)]\<rparr>)))"

text \<open>
  The redistribution loop (lines 119 to 125): every entry of the full bucket goes to
  \<^verbatim>\<open>bucket1\<close> when its hash has the bit \<^verbatim>\<open>local_mask\<close> set, to \<^verbatim>\<open>bucket0\<close> otherwise.
\<close>

fun redistribute :: "('k \<Rightarrow> nat) \<Rightarrow> nat \<Rightarrow> ('k \<times> 'v) list
    \<Rightarrow> ('k, 'v) Bucket \<times> ('k, 'v) Bucket \<Rightarrow> ('k, 'v) Bucket \<times> ('k, 'v) Bucket" where
  "redistribute h local_mask [] bs = bs"
| "redistribute h local_mask ((k, v) # xs) bs =
     (if h k AND local_mask \<noteq> 0
      then redistribute h local_mask xs (fst bs, snd (Bucket_Insert (snd bs) k v))
      else redistribute h local_mask xs (snd (Bucket_Insert (fst bs) k v), snd bs))"

text \<open>
  The re-pointing loop (lines 128 to 134), from slot \<open>i\<close> in steps of \<^verbatim>\<open>local_mask\<close>
  (a power of two, so positive).
\<close>

function repoint :: "nat \<Rightarrow> nat \<Rightarrow> nat \<Rightarrow> nat \<Rightarrow> nat option list \<Rightarrow> nat option list" where
  "repoint local_mask a0 a1 i d =
     (if i < length d \<and> 0 < local_mask
      then repoint local_mask a0 a1 (i + local_mask)
             (d[i := Some (if i AND local_mask \<noteq> 0 then a1 else a0)])
      else d)"
  by pat_completeness auto
termination
  by (relation "measure (\<lambda>(local_mask, a0, a1, i, d). length d - i)") auto

declare repoint.simps [simp del]

text \<open>
  One pass through the body of the \<^verbatim>\<open>while\<close> loop of \<^verbatim>\<open>Insert\<close> for the full bucket
  at address \<open>a\<close>: the table after the split and the address of the bucket the key now
  maps to; \<open>None\<close> when the pass is undefined (\<^verbatim>\<open>num_buckets_++\<close> or \<^verbatim>\<open>1 << local_depth\<close>
  overflows \<^verbatim>\<open>int\<close>, or \<^verbatim>\<open>IndexOf\<close> is undefined at the new depth).
\<close>

definition split_step :: "('k \<Rightarrow> nat) \<Rightarrow> 'k \<Rightarrow> ('k, 'v) ExtendibleHashTable \<Rightarrow> nat
    \<Rightarrow> (('k, 'v) ExtendibleHashTable \<times> nat) option" where
  "split_step h key t a =
     (let local_depth = depth_B (heap t ! a);
          t1 = (if local_depth = global_depth t
                then t\<lparr>global_depth := global_depth t + 1, dir := dir t @ dir t\<rparr>
                else t);
          new_depth = local_depth + 1;
          local_mask = 2 ^ local_depth;
          bs = redistribute h local_mask (list_B (heap t ! a))
                 (Bucket_new (bucket_size t) new_depth, Bucket_new (bucket_size t) new_depth);
          t2 = t1\<lparr>num_buckets := num_buckets t + 1,
                  heap := heap t @ [fst bs, snd bs],
                  dir := repoint local_mask (length (heap t)) (length (heap t) + 1)
                           (h key AND (local_mask - 1)) (dir t1)\<rparr>
      in if num_buckets t \<ge> 2 ^ 31 - 1 \<or> local_depth \<ge> 31 then None
         else
           (case IndexOf h t2 key of
              None \<Rightarrow> None
            | Some pos \<Rightarrow>
                (case bucket_at t2 pos of
                   None \<Rightarrow> None
                 | Some a' \<Rightarrow> Some (t2, a'))))"

lemma split_step_num_buckets:
  "split_step h key t a = Some (t', a') \<Longrightarrow>
     num_buckets t' = num_buckets t + 1 \<and> num_buckets t < 2 ^ 31 - 1"
  unfolding split_step_def Let_def
  by (simp split: if_splits option.splits) auto

text \<open>
  The \<^verbatim>\<open>while (bucket->IsFull())\<close> loop.  Every pass increments \<^verbatim>\<open>num_buckets_\<close>, an
  \<^verbatim>\<open>int\<close> whose overflow is undefined, so the loop ends: with the bucket that has room
  for the key, or undefined.
\<close>

function split_loop :: "('k \<Rightarrow> nat) \<Rightarrow> 'k \<Rightarrow> ('k, 'v) ExtendibleHashTable \<Rightarrow> nat
    \<Rightarrow> (('k, 'v) ExtendibleHashTable \<times> nat) option" where
  "split_loop h key t a =
     (if IsFull (heap t ! a)
      then (case split_step h key t a of
              None \<Rightarrow> None
            | Some (t', a') \<Rightarrow> split_loop h key t' a')
      else Some (t, a))"
  by pat_completeness auto
termination
  by (relation "measure (\<lambda>(h, key, t, a). nat (2 ^ 31 - num_buckets t))")
     (auto dest: split_step_num_buckets)

declare split_loop.simps [simp del]

definition Insert :: "('k \<Rightarrow> nat) \<Rightarrow> ('k, 'v) ExtendibleHashTable \<Rightarrow> 'k \<Rightarrow> 'v
    \<Rightarrow> (unit, ('k, 'v) ExtendibleHashTable) outcome" where
  "Insert h t key val =
     (case IndexOf h t key of
        None \<Rightarrow> Undefined
      | Some pos \<Rightarrow>
          (case bucket_at t pos of
             None \<Rightarrow> Undefined
           | Some a \<Rightarrow>
               if fst (Bucket_Insert (heap t ! a) key val)
               then Returns () (t\<lparr>heap := (heap t)[a := snd (Bucket_Insert (heap t ! a) key val)]\<rparr>)
               else
                 (case split_loop h key t a of
                    None \<Rightarrow> Undefined
                  | Some (t', a') \<Rightarrow>
                      Returns ()
                        (t'\<lparr>heap := (heap t')[a' := snd (Bucket_Insert (heap t' ! a') key val)]\<rparr>))))"

section \<open>Buffer pool manager (src/buffer/buffer\_pool\_manager\_instance.cpp)\<close>

type_synonym page_id_t = int

type_synonym page_data = string

text \<open>
  Modelled from the spec: the page (storage/page/page.h), the disk manager and the
  constants of common/config.h are not under src/.  A page is a fixed-size byte buffer
  (conventionally 4 KiB) with the page id it holds (or the sentinel "invalid"), a pin
  count and a dirty flag; \<^verbatim>\<open>ResetMemory\<close> zeroes the buffer.
\<close>

definition INVALID_PAGE_ID :: page_id_t where
  "INVALID_PAGE_ID = -1"

definition BUSTUB_PAGE_SIZE :: nat where
  "BUSTUB_PAGE_SIZE = 4096"

record Page =
  page_id :: page_id_t
  pin_count :: int
  is_dirty :: bool
  data :: page_data

definition zeroed :: page_data where
  "zeroed = replicate BUSTUB_PAGE_SIZE (CHR 0x00)"

definition Page_new :: Page where
  "Page_new = \<lparr>page_id = INVALID_PAGE_ID, pin_count = 0, is_dirty = False, data = zeroed\<rparr>"

definition ResetMemory :: "Page \<Rightarrow> Page" where
  "ResetMemory p = p\<lparr>data := zeroed\<rparr>"

text \<open>
  Modelled from the spec: the disk manager is an external collaborator with synchronous
  \<^verbatim>\<open>read_page(id, buf)\<close> and \<^verbatim>\<open>write_page(id, buf)\<close>.  The model keeps what the disk
  holds for every page id and the sequence of calls it received.
\<close>

datatype disk_call = WritePageCall page_id_t page_data | ReadPageCall page_id_t

record DiskManager =
  disk_pages :: "page_id_t \<Rightarrow> page_data"
  disk_log :: "disk_call list"

definition WritePage :: "DiskManager \<Rightarrow> page_id_t \<Rightarrow> page_data \<Rightarrow> DiskManager" where
  "WritePage dm pid buf =
     dm\<lparr>disk_pages := (disk_pages dm)(pid := buf), disk_log := disk_log dm @ [WritePageCall pid buf]\<rparr>"

definition ReadPage :: "DiskManager \<Rightarrow> page_id_t \<Rightarrow> page_data \<times> DiskManager" where
  "ReadPage dm pid = (disk_pages dm pid, dm\<lparr>disk_log := disk_log dm @ [ReadPageCall pid]\<rparr>)"

record BufferPoolManagerInstance =
  pool_size :: nat
  pages :: "Page list"
  page_table :: "(page_id_t, frame_id_t) ExtendibleHashTable"
  replacer :: LRUKReplacer
  free_list :: "frame_id_t list"
  next_page_id :: page_id_t
  disk_manager :: DiskManager

text \<open>
  The constructor.  \<open>d\<close> is the initial evictable flag of the replacer's records and
  \<open>bsz\<close> the \<^verbatim>\<open>bucket_size_\<close> constant of the header; \<^verbatim>\<open>next_page_id_\<close> starts at 0.
\<close>

definition BufferPoolManagerInstance_new ::
    "bool \<Rightarrow> nat \<Rightarrow> nat \<Rightarrow> DiskManager \<Rightarrow> nat \<Rightarrow> BufferPoolManagerInstance" where
  "BufferPoolManagerInstance_new d bsz psize dm k =
     \<lparr>pool_size = psize,
      pages = replicate psize Page_new,
      page_table = ExtendibleHashTable_new bsz,
      replacer = LRUKReplacer_new d psize k,
      free_list = map (\<lambda>i. static_cast_int i) [0..<psize],
      next_page_id = 0,
      disk_manager = dm\<rparr>"

text \<open>Calls into the replacer and the page table: the pool keeps the state they leave.\<close>

definition with_replacer :: "BufferPoolManagerInstance \<Rightarrow> ('a, LRUKReplacer) outcome
    \<Rightarrow> ('a \<Rightarrow> BufferPoolManagerInstance \<Rightarrow> ('b, BufferPoolManagerInstance) outcome)
    \<Rightarrow> ('b, BufferPoolManagerInstance) outcome" where
  "with_replacer s m k =
     (case m of
        Returns x r \<Rightarrow> k x (s\<lparr>replacer := r\<rparr>)
      | Throws e r \<Rightarrow> Throws e (s\<lparr>replacer := r\<rparr>)
      | Undefined \<Rightarrow> Undefined)"

definition with_page_table :: "BufferPoolManagerInstance
    \<Rightarrow> ('a, (page_id_t, frame_id_t) ExtendibleHashTable) outcome
    \<Rightarrow> ('a \<Rightarrow> BufferPoolManagerInstance \<Rightarrow> ('b, BufferPoolManagerInstance) outcome)
    \<Rightarrow> ('b, BufferPoolManagerInstance) outcome" where
  "with_page_table s m k =
     (case m of
        Returns x t \<Rightarrow> k x (s\<lparr>page_table := t\<rparr>)
      | Throws e t \<Rightarrow> Throws e (s\<lparr>page_table := t\<rparr>)
      | Undefined \<Rightarrow> Undefined)"

text \<open>\<^verbatim>\<open>pages_ + frame_id\<close> must stay inside the array of \<^verbatim>\<open>pool_size_\<close> pages.\<close>

definition frame_ok :: "BufferPoolManagerInstance \<Rightarrow> frame_id_t \<Rightarrow> bool" where
  "frame_ok s f = (0 \<le> f \<and> nat f < length (pages s))"

definition set_page :: "BufferPoolManagerInstance \<Rightarrow> frame_id_t \<Rightarrow> Page \<Rightarrow> BufferPoolManagerInstance" where
  "set_page s f p = s\<lparr>pages := (pages s)[nat f := p]\<rparr>"

text \<open>
  Lines 48 to 65 of \<^verbatim>\<open>NewPgImp\<close> and lines 96 to 112 of \<^verbatim>\<open>FetchPgImp\<close> are the same
  statements: take the front of the free list, or else ask the replacer for a victim,
  write the victim back if it is dirty and remove its page id from the page table.
\<close>

definition acquire_frame :: "(page_id_t \<Rightarrow> nat) \<Rightarrow> BufferPoolManagerInstance
    \<Rightarrow> (frame_id_t option, BufferPoolManagerInstance) outcome" where
  "acquire_frame h s =
     (if free_list s \<noteq> [] then
        (if frame_ok s (hd (free_list s))
         then Returns (Some (hd (free_list s))) (s\<lparr>free_list := tl (free_list s)\<rparr>)
         else Undefined)
      else
        with_replacer s (Evict (replacer s)) (\<lambda>victim s1.
          case victim of
            None \<Rightarrow> Returns None s1
          | Some f \<Rightarrow>
              if \<not> frame_ok s1 f then Undefined
              else
                let page = pages s1 ! nat f;
                    s2 = (if is_dirty page
                          then s1\<lparr>disk_manager := WritePage (disk_manager s1) (page_id page) (data page)\<rparr>
                          else s1)
                in with_page_table s2 (Remove_ht h (page_table s2) (page_id page))
                     (\<lambda>_ s3. Returns (Some f) s3)))"

text \<open>
  \<^verbatim>\<open>NewPgImp\<close> returns the new page id and the frame (the index of the \<^verbatim>\<open>Page *\<close> it
  returns), or nothing.  \<^verbatim>\<open>AllocatePage\<close> is \<^verbatim>\<open>next_page_id_++\<close> on an \<^verbatim>\<open>int\<close>.
\<close>

definition NewPgImp :: "(page_id_t \<Rightarrow> nat) \<Rightarrow> BufferPoolManagerInstance
    \<Rightarrow> ((page_id_t \<times> frame_id_t) option, BufferPoolManagerInstance) outcome" where
  "NewPgImp h s =
     (case acquire_frame h s of
        Undefined \<Rightarrow> Undefined
      | Throws e s1 \<Rightarrow> Throws e s1
      | Returns None s1 \<Rightarrow> Returns None s1
      | Returns (Some f) s1 \<Rightarrow>
          if next_page_id s1 \<ge> 2 ^ 31 - 1 then Undefined
          else
            let pid = next_page_id s1;
                s2 = set_page (s1\<lparr>next_page_id := pid + 1\<rparr>) f
                       ((ResetMemory (pages s1 ! nat f))\<lparr>page_id := pid, is_dirty := False, pin_count := 1\<rparr>)
            in with_replacer s2 (RecordAccess (replacer s2) f) (\<lambda>_ s3.
               with_replacer s3 (SetEvictable (replacer s3) f False) (\<lambda>_ s4.
               with_page_table s4 (Insert h (page_table s4) pid f) (\<lambda>_ s5.
               Returns (Some (pid, f)) s5))))"

text \<open>Lines 126 and 127 of \<^verbatim>\<open>FetchPgImp\<close>, reached on a hit and on a miss alike.\<close>

definition fetch_tail :: "BufferPoolManagerInstance \<Rightarrow> frame_id_t
    \<Rightarrow> (frame_id_t option, BufferPoolManagerInstance) outcome" where
  "fetch_tail s f =
     with_replacer s (RecordAccess (replacer s) f) (\<lambda>_ s1.
     with_replacer s1 (SetEvictable (replacer s1) f False) (\<lambda>_ s2.
     Returns (Some f) s2))"

definition FetchPgImp :: "(page_id_t \<Rightarrow> nat) \<Rightarrow> BufferPoolManagerInstance \<Rightarrow> page_id_t
    \<Rightarrow> (frame_id_t option, BufferPoolManagerInstance) outcome" where
  "FetchPgImp h s pid =
     with_page_table s (Find h (page_table s) pid) (\<lambda>found s0.
       case found of
         Some f \<Rightarrow>
           if \<not> frame_ok s0 f \<or> pin_count (pages s0 ! nat f) \<ge> 2 ^ 31 - 1 then Undefined
           else fetch_tail
                  (set_page s0 f ((pages s0 ! nat f)\<lparr>pin_count := pin_count (pages s0 ! nat f) + 1\<rparr>)) f
       | None \<Rightarrow>
           (case acquire_frame h s0 of
              Undefined \<Rightarrow> Undefined
            | Throws e s1 \<Rightarrow> Throws e s1
            | Returns None s1 \<Rightarrow> Returns None s1
            | Returns (Some f) s1 \<Rightarrow>
                let s2 = set_page s1 f
                           ((ResetMemory (pages s1 ! nat f))\<lparr>page_id := pid, is_dirty := False, pin_count := 1\<rparr>)
                in with_page_table s2 (Insert h (page_table s2) pid f) (\<lambda>_ s3.
                     let rd = ReadPage (disk_manager s3) pid;
                         s4 = set_page (s3\<lparr>disk_manager := snd rd\<rparr>) f ((pages s3 ! nat f)\<lparr>data := fst rd\<rparr>)
                     in fetch_tail s4 f)))"

definition UnpinPgImp :: "(page_id_t \<Rightarrow> nat) \<Rightarrow> BufferPoolManagerInstance \<Rightarrow> page_id_t \<Rightarrow> bool
    \<Rightarrow> (bool, BufferPoolManagerInstance) outcome" where
  "UnpinPgImp h s pid dirty =
     with_page_table s (Find h (page_table s) pid) (\<lambda>found s0.
       case found of
         None \<Rightarrow> Returns False s0
       | Some f \<Rightarrow>
           if \<not> frame_ok s0 f then Undefined
           else if pin_count (pages s0 ! nat f) = 0 then Returns False s0
           else if pin_count (pages s0 ! nat f) \<le> - (2 ^ 31) then Undefined
           else
             let s1 = set_page s0 f ((pages s0 ! nat f)\<lparr>pin_count := pin_count (pages s0 ! nat f) - 1\<rparr>);
                 mark = (\<lambda>s2. Returns True
                           (if dirty then set_page s2 f ((pages s2 ! nat f)\<lparr>is_dirty := True\<rparr>) else s2))
             in if pin_count (pages s1 ! nat f) = 0
                then with_replacer s1 (SetEvictable (replacer s1) f True) (\<lambda>_ s2. mark s2)
                else mark s1)"

definition FlushPgImp :: "(page_id_t \<Rightarrow> nat) \<Rightarrow> BufferPoolManagerInstance \<Rightarrow> page_id_t
    \<Rightarrow> (bool, BufferPoolManagerInstance) outcome" where
  "FlushPgImp h s pid =
     with_page_table s (Find h (page_table s) pid) (\<lambda>found s0.
       case found of
         None \<Rightarrow> Returns False s0
       | Some f \<Rightarrow>
           if pid = INVALID_PAGE_ID then Returns False s0
           else if \<not> frame_ok s0 f then Undefined
           else Returns True
                  (set_page (s0\<lparr>disk_manager := WritePage (disk_manager s0) pid (data (pages s0 ! nat f))\<rparr>)
                     f ((pages s0 ! nat f)\<lparr>is_dirty := False\<rparr>)))"

text \<open>The loop of \<^verbatim>\<open>FlushAllPgsImp\<close> over the frames \<open>fs\<close> still to visit.\<close>

fun flush_frames :: "nat list \<Rightarrow> BufferPoolManagerInstance \<Rightarrow> BufferPoolManagerInstance" where
  "flush_frames [] s = s"
| "flush_frames (i # fs) s =
     flush_frames fs
       (if page_id (pages s ! i) \<noteq> INVALID_PAGE_ID
        then set_page (s\<lparr>disk_manager := WritePage (disk_manager s) (page_id (pages s ! i)) (data (pages s ! i))\<rparr>)
               (int i) ((pages s ! i)\<lparr>is_dirty := False\<rparr>)
        else s)"

definition FlushAllPgsImp :: "BufferPoolManagerInstance \<Rightarrow> (unit, BufferPoolManagerInstance) outcome" where
  "FlushAllPgsImp s =
     (if nat (static_cast_int (pool_size s)) \<le> length (pages s)
      then Returns () (flush_frames [0..<nat (static_cast_int (pool_size s))] s)
      else Undefined)"

text \<open>\<^verbatim>\<open>DeallocatePage\<close> is a no-op (Modelled from the spec: it is defined in the header).\<close>

definition DeletePgImp :: "(page_id_t \<Rightarrow> nat) \<Rightarrow> BufferPoolManagerInstance \<Rightarrow> page_id_t
    \<Rightarrow> (bool, BufferPoolManagerInstance) outcome" where
  "DeletePgImp h s pid =
     with_page_table s (Find h (page_table s) pid) (\<lambda>found s0.
       case found of
         None \<Rightarrow> Returns True s0
       | Some f \<Rightarrow>
           if \<not> frame_ok s0 f then Undefined
           else if pin_count (pages s0 ! nat f) > 0 then Returns False s0
           else
             let page = pages s0 ! nat f;
                 s1 = (if is_dirty page
                       then set_page (s0\<lparr>disk_manager := WritePage (disk_manager s0) (page_id page) (data page)\<rparr>)
                              f (page\<lparr>is_dirty := False\<rparr>)
                       else s0)
             in with_replacer s1 (SetEvictable (replacer s1) f True) (\<lambda>_ s2.
                with_replacer s2 (Remove (replacer s2) f) (\<lambda>_ s3.
                with_page_table s3 (Remove_ht h (page_table s3) pid) (\<lambda>_ s4.
                Returns True
                  ((set_page s4 f (ResetMemory (pages s4 ! nat f)))\<lparr>free_list := free_list s4 @ [f]\<rparr>)))))"

section \<open>Invariants of the replacer\<close>

text \<open>The frames the replacer tracks are those with a node in one of its two lists.\<close>

definition tracked :: "LRUKReplacer \<Rightarrow> frame_id_t set" where
  "tracked r = snd ` set (hist_list r @ cache_list r)"

text \<open>
  The invariant of the replacer's representation: the vector of access histories has one
  slot per admitted frame id, no frame has two nodes, every node of the history list
  belongs to a frame with a positive count below K (or exactly one access) whose handle
  names that node, every node of the cache list to a frame with at least K (and at least
  two) accesses whose handle names that node, every frame with a positive count has a node,
  and no count exceeds the timestamp counter.
\<close>

definition replacer_inv :: "LRUKReplacer \<Rightarrow> bool" where
  "replacer_inv r \<longleftrightarrow>
     length (frame_time r) = replacer_size r + 1 \<and>
     distinct (map snd (hist_list r @ cache_list r)) \<and>
     (\<forall>e\<in>set (hist_list r).
        in_frame_time r (snd e) \<and> it (frame_map r (snd e)) = HistNode e \<and>
        0 < count (frame_map r (snd e)) \<and>
        (count (frame_map r (snd e)) < replacer_k r \<or> count (frame_map r (snd e)) = 1)) \<and>
     (\<forall>e\<in>set (cache_list r).
        in_frame_time r (snd e) \<and> it (frame_map r (snd e)) = CacheNode e \<and>
        replacer_k r \<le> count (frame_map r (snd e)) \<and> 2 \<le> count (frame_map r (snd e))) \<and>
     (\<forall>f. 0 < count (frame_map r f) \<longrightarrow> f \<in> tracked r) \<and>
     (\<forall>f. count (frame_map r f) \<le> current_timestamp r)"

text \<open>
  The state after lines 73 to 75 of \<^verbatim>\<open>RecordAccess\<close> when neither counter wraps: the
  count is incremented and the fresh timestamp pushed.
\<close>

definition bump :: "LRUKReplacer \<Rightarrow> frame_id_t \<Rightarrow> LRUKReplacer" where
  "bump r f =
     r\<lparr>frame_map := (frame_map r)(f := (frame_map r f)\<lparr>count := count (frame_map r f) + 1\<rparr>),
       frame_time := (frame_time r)[nat f := frame_time r ! nat f @ [current_timestamp r + 1]],
       current_timestamp := current_timestamp r + 1\<rparr>"


section \<open>Runs of the replacer\<close>

text \<open>
  A caller's sequence of operations on the replacer.  An operation that throws leaves the
  replacer usable (in the state at the throw); an undefined one ends the run.
\<close>

datatype replacer_op = OpRecordAccess frame_id_t | OpSetEvictable frame_id_t bool | OpEvict | OpRemove frame_id_t

definition state_after :: "('a, 's) outcome \<Rightarrow> 's option" where
  "state_after m = (case m of Returns x s \<Rightarrow> Some s | Throws e s \<Rightarrow> Some s | Undefined \<Rightarrow> None)"

fun replacer_step :: "replacer_op \<Rightarrow> LRUKReplacer \<Rightarrow> LRUKReplacer option" where
  "replacer_step (OpRecordAccess f) r = state_after (RecordAccess r f)"
| "replacer_step (OpSetEvictable f b) r = state_after (SetEvictable r f b)"
| "replacer_step OpEvict r = state_after (Evict r)"
| "replacer_step (OpRemove f) r = state_after (Remove r f)"

fun replacer_run :: "replacer_op list \<Rightarrow> LRUKReplacer \<Rightarrow> LRUKReplacer option" where
  "replacer_run [] r = Some r"
| "replacer_run (op # ops) r =
     (case replacer_step op r of None \<Rightarrow> None | Some r' \<Rightarrow> replacer_run ops r')"

text \<open>Along a run, \<^verbatim>\<open>SetEvictable\<close> is only applied to frames with recorded accesses.\<close>

fun flags_tracked_only :: "replacer_op list \<Rightarrow> LRUKReplacer \<Rightarrow> bool" where
  "flags_tracked_only [] r = True"
| "flags_tracked_only (op # ops) r =
     ((case op of OpSetEvictable f b \<Rightarrow> count (frame_map r f) \<noteq> 0 | _ \<Rightarrow> True) \<and>
      (case replacer_step op r of None \<Rightarrow> True | Some r' \<Rightarrow> flags_tracked_only ops r'))"

text \<open>The number of tracked frames whose flag says evictable.\<close>

definition evictable_count :: "LRUKReplacer \<Rightarrow> nat" where
  "evictable_count r =
     length (filter (\<lambda>e. evictable (frame_map r (snd e))) (hist_list r @ cache_list r))"

text \<open>
  The invariant behind \<^verbatim>\<open>Size\<close> when fresh records are flagged evictable: untracked
  frames are flagged evictable and \<^verbatim>\<open>curr_size_\<close> counts the tracked evictable frames.
\<close>

definition size_inv :: "LRUKReplacer \<Rightarrow> bool" where
  "size_inv r \<longleftrightarrow>
     replacer_inv r \<and> replacer_size r + 1 < 2 ^ 64 \<and>
     (\<forall>f. count (frame_map r f) = 0 \<longrightarrow> evictable (frame_map r f)) \<and>
     curr_size r = evictable_count r"


section \<open>Concrete inputs\<close>

text \<open>
  The hash of an \<^verbatim>\<open>int\<close> key used in the examples: the key converted to \<^verbatim>\<open>size_t\<close>
  (what \<^verbatim>\<open>std::hash<int>\<close> is in libstdc++), and a disk whose pages are all zero.
\<close>

definition std_hash_int :: "int \<Rightarrow> nat" where
  "std_hash_int k = nat (k mod 2 ^ 64)"

definition DiskManager_empty :: DiskManager where
  "DiskManager_empty = \<lparr>disk_pages = (\<lambda>_. zeroed), disk_log = []\<rparr>"


text \<open>
  A pool of one frame (K = 2, buckets of size 2) after \<^verbatim>\<open>NewPgImp\<close> and
  \<^verbatim>\<open>UnpinPgImp(0, true)\<close>: page 0 is resident in frame 0, dirty, unpinned and evictable.
\<close>

definition bpm_one_dirty :: BufferPoolManagerInstance where
  "bpm_one_dirty =
     ret_state (UnpinPgImp std_hash_int
       (ret_state (NewPgImp std_hash_int (BufferPoolManagerInstance_new True 2 1 DiskManager_empty 2)))
       0 True)"


text \<open>Three operations on a replacer for 7 frames.\<close>

definition replacer_example_ops :: "replacer_op list" where
  "replacer_example_ops = [OpRecordAccess 1, OpSetEvictable 1 False, OpRecordAccess 2]"


section \<open>Invariant and abstraction of the extendible hash table\<close>

text \<open>
  A directory slot \<open>i\<close> that holds the bucket at address \<open>a\<close> is in order when the
  bucket exists, its local depth does not exceed the global depth, it has the table's
  capacity and at most that many entries with distinct keys, every key in it has the low
  \<^verbatim>\<open>depth_\<close> bits of its hash equal to those of \<open>i\<close>, and the slots that share the bucket are
  exactly those that agree with \<open>i\<close> on these bits.
\<close>

definition bucket_ok :: "('k \<Rightarrow> nat) \<Rightarrow> ('k, 'v) ExtendibleHashTable \<Rightarrow> nat \<Rightarrow> nat \<Rightarrow> bool" where
  "bucket_ok h t i a \<longleftrightarrow>
     a < length (heap t) \<and>
     depth_B (heap t ! a) \<le> global_depth t \<and>
     size_B (heap t ! a) = bucket_size t \<and>
     length (list_B (heap t ! a)) \<le> bucket_size t \<and>
     distinct (map fst (list_B (heap t ! a))) \<and>
     (\<forall>e\<in>set (list_B (heap t ! a)). h (fst e) mod 2 ^ depth_B (heap t ! a) = i mod 2 ^ depth_B (heap t ! a)) \<and>
     (\<forall>j<length (dir t). dir t ! j = Some a \<longleftrightarrow> j mod 2 ^ depth_B (heap t ! a) = i mod 2 ^ depth_B (heap t ! a))"

definition ht_shape :: "('k \<Rightarrow> nat) \<Rightarrow> ('k, 'v) ExtendibleHashTable \<Rightarrow> bool" where
  "ht_shape h t \<longleftrightarrow>
     length (dir t) = 2 ^ global_depth t \<and>
     (\<forall>i<length (dir t). \<exists>a. dir t ! i = Some a \<and> bucket_ok h t i a)"

definition ht_inv :: "('k \<Rightarrow> nat) \<Rightarrow> ('k, 'v) ExtendibleHashTable \<Rightarrow> bool" where
  "ht_inv h t \<longleftrightarrow> global_depth t \<le> 30 \<and> ht_shape h t"

definition ht_lookup :: "('k \<Rightarrow> nat) \<Rightarrow> ('k, 'v) ExtendibleHashTable \<Rightarrow> 'k \<Rightarrow> 'v option" where
  "ht_lookup h t k =
     (case bucket_at t (h k mod 2 ^ global_depth t) of
        Some a \<Rightarrow> find_items (list_B (heap t ! a)) k
      | None \<Rightarrow> None)"


text \<open>
  Sequences of operations on the table: a run exists when every operation returns.  The
  contents the specification expects after a run are given by the last operation on each
  key: the value of the most recent \<^verbatim>\<open>Insert\<close> not followed by a \<^verbatim>\<open>Remove\<close>.
\<close>

datatype ('k, 'v) ht_op = HtInsert 'k 'v | HtRemove 'k | HtFind 'k

definition ht_step :: "('k \<Rightarrow> nat) \<Rightarrow> ('k, 'v) ExtendibleHashTable \<Rightarrow> ('k, 'v) ht_op
    \<Rightarrow> ('k, 'v) ExtendibleHashTable option" where
  "ht_step h t op =
     (case op of
        HtInsert k v \<Rightarrow> (case Insert h t k v of Returns x t' \<Rightarrow> Some t' | _ \<Rightarrow> None)
      | HtRemove k \<Rightarrow> (case Remove_ht h t k of Returns x t' \<Rightarrow> Some t' | _ \<Rightarrow> None)
      | HtFind k \<Rightarrow> (case Find h t k of Returns x t' \<Rightarrow> Some t' | _ \<Rightarrow> None))"

fun ht_run :: "('k \<Rightarrow> nat) \<Rightarrow> ('k, 'v) ExtendibleHashTable \<Rightarrow> ('k, 'v) ht_op list
    \<Rightarrow> ('k, 'v) ExtendibleHashTable option" where
  "ht_run h t [] = Some t"
| "ht_run h t (op # ops) = (case ht_step h t op of None \<Rightarrow> None | Some t' \<Rightarrow> ht_run h t' ops)"

fun last_binding :: "('k, 'v) ht_op list \<Rightarrow> 'k \<Rightarrow> 'v option" where
  "last_binding [] k = None"
| "last_binding (HtInsert k' v # ops) k = (if k' = k then Some v else last_binding ops k)"
| "last_binding (HtRemove k' # ops) k = (if k' = k then None else last_binding ops k)"
| "last_binding (HtFind k' # ops) k = last_binding ops k"

definition ht_model :: "('k, 'v) ht_op list \<Rightarrow> 'k \<Rightarrow> 'v option" where
  "ht_model ops k = last_binding (rev ops) k"

text \<open>
  Three insertions into a table with buckets of two entries.  The keys 0, 4 and 8 agree
  on their two low bits, so the third insertion splits three times before the full bucket
  separates.
\<close>

definition ht_example_ops :: "(int, nat) ht_op list" where
  "ht_example_ops = [HtInsert 0 10, HtInsert 4 14, HtInsert 8 18]"


section \<open>The access log behind the replacer\<close>

text \<open>
  The accesses the replacer has recorded for each frame since the frame was last evicted
  or removed, most recent first, each with the timestamp \<^verbatim>\<open>RecordAccess\<close> gave it.  This log
  is not part of the replacer; it is what the ordering law of the replacer speaks about.
  An operation that throws records nothing.
\<close>

definition log_step :: "replacer_op \<Rightarrow> LRUKReplacer \<Rightarrow> (frame_id_t \<Rightarrow> nat list) \<Rightarrow> frame_id_t \<Rightarrow> nat list" where
  "log_step op r g =
     (case op of
        OpRecordAccess f \<Rightarrow>
          (case RecordAccess r f of Returns x r' \<Rightarrow> g(f := current_timestamp r' # g f) | _ \<Rightarrow> g)
      | OpSetEvictable f b \<Rightarrow> g
      | OpEvict \<Rightarrow> (case Evict r of Returns (Some v) r' \<Rightarrow> g(v := []) | _ \<Rightarrow> g)
      | OpRemove f \<Rightarrow> (case Remove r f of Returns x r' \<Rightarrow> g(f := []) | _ \<Rightarrow> g))"

fun access_log :: "replacer_op list \<Rightarrow> LRUKReplacer \<Rightarrow> (frame_id_t \<Rightarrow> nat list) \<Rightarrow> frame_id_t \<Rightarrow> nat list" where
  "access_log [] r g = g"
| "access_log (op # ops) r g =
     (case replacer_step op r of None \<Rightarrow> g | Some r' \<Rightarrow> access_log ops r' (log_step op r g))"

text \<open>
  The log is in order when every frame's timestamps decrease, none exceeds the timestamp
  counter, and no two frames share a timestamp.  The replacer agrees with the log when
  the counts are the lengths of the logs, a node of the history list carries the frame's
  first timestamp and the list is ordered by it (newest at the front), a node of the cache
  list carries the frame's K-th most recent timestamp and the list is ordered by it
  (smallest at the front), and \<^verbatim>\<open>frame_time_\<close> holds the whole log of a frame of the history
  list and the K - 1 most recent timestamps of a frame of the cache list.
\<close>

definition log_ok :: "nat \<Rightarrow> (frame_id_t \<Rightarrow> nat list) \<Rightarrow> bool" where
  "log_ok ts g \<longleftrightarrow>
     (\<forall>f. sorted_wrt (>) (g f) \<and> (\<forall>t\<in>set (g f). t \<le> ts)) \<and>
     (\<forall>f f'. f \<noteq> f' \<longrightarrow> set (g f) \<inter> set (g f') = {})"

definition log_inv :: "LRUKReplacer \<Rightarrow> (frame_id_t \<Rightarrow> nat list) \<Rightarrow> bool" where
  "log_inv r g \<longleftrightarrow>
     replacer_inv r \<and> log_ok (current_timestamp r) g \<and>
     (\<forall>f. length (g f) = count (frame_map r f)) \<and>
     (\<forall>e\<in>set (hist_list r). fst e = last (g (snd e))) \<and>
     sorted_wrt (\<lambda>a b. fst b < fst a) (hist_list r) \<and>
     (\<forall>e\<in>set (cache_list r). fst e = g (snd e) ! (replacer_k r - 1)) \<and>
     sorted_wrt (\<lambda>a b. \<not> k_time_less b a) (cache_list r) \<and>
     (cache_list r \<noteq> [] \<longrightarrow> 2 \<le> replacer_k r) \<and>
     (\<forall>f. in_frame_time r f \<longrightarrow>
        frame_time r ! nat f =
          (if f \<in> snd ` set (cache_list r) then rev (take (replacer_k r - 1) (g f)) else rev (g f)))"


text \<open>
  Five accesses to two frames: frame 1 at the timestamps 1, 4 and 5, frame 2 at 2 and 3.
\<close>

definition lruk_example_ops :: "replacer_op list" where
  "lruk_example_ops =
     [OpRecordAccess 1, OpRecordAccess 2, OpRecordAccess 2, OpRecordAccess 1, OpRecordAccess 1]"


section \<open>Runs and invariant of the buffer pool\<close>

text \<open>
  A caller's sequence of operations on the pool.  An operation that throws would leave the
  pool in the state at the throw; an undefined one ends the run.
\<close>

datatype bpm_op = OpNewPg | OpFetchPg page_id_t | OpUnpinPg page_id_t bool | OpFlushPg page_id_t
  | OpFlushAllPgs | OpDeletePg page_id_t

definition bpm_step :: "(page_id_t \<Rightarrow> nat) \<Rightarrow> bpm_op \<Rightarrow> BufferPoolManagerInstance
    \<Rightarrow> BufferPoolManagerInstance option" where
  "bpm_step h op s =
     (case op of
        OpNewPg \<Rightarrow> state_after (NewPgImp h s)
      | OpFetchPg pid \<Rightarrow> state_after (FetchPgImp h s pid)
      | OpUnpinPg pid dirty \<Rightarrow> state_after (UnpinPgImp h s pid dirty)
      | OpFlushPg pid \<Rightarrow> state_after (FlushPgImp h s pid)
      | OpFlushAllPgs \<Rightarrow> state_after (FlushAllPgsImp s)
      | OpDeletePg pid \<Rightarrow> state_after (DeletePgImp h s pid))"

fun bpm_run :: "(page_id_t \<Rightarrow> nat) \<Rightarrow> bpm_op list \<Rightarrow> BufferPoolManagerInstance
    \<Rightarrow> BufferPoolManagerInstance option" where
  "bpm_run h [] s = Some s"
| "bpm_run h (op # ops) s = (case bpm_step h op s of None \<Rightarrow> None | Some s' \<Rightarrow> bpm_run h ops s')"

text \<open>
  The invariant behind pin safety: the replacer admits every frame id of the pool, the
  page table is in order, every entry of the page table names a frame of the pool that
  holds that page id and is not in the free list, the free list has no duplicates and its
  frames have pin count 0, no pin count is negative, and a frame with a positive pin count
  is not flagged evictable in the replacer.
\<close>

definition bpm_inv :: "(page_id_t \<Rightarrow> nat) \<Rightarrow> BufferPoolManagerInstance \<Rightarrow> bool" where
  "bpm_inv h s \<longleftrightarrow>
     length (pages s) < 2 ^ 31 \<and> replacer_size (replacer s) = length (pages s) \<and>
     ht_inv h (page_table s) \<and>
     (\<forall>pid f. ht_lookup h (page_table s) pid = Some f \<longrightarrow>
        frame_ok s f \<and> page_id (pages s ! nat f) = pid \<and> f \<notin> set (free_list s)) \<and>
     distinct (free_list s) \<and>
     (\<forall>f\<in>set (free_list s). frame_ok s f \<and> pin_count (pages s ! nat f) = 0) \<and>
     (\<forall>f. frame_ok s f \<longrightarrow>
        0 \<le> pin_count (pages s ! nat f) \<and>
        (0 < pin_count (pages s ! nat f) \<longrightarrow> \<not> evictable (frame_map (replacer s) f)))"

text \<open>What an operation must leave alone in a pinned frame.\<close>

definition kept :: "BufferPoolManagerInstance \<Rightarrow> BufferPoolManagerInstance \<Rightarrow> frame_id_t \<Rightarrow> bool" where
  "kept s s' f \<longleftrightarrow>
     frame_ok s' f \<and> page_id (pages s' ! nat f) = page_id (pages s ! nat f) \<and>
     data (pages s' ! nat f) = data (pages s ! nat f) \<and> f \<notin> set (free_list s')"


text \<open>Along a run, the frame \<open>f\<close> has a positive pin count after every operation.\<close>

fun stays_pinned :: "(page_id_t \<Rightarrow> nat) \<Rightarrow> bpm_op list \<Rightarrow> BufferPoolManagerInstance
    \<Rightarrow> frame_id_t \<Rightarrow> bool" where
  "stays_pinned h [] s f = True"
| "stays_pinned h (op # ops) s f =
     (case bpm_step h op s of
        None \<Rightarrow> True
      | Some s' \<Rightarrow> 0 < pin_count (pages s' ! nat f) \<and> stays_pinned h ops s' f)"


text \<open>
  A pool of two frames (K = 2, buckets of size 2) after two \<^verbatim>\<open>NewPgImp\<close> and
  \<^verbatim>\<open>UnpinPgImp(0, false)\<close>: page 0 is resident in frame 0 and unpinned, page 1 is resident
  in frame 1 and pinned.
\<close>

definition bpm_example_ops :: "bpm_op list" where
  "bpm_example_ops = [OpNewPg, OpNewPg, OpUnpinPg 0 False]"

definition bpm_example :: BufferPoolManagerInstance where
  "bpm_example =
     the (bpm_run std_hash_int bpm_example_ops (BufferPoolManagerInstance_new True 2 2 DiskManager_empty 2))"

section \<open>Evaluating the replacer on concrete inputs\<close>

lemmas replacer_eval =
  RecordAccess_def SetEvictable_def Remove_def remove_frame_def cache_insert_def
  upper_bound_insert_def k_time_less_def in_frame_time_def inc64_def dec64_def
  static_cast_int_def LRUKReplacer_new_def FrameInfo_default_def Let_def


section \<open>The replacer's operations keep its invariant\<close>

lemma inc64_eq: "n < 2 ^ 64 - 1 \<Longrightarrow> inc64 n = n + 1"
  by (simp add: inc64_def)

lemma set_upper_bound_insert [simp]: "set (upper_bound_insert e xs) = insert e (set xs)"
proof -
  have "set (takeWhile (\<lambda>x. \<not> k_time_less e x) xs) \<union> set (dropWhile (\<lambda>x. \<not> k_time_less e x) xs) = set xs"
    by (metis set_append takeWhile_dropWhile_id)
  then show ?thesis by (auto simp: upper_bound_insert_def)
qed

lemma distinct_snd_mid:
  "distinct (map snd (ys @ e # zs)) \<longleftrightarrow> snd e \<notin> snd ` set (ys @ zs) \<and> distinct (map snd (ys @ zs))"
  by auto

lemma distinct_snd_upper_bound_insert [simp]:
  "distinct (map snd (upper_bound_insert e xs)) \<longleftrightarrow> snd e \<notin> snd ` set xs \<and> distinct (map snd xs)"
  unfolding upper_bound_insert_def distinct_snd_mid takeWhile_dropWhile_id ..

lemma replacer_inv_new: "replacer_inv (LRUKReplacer_new d n k)"
  by (simp add: replacer_inv_def LRUKReplacer_new_def FrameInfo_default_def tracked_def)

lemma SetEvictable_fields:
  "SetEvictable r f b = Returns x r' \<Longrightarrow>
     hist_list r' = hist_list r \<and> cache_list r' = cache_list r \<and> frame_time r' = frame_time r \<and>
     replacer_size r' = replacer_size r \<and> replacer_k r' = replacer_k r \<and>
     current_timestamp r' = current_timestamp r \<and>
     (\<forall>g. count (frame_map r' g) = count (frame_map r g) \<and> it (frame_map r' g) = it (frame_map r g)
        \<and> in_frame_time r' g = in_frame_time r g)"
  by (auto simp: SetEvictable_def Let_def in_frame_time_def split: if_splits)

lemma SetEvictable_inv:
  assumes "replacer_inv r" "SetEvictable r f b = Returns x r'"
  shows "replacer_inv r'"
  using assms(1) SetEvictable_fields[OF assms(2)]
  by (simp add: replacer_inv_def tracked_def)

lemma RecordAccess_first:
  assumes "count (frame_map r f) = 0" "RecordAccess r f = Returns x r'"
  shows "r' = r\<lparr>frame_map := (frame_map r)(f := (frame_map r f)\<lparr>count := 1, it := HistNode (inc64 (current_timestamp r), f)\<rparr>),
               frame_time := (frame_time r)[nat f := frame_time r ! nat f @ [inc64 (current_timestamp r)]],
               current_timestamp := inc64 (current_timestamp r),
               curr_size := inc64 (curr_size r),
               hist_list := (inc64 (current_timestamp r), f) # hist_list r\<rparr> \<and> in_frame_time r f"
  using assms by (auto simp: RecordAccess_def Let_def inc64_def split: if_splits)

lemma RecordAccess_inv_first:
  assumes inv: "replacer_inv r" and c: "count (frame_map r f) = 0"
    and ra: "RecordAccess r f = Returns x r'" and ts: "current_timestamp r < 2 ^ 64 - 1"
  shows "replacer_inv r'"
proof -
  have nt: "f \<notin> tracked r" using inv c by (force simp: replacer_inv_def tracked_def)
  note r' = RecordAccess_first[OF c ra]
  show ?thesis using inv nt c ts r'[THEN conjunct2]
    apply (simp add: r'[THEN conjunct1] replacer_inv_def tracked_def in_frame_time_def inc64_eq)
    apply (intro conjI)
    apply (auto intro: le_SucI)
    done
qed

lemma snd_set_remove1:
  "distinct (map snd xs) \<Longrightarrow> e \<in> set xs \<Longrightarrow> snd ` set (remove1 e xs) = snd ` set xs - {snd e}"
  by (induction xs) (auto simp: image_iff)

lemma distinct_snd_remove1:
  "distinct (map snd xs) \<Longrightarrow> distinct (map snd (remove1 e xs))"
  by (induction xs) (auto simp: image_iff dest: notin_set_remove1)

lemma in_remove1_snd_neq:
  "distinct (map snd xs) \<Longrightarrow> e \<in> set xs \<Longrightarrow> e' \<in> set (remove1 e xs) \<Longrightarrow> snd e' \<noteq> snd e"
  using snd_set_remove1[of xs e] by (metis DiffE imageI insertI1)

lemma in_remove1D: "e' \<in> set (remove1 e xs) \<Longrightarrow> e' \<in> set xs"
  by (metis notin_set_remove1)

text \<open>The node of a tracked frame.\<close>

lemma inv_hist_node:
  assumes "replacer_inv r" "it (frame_map r f) = HistNode e" "e \<in> set (hist_list r)"
  shows "snd e = f \<or> count (frame_map r f) = 0"
proof (cases "count (frame_map r f) = 0")
  case False
  then have "f \<in> tracked r" using assms(1) by (simp add: replacer_inv_def)
  then obtain e' where e': "e' \<in> set (hist_list r) \<or> e' \<in> set (cache_list r)" "snd e' = f"
    by (auto simp: tracked_def)
  then have "it (frame_map r f) = HistNode e' \<or> it (frame_map r f) = CacheNode e'"
    using assms(1) by (auto simp: replacer_inv_def)
  then show ?thesis using assms(2) e'(2) by auto
qed simp

lemma inv_cache_node:
  assumes "replacer_inv r" "it (frame_map r f) = CacheNode e" "e \<in> set (cache_list r)"
  shows "snd e = f \<or> count (frame_map r f) = 0"
proof (cases "count (frame_map r f) = 0")
  case False
  then have "f \<in> tracked r" using assms(1) by (simp add: replacer_inv_def)
  then obtain e' where e': "e' \<in> set (hist_list r) \<or> e' \<in> set (cache_list r)" "snd e' = f"
    by (auto simp: tracked_def)
  then have "it (frame_map r f) = HistNode e' \<or> it (frame_map r f) = CacheNode e'"
    using assms(1) by (auto simp: replacer_inv_def)
  then show ?thesis using assms(2) e'(2) by auto
qed simp


lemma RecordAccess_later:
  assumes c: "count (frame_map r f) \<noteq> 0" and nw: "count (frame_map r f) < 2 ^ 64 - 1"
    and ts: "current_timestamp r < 2 ^ 64 - 1"
    and ra: "RecordAccess r f = Returns x r'"
  shows "in_frame_time r f \<and>
     ((count (frame_map r f) + 1 = replacer_k r \<and>
        (\<exists>e. it (frame_map r f) = HistNode e \<and> e \<in> set (hist_list r) \<and>
             r' = cache_insert ((bump r f)\<lparr>hist_list := remove1 e (hist_list r)\<rparr>) f)) \<or>
      (count (frame_map r f) + 1 > replacer_k r \<and>
        (\<exists>e. it (frame_map r f) = CacheNode e \<and> e \<in> set (cache_list r) \<and>
             r' = cache_insert ((bump r f)\<lparr>cache_list := remove1 e (cache_list r)\<rparr>) f)) \<or>
      (count (frame_map r f) + 1 < replacer_k r \<and> r' = bump r f))"
  using c ra
  by (auto simp: RecordAccess_def Let_def inc64_eq[OF nw] inc64_eq[OF ts] bump_def
           split: if_splits list_iter.splits)

lemma RecordAccess_inv_stay:
  assumes inv: "replacer_inv r" and c: "count (frame_map r f) \<noteq> 0"
    and lt: "count (frame_map r f) + 1 < replacer_k r" and inr: "in_frame_time r f"
  shows "replacer_inv (bump r f)"
proof -
  have "f \<in> tracked r" using inv c by (simp add: replacer_inv_def)
  moreover have "\<And>e. e \<in> set (cache_list r) \<Longrightarrow> snd e \<noteq> f"
    using inv lt by (auto simp: replacer_inv_def)
  ultimately show ?thesis using inv c lt
    apply (simp add: bump_def replacer_inv_def tracked_def in_frame_time_def)
    apply (intro conjI)
    apply (auto intro: le_SucI simp: Suc_le_eq)
    done
qed



lemma cache_insert_fields:
  "hist_list (cache_insert r f) = hist_list r"
  "cache_list (cache_insert r f) = upper_bound_insert (hd (frame_time r ! nat f), f) (cache_list r)"
  "length (frame_time (cache_insert r f)) = length (frame_time r)"
  "replacer_size (cache_insert r f) = replacer_size r"
  "replacer_k (cache_insert r f) = replacer_k r"
  "current_timestamp (cache_insert r f) = current_timestamp r"
  "curr_size (cache_insert r f) = curr_size r"
  "count (frame_map (cache_insert r f) g) = count (frame_map r g)"
  "evictable (frame_map (cache_insert r f) g) = evictable (frame_map r g)"
  "it (frame_map (cache_insert r f) f) = CacheNode (hd (frame_time r ! nat f), f)"
  "g \<noteq> f \<Longrightarrow> frame_map (cache_insert r f) g = frame_map r g"
  "in_frame_time (cache_insert r f) g = in_frame_time r g"
  by (simp_all add: cache_insert_def Let_def in_frame_time_def)

lemma bump_fields:
  "hist_list (bump r f) = hist_list r"
  "cache_list (bump r f) = cache_list r"
  "length (frame_time (bump r f)) = length (frame_time r)"
  "replacer_size (bump r f) = replacer_size r"
  "replacer_k (bump r f) = replacer_k r"
  "current_timestamp (bump r f) = current_timestamp r + 1"
  "curr_size (bump r f) = curr_size r"
  "count (frame_map (bump r f) f) = count (frame_map r f) + 1"
  "evictable (frame_map (bump r f) g) = evictable (frame_map r g)"
  "it (frame_map (bump r f) g) = it (frame_map r g)"
  "g \<noteq> f \<Longrightarrow> frame_map (bump r f) g = frame_map r g"
  "in_frame_time (bump r f) g = in_frame_time r g"
  by (simp_all add: bump_def in_frame_time_def)

lemma RecordAccess_inv_to_cache:
  assumes inv: "replacer_inv r" and c: "count (frame_map r f) \<noteq> 0"
    and k: "count (frame_map r f) + 1 \<ge> replacer_k r" and inr: "in_frame_time r f"
    and e: "e \<in> set (hist_list r)" "snd e = f"
  shows "replacer_inv (cache_insert ((bump r f)\<lparr>hist_list := remove1 e (hist_list r)\<rparr>) f)"
    (is "replacer_inv ?r'")
proof -
  let ?t = "hd (frame_time ((bump r f)\<lparr>hist_list := remove1 e (hist_list r)\<rparr>) ! nat f)"
  have d: "distinct (map snd (hist_list r))" "distinct (map snd (cache_list r))"
    and dj: "snd ` set (hist_list r) \<inter> snd ` set (cache_list r) = {}"
    using inv by (auto simp: replacer_inv_def)
  have H: "hist_list ?r' = remove1 e (hist_list r)"
    and C: "cache_list ?r' = upper_bound_insert (?t, f) (cache_list r)"
    by (simp_all add: cache_insert_fields bump_fields)
  have nc: "f \<notin> snd ` set (cache_list r)" using dj e by auto
  have tr: "snd ` set (remove1 e (hist_list r)) = snd ` set (hist_list r) - {f}"
    using snd_set_remove1[OF d(1) e(1)] e(2) by simp
  have other: "frame_map ?r' g = frame_map r g" "in_frame_time ?r' g = in_frame_time r g" if "g \<noteq> f" for g
    using that by (simp_all add: cache_insert_fields bump_fields in_frame_time_def)
  have cf: "count (frame_map ?r' f) = count (frame_map r f) + 1"
    and itf: "it (frame_map ?r' f) = CacheNode (?t, f)"
    and misc: "replacer_k ?r' = replacer_k r" "replacer_size ?r' = replacer_size r"
       "length (frame_time ?r') = length (frame_time r)" "current_timestamp ?r' = current_timestamp r + 1"
       "in_frame_time ?r' f"
    using inr by (simp_all add: cache_insert_fields bump_fields in_frame_time_def)
  have 1: "length (frame_time ?r') = replacer_size ?r' + 1"
    using inv by (simp add: misc replacer_inv_def)
  have 2: "distinct (map snd (hist_list ?r' @ cache_list ?r'))"
    using d dj nc by (auto simp: H C tr distinct_snd_remove1)
  have 3: "\<forall>e'\<in>set (hist_list ?r').
        in_frame_time ?r' (snd e') \<and> it (frame_map ?r' (snd e')) = HistNode e' \<and>
        0 < count (frame_map ?r' (snd e')) \<and>
        (count (frame_map ?r' (snd e')) < replacer_k ?r' \<or> count (frame_map ?r' (snd e')) = 1)"
  proof
    fix e' assume a: "e' \<in> set (hist_list ?r')"
    then have "snd e' \<noteq> f" "e' \<in> set (hist_list r)"
      using in_remove1_snd_neq[OF d(1) e(1)] e(2) in_remove1D by (auto simp: H)
    then show "in_frame_time ?r' (snd e') \<and> it (frame_map ?r' (snd e')) = HistNode e' \<and>
        0 < count (frame_map ?r' (snd e')) \<and>
        (count (frame_map ?r' (snd e')) < replacer_k ?r' \<or> count (frame_map ?r' (snd e')) = 1)"
      using inv by (simp add: other misc(1) replacer_inv_def)
  qed
  have 4: "\<forall>e'\<in>set (cache_list ?r').
        in_frame_time ?r' (snd e') \<and> it (frame_map ?r' (snd e')) = CacheNode e' \<and>
        replacer_k ?r' \<le> count (frame_map ?r' (snd e')) \<and> 2 \<le> count (frame_map ?r' (snd e'))"
  proof
    fix e' assume a: "e' \<in> set (cache_list ?r')"
    then consider "e' = (?t, f)" | "e' \<in> set (cache_list r)" by (auto simp: C)
    then show "in_frame_time ?r' (snd e') \<and> it (frame_map ?r' (snd e')) = CacheNode e' \<and>
        replacer_k ?r' \<le> count (frame_map ?r' (snd e')) \<and> 2 \<le> count (frame_map ?r' (snd e'))"
    proof cases
      case 1
      then show ?thesis using c k by (simp add: cf itf misc)
    next
      case 2
      then have "snd e' \<noteq> f" using nc by auto
      then show ?thesis using inv 2 by (simp add: other misc(1) replacer_inv_def)
    qed
  qed
  have 5: "\<forall>g. 0 < count (frame_map ?r' g) \<longrightarrow> g \<in> tracked ?r'"
  proof (intro allI impI)
    fix g assume a: "0 < count (frame_map ?r' g)"
    show "g \<in> tracked ?r'"
    proof (cases "g = f")
      case True
      then show ?thesis by (simp add: tracked_def C)
    next
      case False
      then have "g \<in> tracked r" using a inv by (simp add: other replacer_inv_def)
      then show ?thesis using False by (auto simp: tracked_def H C tr image_Un)
    qed
  qed
  have 6: "\<forall>g. count (frame_map ?r' g) \<le> current_timestamp ?r'"
  proof
    fix g
    have "count (frame_map r g) \<le> current_timestamp r" using inv by (simp add: replacer_inv_def)
    then show "count (frame_map ?r' g) \<le> current_timestamp ?r'"
      by (cases "g = f") (simp_all add: other cf misc)
  qed
  show ?thesis unfolding replacer_inv_def using 1 2 3 4 5 6 by blast
qed


lemma RecordAccess_inv_in_cache:
  assumes inv: "replacer_inv r" and c: "count (frame_map r f) \<noteq> 0"
    and k: "count (frame_map r f) + 1 \<ge> replacer_k r" and inr: "in_frame_time r f"
    and e: "e \<in> set (cache_list r)" "snd e = f"
  shows "replacer_inv (cache_insert ((bump r f)\<lparr>cache_list := remove1 e (cache_list r)\<rparr>) f)"
    (is "replacer_inv ?r'")
proof -
  let ?t = "hd (frame_time ((bump r f)\<lparr>cache_list := remove1 e (cache_list r)\<rparr>) ! nat f)"
  have d: "distinct (map snd (hist_list r))" "distinct (map snd (cache_list r))"
    and dj: "snd ` set (hist_list r) \<inter> snd ` set (cache_list r) = {}"
    using inv by (auto simp: replacer_inv_def)
  have H: "hist_list ?r' = hist_list r"
    and C: "cache_list ?r' = upper_bound_insert (?t, f) (remove1 e (cache_list r))"
    by (simp_all add: cache_insert_fields bump_fields)
  have nh: "f \<notin> snd ` set (hist_list r)" using dj e by auto
  have tr: "snd ` set (remove1 e (cache_list r)) = snd ` set (cache_list r) - {f}"
    using snd_set_remove1[OF d(2) e(1)] e(2) by simp
  have other: "frame_map ?r' g = frame_map r g" "in_frame_time ?r' g = in_frame_time r g" if "g \<noteq> f" for g
    using that by (simp_all add: cache_insert_fields bump_fields in_frame_time_def)
  have cf: "count (frame_map ?r' f) = count (frame_map r f) + 1"
    and itf: "it (frame_map ?r' f) = CacheNode (?t, f)"
    and misc: "replacer_k ?r' = replacer_k r" "replacer_size ?r' = replacer_size r"
       "length (frame_time ?r') = length (frame_time r)" "current_timestamp ?r' = current_timestamp r + 1"
       "in_frame_time ?r' f"
    using inr by (simp_all add: cache_insert_fields bump_fields in_frame_time_def)
  have 1: "length (frame_time ?r') = replacer_size ?r' + 1"
    using inv by (simp add: misc replacer_inv_def)
  have 2: "distinct (map snd (hist_list ?r' @ cache_list ?r'))"
    using d dj nh by (auto simp: H C tr distinct_snd_remove1)
  have 3: "\<forall>e'\<in>set (hist_list ?r').
        in_frame_time ?r' (snd e') \<and> it (frame_map ?r' (snd e')) = HistNode e' \<and>
        0 < count (frame_map ?r' (snd e')) \<and>
        (count (frame_map ?r' (snd e')) < replacer_k ?r' \<or> count (frame_map ?r' (snd e')) = 1)"
  proof
    fix e' assume a: "e' \<in> set (hist_list ?r')"
    then have "snd e' \<noteq> f" "e' \<in> set (hist_list r)" using nh by (auto simp: H)
    then show "in_frame_time ?r' (snd e') \<and> it (frame_map ?r' (snd e')) = HistNode e' \<and>
        0 < count (frame_map ?r' (snd e')) \<and>
        (count (frame_map ?r' (snd e')) < replacer_k ?r' \<or> count (frame_map ?r' (snd e')) = 1)"
      using inv by (simp add: other misc(1) replacer_inv_def)
  qed
  have 4: "\<forall>e'\<in>set (cache_list ?r').
        in_frame_time ?r' (snd e') \<and> it (frame_map ?r' (snd e')) = CacheNode e' \<and>
        replacer_k ?r' \<le> count (frame_map ?r' (snd e')) \<and> 2 \<le> count (frame_map ?r' (snd e'))"
  proof
    fix e' assume a: "e' \<in> set (cache_list ?r')"
    then consider "e' = (?t, f)" | "e' \<in> set (remove1 e (cache_list r))" by (auto simp: C)
    then show "in_frame_time ?r' (snd e') \<and> it (frame_map ?r' (snd e')) = CacheNode e' \<and>
        replacer_k ?r' \<le> count (frame_map ?r' (snd e')) \<and> 2 \<le> count (frame_map ?r' (snd e'))"
    proof cases
      case 1
      then show ?thesis using c k by (simp add: cf itf misc)
    next
      case 2
      then have "snd e' \<noteq> f" "e' \<in> set (cache_list r)"
        using in_remove1_snd_neq[OF d(2) e(1)] e(2) in_remove1D by auto
      then show ?thesis using inv by (simp add: other misc(1) replacer_inv_def)
    qed
  qed
  have 5: "\<forall>g. 0 < count (frame_map ?r' g) \<longrightarrow> g \<in> tracked ?r'"
  proof (intro allI impI)
    fix g assume a: "0 < count (frame_map ?r' g)"
    show "g \<in> tracked ?r'"
    proof (cases "g = f")
      case True
      then show ?thesis by (simp add: tracked_def C)
    next
      case False
      then have "g \<in> tracked r" using a inv by (simp add: other replacer_inv_def)
      then show ?thesis using False by (auto simp: tracked_def H C tr image_Un)
    qed
  qed
  have 6: "\<forall>g. count (frame_map ?r' g) \<le> current_timestamp ?r'"
  proof
    fix g
    have "count (frame_map r g) \<le> current_timestamp r" using inv by (simp add: replacer_inv_def)
    then show "count (frame_map ?r' g) \<le> current_timestamp ?r'"
      by (cases "g = f") (simp_all add: other cf misc)
  qed
  show ?thesis unfolding replacer_inv_def using 1 2 3 4 5 6 by blast
qed

lemma RecordAccess_inv:
  assumes inv: "replacer_inv r" and ts: "current_timestamp r < 2 ^ 64 - 1"
    and ra: "RecordAccess r f = Returns x r'"
  shows "replacer_inv r'"
proof (cases "count (frame_map r f) = 0")
  case True
  then show ?thesis using RecordAccess_inv_first[OF inv _ ra ts] by simp
next
  case False
  have nw: "count (frame_map r f) < 2 ^ 64 - 1"
    using inv ts by (auto simp: replacer_inv_def intro: le_less_trans)
  from RecordAccess_later[OF False nw ts ra] have inr: "in_frame_time r f" by simp
  from RecordAccess_later[OF False nw ts ra] consider
      e where "count (frame_map r f) + 1 = replacer_k r" "it (frame_map r f) = HistNode e"
        "e \<in> set (hist_list r)" "r' = cache_insert ((bump r f)\<lparr>hist_list := remove1 e (hist_list r)\<rparr>) f"
    | e where "count (frame_map r f) + 1 > replacer_k r" "it (frame_map r f) = CacheNode e"
        "e \<in> set (cache_list r)" "r' = cache_insert ((bump r f)\<lparr>cache_list := remove1 e (cache_list r)\<rparr>) f"
    | "count (frame_map r f) + 1 < replacer_k r" "r' = bump r f"
    by blast
  then show ?thesis
  proof cases
    case 1
    have "snd e = f" using inv_hist_node[OF inv 1(2,3)] False by simp
    then show ?thesis using RecordAccess_inv_to_cache[OF inv False _ inr 1(3)] 1(1,4) by simp
  next
    case 2
    have "snd e = f" using inv_cache_node[OF inv 2(2,3)] False by simp
    then show ?thesis using RecordAccess_inv_in_cache[OF inv False _ inr 2(3)] 2(1,4) by simp
  next
    case 3
    then show ?thesis using RecordAccess_inv_stay[OF inv False _ inr] by simp
  qed
qed


lemma rev_remove1_rev: "distinct xs \<Longrightarrow> rev (remove1 e (rev xs)) = remove1 e xs"
  by (simp add: distinct_remove1_removeAll removeAll_filter_not_eq rev_filter)

lemma replacer_inv_drop:
  assumes inv: "replacer_inv r"
    and lists: "(hist_list r' = remove1 e (hist_list r) \<and> cache_list r' = cache_list r \<and> e \<in> set (hist_list r)) \<or>
                (hist_list r' = hist_list r \<and> cache_list r' = remove1 e (cache_list r) \<and> e \<in> set (cache_list r))"
    and se: "snd e = f"
    and misc: "length (frame_time r') = length (frame_time r)" "replacer_size r' = replacer_size r"
      "replacer_k r' = replacer_k r" "current_timestamp r' = current_timestamp r"
    and cf: "count (frame_map r' f) = 0"
    and other: "\<And>g. g \<noteq> f \<Longrightarrow> frame_map r' g = frame_map r g"
  shows "replacer_inv r'"
proof -
  have d: "distinct (map snd (hist_list r))" "distinct (map snd (cache_list r))"
    and dj: "snd ` set (hist_list r) \<inter> snd ` set (cache_list r) = {}"
    using inv by (auto simp: replacer_inv_def)
  have ift: "in_frame_time r' g = in_frame_time r g" for g by (simp add: in_frame_time_def misc)
  have tr: "tracked r' = tracked r - {f}"
    using lists
  proof
    assume a: "hist_list r' = remove1 e (hist_list r) \<and> cache_list r' = cache_list r \<and> e \<in> set (hist_list r)"
    then have "f \<notin> snd ` set (cache_list r)" using dj se by auto
    then show ?thesis using a snd_set_remove1[OF d(1), of e] se by (auto simp: tracked_def image_Un)
  next
    assume a: "hist_list r' = hist_list r \<and> cache_list r' = remove1 e (cache_list r) \<and> e \<in> set (cache_list r)"
    then have "f \<notin> snd ` set (hist_list r)" using dj se by auto
    then show ?thesis using a snd_set_remove1[OF d(2), of e] se by (auto simp: tracked_def image_Un)
  qed
  have subh: "set (hist_list r') \<subseteq> set (hist_list r)" and subc: "set (cache_list r') \<subseteq> set (cache_list r)"
    using lists set_remove1_subset by fastforce+
  have 1: "length (frame_time r') = replacer_size r' + 1"
    using inv by (simp add: misc replacer_inv_def)
  have 2: "distinct (map snd (hist_list r' @ cache_list r'))"
  proof -
    have "distinct (map snd (hist_list r'))" "distinct (map snd (cache_list r'))"
      using lists d by (auto simp: distinct_snd_remove1)
    moreover have "snd ` set (hist_list r') \<inter> snd ` set (cache_list r') = {}"
      using dj subh subc by blast
    ultimately show ?thesis by simp
  qed
  have nf: "snd e' \<noteq> f" if "e' \<in> set (hist_list r') \<or> e' \<in> set (cache_list r')" for e'
  proof -
    have "snd e' \<in> tracked r'" using that by (auto simp: tracked_def)
    then show ?thesis using tr by auto
  qed
  have 3: "\<forall>e'\<in>set (hist_list r').
        in_frame_time r' (snd e') \<and> it (frame_map r' (snd e')) = HistNode e' \<and>
        0 < count (frame_map r' (snd e')) \<and>
        (count (frame_map r' (snd e')) < replacer_k r' \<or> count (frame_map r' (snd e')) = 1)"
  proof
    fix e' assume a: "e' \<in> set (hist_list r')"
    then have "snd e' \<noteq> f" "e' \<in> set (hist_list r)" using nf subh by auto
    then show "in_frame_time r' (snd e') \<and> it (frame_map r' (snd e')) = HistNode e' \<and>
        0 < count (frame_map r' (snd e')) \<and>
        (count (frame_map r' (snd e')) < replacer_k r' \<or> count (frame_map r' (snd e')) = 1)"
      using inv by (simp add: other misc ift replacer_inv_def)
  qed
  have 4: "\<forall>e'\<in>set (cache_list r').
        in_frame_time r' (snd e') \<and> it (frame_map r' (snd e')) = CacheNode e' \<and>
        replacer_k r' \<le> count (frame_map r' (snd e')) \<and> 2 \<le> count (frame_map r' (snd e'))"
  proof
    fix e' assume a: "e' \<in> set (cache_list r')"
    then have "snd e' \<noteq> f" "e' \<in> set (cache_list r)" using nf subc by auto
    then show "in_frame_time r' (snd e') \<and> it (frame_map r' (snd e')) = CacheNode e' \<and>
        replacer_k r' \<le> count (frame_map r' (snd e')) \<and> 2 \<le> count (frame_map r' (snd e'))"
      using inv by (simp add: other misc ift replacer_inv_def)
  qed
  have 5: "\<forall>g. 0 < count (frame_map r' g) \<longrightarrow> g \<in> tracked r'"
  proof (intro allI impI)
    fix g assume a: "0 < count (frame_map r' g)"
    then have "g \<noteq> f" using cf by auto
    then show "g \<in> tracked r'" using a inv by (simp add: tr other replacer_inv_def)
  qed
  have 6: "\<forall>g. count (frame_map r' g) \<le> current_timestamp r'"
  proof
    fix g
    have "count (frame_map r g) \<le> current_timestamp r" using inv by (simp add: replacer_inv_def)
    then show "count (frame_map r' g) \<le> current_timestamp r'"
      by (cases "g = f") (simp_all add: other cf misc)
  qed
  show ?thesis unfolding replacer_inv_def using 1 2 3 4 5 6 by blast
qed

lemma first_evictable_Some:
  "first_evictable fm xs = Some e \<Longrightarrow> e \<in> set xs \<and> evictable (fm (snd e))"
  by (auto simp: first_evictable_def find_Some_iff)

lemma Evict_cases:
  assumes "Evict r = Returns v r'"
  shows "(v = None \<and> r' = r \<and> first_evictable (frame_map r) (rev (hist_list r)) = None
            \<and> first_evictable (frame_map r) (cache_list r) = None) \<or>
         (\<exists>e. v = Some (snd e) \<and> first_evictable (frame_map r) (rev (hist_list r)) = Some e \<and>
              in_frame_time r (snd e) \<and>
              r' = (evict_frame r (snd e))\<lparr>hist_list := rev (remove1 e (rev (hist_list r)))\<rparr>) \<or>
         (\<exists>e. v = Some (snd e) \<and> first_evictable (frame_map r) (rev (hist_list r)) = None \<and>
              first_evictable (frame_map r) (cache_list r) = Some e \<and> in_frame_time r (snd e) \<and>
              r' = (evict_frame r (snd e))\<lparr>cache_list := remove1 e (cache_list r)\<rparr>)"
  using assms by (auto simp: Evict_def split: option.splits if_splits)

lemma Evict_inv:
  assumes inv: "replacer_inv r" and ev: "Evict r = Returns v r'"
  shows "replacer_inv r'"
proof -
  have d: "distinct (hist_list r)"
    using inv by (auto simp: replacer_inv_def dest: distinct_map[THEN iffD1])
  from Evict_cases[OF ev] consider "r' = r"
    | e where "first_evictable (frame_map r) (rev (hist_list r)) = Some e"
        "r' = (evict_frame r (snd e))\<lparr>hist_list := rev (remove1 e (rev (hist_list r)))\<rparr>"
    | e where "first_evictable (frame_map r) (cache_list r) = Some e"
        "r' = (evict_frame r (snd e))\<lparr>cache_list := remove1 e (cache_list r)\<rparr>"
    by blast
  then show ?thesis
  proof cases
    case 1 then show ?thesis using inv by simp
  next
    case 2
    have e: "e \<in> set (hist_list r)" using first_evictable_Some[OF 2(1)] by simp
    show ?thesis
      by (rule replacer_inv_drop[OF inv _ refl, of _ e])
         (simp_all add: 2(2) evict_frame_def rev_remove1_rev[OF d] e)
  next
    case 3
    have e: "e \<in> set (cache_list r)" using first_evictable_Some[OF 3(1)] by simp
    show ?thesis
      by (rule replacer_inv_drop[OF inv _ refl, of _ e])
         (simp_all add: 3(2) evict_frame_def e)
  qed
qed

lemma Remove_cases:
  assumes "Remove r f = Returns x r'"
  shows "(count (frame_map r f) = 0 \<and> r' = r) \<or>
         (count (frame_map r f) \<noteq> 0 \<and> evictable (frame_map r f) \<and> in_frame_time r f \<and>
            (\<exists>e. ((count (frame_map r f) < replacer_k r \<and> it (frame_map r f) = HistNode e \<and> e \<in> set (hist_list r) \<and>
                   hist_list r' = remove1 e (hist_list r) \<and> cache_list r' = cache_list r) \<or>
                  (count (frame_map r f) \<ge> replacer_k r \<and> it (frame_map r f) = CacheNode e \<and> e \<in> set (cache_list r) \<and>
                   hist_list r' = hist_list r \<and> cache_list r' = remove1 e (cache_list r)))) \<and>
            frame_time r' = (frame_time r)[nat f := []] \<and>
            frame_map r' = (frame_map r)(f := (frame_map r f)\<lparr>count := 0\<rparr>) \<and>
            curr_size r' = dec64 (curr_size r) \<and> replacer_size r' = replacer_size r \<and>
            replacer_k r' = replacer_k r \<and> current_timestamp r' = current_timestamp r)"
  using assms
  by (auto simp: Remove_def remove_frame_def Let_def in_frame_time_def split: if_splits list_iter.splits)

lemma Remove_inv:
  assumes inv: "replacer_inv r" and rm: "Remove r f = Returns x r'"
  shows "replacer_inv r'"
proof (cases "count (frame_map r f) = 0")
  case True
  then show ?thesis using Remove_cases[OF rm] inv by auto
next
  case False
  with Remove_cases[OF rm] obtain e where
    e: "(it (frame_map r f) = HistNode e \<and> e \<in> set (hist_list r) \<and>
                   hist_list r' = remove1 e (hist_list r) \<and> cache_list r' = cache_list r) \<or>
        (it (frame_map r f) = CacheNode e \<and> e \<in> set (cache_list r) \<and>
                   hist_list r' = hist_list r \<and> cache_list r' = remove1 e (cache_list r))"
    and rest: "frame_time r' = (frame_time r)[nat f := []]"
       "frame_map r' = (frame_map r)(f := (frame_map r f)\<lparr>count := 0\<rparr>)"
       "replacer_size r' = replacer_size r" "replacer_k r' = replacer_k r"
       "current_timestamp r' = current_timestamp r"
    by auto
  have se: "snd e = f"
    using e inv_hist_node[OF inv, of f e] inv_cache_node[OF inv, of f e] False by auto
  show ?thesis
    by (rule replacer_inv_drop[OF inv _ se]) (use e in \<open>auto simp: rest\<close>)
qed

lemma static_cast_int_small: "n < 2 ^ 31 \<Longrightarrow> static_cast_int n = int n"
  unfolding static_cast_int_def
  by (simp add: signed_of_nat signed_take_bit_int_eq_self)

lemma tracked_node:
  assumes inv: "replacer_inv r" and c: "count (frame_map r f) \<noteq> 0"
  shows "(\<exists>e. e \<in> set (hist_list r) \<and> snd e = f \<and> it (frame_map r f) = HistNode e \<and>
              (count (frame_map r f) < replacer_k r \<or> count (frame_map r f) = 1)) \<or>
         (\<exists>e. e \<in> set (cache_list r) \<and> snd e = f \<and> it (frame_map r f) = CacheNode e \<and>
              replacer_k r \<le> count (frame_map r f))"
proof -
  have "f \<in> tracked r" using inv c by (simp add: replacer_inv_def)
  then obtain e where e: "e \<in> set (hist_list r) \<or> e \<in> set (cache_list r)" "snd e = f"
    by (auto simp: tracked_def)
  then show ?thesis using inv unfolding replacer_inv_def by blast
qed

lemma tracked_in_frame_time:
  assumes inv: "replacer_inv r" and c: "count (frame_map r f) \<noteq> 0"
  shows "in_frame_time r f"
proof -
  have "f \<in> tracked r" using inv c by (simp add: replacer_inv_def)
  then obtain e where e: "e \<in> set (hist_list r) \<or> e \<in> set (cache_list r)" "snd e = f"
    by (auto simp: tracked_def)
  then show ?thesis using inv unfolding replacer_inv_def by blast
qed

lemma RecordAccess_returns:
  assumes inv: "replacer_inv r" and K: "2 \<le> replacer_k r"
    and ts: "current_timestamp r < 2 ^ 64 - 1"
    and le: "\<not> f > static_cast_int (replacer_size r)" and inr: "in_frame_time r f"
  shows "\<exists>r'. RecordAccess r f = Returns () r'"
proof (cases "count (frame_map r f) = 0")
  case True
  then show ?thesis using le inr by (simp add: RecordAccess_def Let_def inc64_def)
next
  case False
  have nw: "count (frame_map r f) < 2 ^ 64 - 1"
    using inv ts by (auto simp: replacer_inv_def intro: le_less_trans)
  from tracked_node[OF inv False] consider
      e where "e \<in> set (hist_list r)" "it (frame_map r f) = HistNode e"
        "count (frame_map r f) < replacer_k r \<or> count (frame_map r f) = 1"
    | e where "e \<in> set (cache_list r)" "it (frame_map r f) = CacheNode e"
        "replacer_k r \<le> count (frame_map r f)"
    by blast
  then show ?thesis
  proof cases
    case 1
    then have "count (frame_map r f) < replacer_k r" using K by auto
    then show ?thesis using le inr 1(1,2) False
      by (simp add: RecordAccess_def Let_def inc64_eq[OF nw] inc64_eq[OF ts])
  next
    case 2
    then show ?thesis using le inr False
      by (simp add: RecordAccess_def Let_def inc64_eq[OF nw] inc64_eq[OF ts])
  qed
qed

lemma RecordAccess_Throws:
  "RecordAccess r f = Throws e r' \<longleftrightarrow> e = InvalidArgument \<and> r' = r \<and> f > static_cast_int (replacer_size r)"
  by (auto simp: RecordAccess_def Let_def split: if_splits list_iter.splits)

lemma RecordAccess_effect:
  "RecordAccess r f = Returns x r' \<Longrightarrow>
     count (frame_map r' f) = inc64 (count (frame_map r f)) \<and>
     current_timestamp r' = inc64 (current_timestamp r) \<and>
     evictable (frame_map r' f) = evictable (frame_map r f) \<and>
     replacer_size r' = replacer_size r \<and> replacer_k r' = replacer_k r \<and>
     \<not> f > static_cast_int (replacer_size r) \<and> in_frame_time r f"
  by (auto simp: RecordAccess_def Let_def cache_insert_def split: if_splits list_iter.splits)


section \<open>The evictable count\<close>

lemma length_filter_remove1:
  "x \<in> set xs \<Longrightarrow> length (filter P (remove1 x xs)) + (if P x then 1 else 0) = length (filter P xs)"
  by (induction xs) auto

lemma length_filter_upper_bound_insert:
  "length (filter Q (upper_bound_insert e xs)) = (if Q e then 1 else 0) + length (filter Q xs)"
proof -
  let ?ys = "takeWhile (\<lambda>x. \<not> k_time_less e x) xs" and ?zs = "dropWhile (\<lambda>x. \<not> k_time_less e x) xs"
  have "length (filter Q (?ys @ ?zs)) = length (filter Q xs)" by simp
  then show ?thesis unfolding upper_bound_insert_def by (simp del: takeWhile_dropWhile_id)
qed

lemma length_filter_flip:
  "distinct (map snd xs) \<Longrightarrow> f \<in> snd ` set xs \<Longrightarrow>
     length (filter (\<lambda>e. if snd e = f then b else P (snd e)) xs) + (if P f then 1 else 0)
       = length (filter (\<lambda>e. P (snd e)) xs) + (if b then 1 else 0)"
proof (induction xs)
  case Nil then show ?case by simp
next
  case (Cons a xs)
  show ?case
  proof (cases "snd a = f")
    case True
    then have "f \<notin> snd ` set xs" using Cons.prems by simp
    then have "filter (\<lambda>e. if snd e = f then b else P (snd e)) xs = filter (\<lambda>e. P (snd e)) xs"
      by (intro filter_cong) auto
    then show ?thesis using True by simp
  next
    case False
    then show ?thesis using Cons by auto
  qed
qed

lemma tracked_frames_bound:
  assumes inv: "replacer_inv r"
  shows "length (hist_list r @ cache_list r) \<le> replacer_size r + 1"
proof -
  let ?fs = "map snd (hist_list r @ cache_list r)"
  have d: "distinct ?fs" using inv by (simp add: replacer_inv_def)
  have "set ?fs \<subseteq> {0..int (replacer_size r)}"
    using inv by (auto simp: replacer_inv_def in_frame_time_def)
  then have "card (set ?fs) \<le> card {0..int (replacer_size r)}" by (intro card_mono) auto
  then show ?thesis using distinct_card[OF d] by simp
qed

lemma evictable_count_bound:
  "replacer_inv r \<Longrightarrow> evictable_count r \<le> replacer_size r + 1"
  using tracked_frames_bound[of r] length_filter_le[of "\<lambda>e. evictable (frame_map r (snd e))" "hist_list r @ cache_list r"]
  by (simp add: evictable_count_def)


lemma RecordAccess_flags:
  "RecordAccess r f = Returns x r' \<Longrightarrow>
     (\<forall>g. evictable (frame_map r' g) = evictable (frame_map r g)) \<and>
     (\<forall>g. g \<noteq> f \<longrightarrow> frame_map r' g = frame_map r g) \<and>
     curr_size r' = (if inc64 (count (frame_map r f)) = 1 then inc64 (curr_size r) else curr_size r)"
  by (auto simp: RecordAccess_def Let_def cache_insert_def split: if_splits list_iter.splits)

lemma evictable_count_cong:
  assumes "\<forall>g. evictable (frame_map r' g) = evictable (frame_map r g)"
  shows "evictable_count r' =
     length (filter (\<lambda>e. evictable (frame_map r (snd e))) (hist_list r' @ cache_list r'))"
  using assms by (simp add: evictable_count_def)

lemma RecordAccess_evictable_count:
  assumes inv: "replacer_inv r" and ts: "current_timestamp r < 2 ^ 64 - 1"
    and ra: "RecordAccess r f = Returns x r'"
  shows "evictable_count r' =
     (if count (frame_map r f) = 0 \<and> evictable (frame_map r f) then evictable_count r + 1
      else evictable_count r)"
proof -
  let ?P = "\<lambda>e. evictable (frame_map r (snd e))"
  note ec = evictable_count_cong[OF RecordAccess_flags[OF ra, THEN conjunct1]]
  have d: "distinct (map snd (hist_list r))" "distinct (map snd (cache_list r))"
    using inv by (auto simp: replacer_inv_def)
  show ?thesis
  proof (cases "count (frame_map r f) = 0")
    case True
    have "hist_list r' = (inc64 (current_timestamp r), f) # hist_list r" "cache_list r' = cache_list r"
      using RecordAccess_first[OF True ra] by simp_all
    then show ?thesis using True unfolding ec by (simp add: evictable_count_def)
  next
    case False
    have nw: "count (frame_map r f) < 2 ^ 64 - 1"
      using inv ts by (auto simp: replacer_inv_def intro: le_less_trans)
    from RecordAccess_later[OF False nw ts ra] consider
      e where "it (frame_map r f) = HistNode e"
        "e \<in> set (hist_list r)" "r' = cache_insert ((bump r f)\<lparr>hist_list := remove1 e (hist_list r)\<rparr>) f"
    | e where "it (frame_map r f) = CacheNode e"
        "e \<in> set (cache_list r)" "r' = cache_insert ((bump r f)\<lparr>cache_list := remove1 e (cache_list r)\<rparr>) f"
    | "r' = bump r f"
    by blast
    then show ?thesis
    proof cases
      case 1
      have se: "snd e = f" using inv_hist_node[OF inv 1(1,2)] False by simp
      show ?thesis using False length_filter_remove1[OF 1(2), of ?P] se
        by (simp add: ec 1(3) cache_insert_fields bump_fields length_filter_upper_bound_insert evictable_count_def)
    next
      case 2
      have se: "snd e = f" using inv_cache_node[OF inv 2(1,2)] False by simp
      show ?thesis using False length_filter_remove1[OF 2(2), of ?P] se
        by (simp add: ec 2(3) cache_insert_fields bump_fields length_filter_upper_bound_insert evictable_count_def)
    next
      case 3
      then show ?thesis using False by (simp add: ec bump_fields evictable_count_def)
    qed
  qed
qed

lemma size_inv_RecordAccess:
  assumes si: "size_inv r" and ts: "current_timestamp r < 2 ^ 64 - 1"
    and ra: "RecordAccess r f = Returns x r'"
  shows "size_inv r' \<and> curr_size r' = (if count (frame_map r f) = 0 then curr_size r + 1 else curr_size r)"
proof -
  have inv: "replacer_inv r" using si by (simp add: size_inv_def)
  have inv': "replacer_inv r'" by (rule RecordAccess_inv[OF inv ts ra])
  note fl = RecordAccess_flags[OF ra] and ef = RecordAccess_effect[OF ra]
  have nw: "count (frame_map r f) < 2 ^ 64 - 1"
    using inv ts by (auto simp: replacer_inv_def intro: le_less_trans)
  have c': "count (frame_map r' f) = count (frame_map r f) + 1" using ef by (simp add: inc64_eq[OF nw])
  have def_ev: "\<forall>g. count (frame_map r' g) = 0 \<longrightarrow> evictable (frame_map r' g)"
  proof (intro allI impI)
    fix g assume "count (frame_map r' g) = 0"
    then have "g \<noteq> f" using c' by auto
    then show "evictable (frame_map r' g)" using fl si \<open>count (frame_map r' g) = 0\<close>
      by (simp add: size_inv_def)
  qed
  have ec: "evictable_count r' = (if count (frame_map r f) = 0 then evictable_count r + 1 else evictable_count r)"
    using RecordAccess_evictable_count[OF inv ts ra] si by (auto simp: size_inv_def)
  have bnd: "evictable_count r' < 2 ^ 64"
    using evictable_count_bound[OF inv'] si ef by (simp add: size_inv_def)
  have cs: "curr_size r' = (if count (frame_map r f) = 0 then curr_size r + 1 else curr_size r)"
  proof (cases "count (frame_map r f) = 0")
    case True
    then have "curr_size r + 1 < 2 ^ 64" using ec bnd si by (simp add: size_inv_def)
    then show ?thesis using fl True by (simp add: inc64_def)
  next
    case False
    then show ?thesis using fl by (simp add: inc64_eq[OF nw])
  qed
  show ?thesis using inv' def_ev ec cs si ef by (simp add: size_inv_def)
qed


lemma dec_mod: "0 < n \<Longrightarrow> n < M \<Longrightarrow> (n + (M - 1)) mod M = n - (1::nat)"
proof -
  assume a: "0 < n" "n < M"
  have "n + (M - 1) = (n - 1) + M" using a by arith
  then have "(n + (M - 1)) mod M = (n - 1) mod M" by (simp only: mod_add_self2)
  then show ?thesis using a by simp
qed

lemma dec64_eq: "0 < n \<Longrightarrow> n < 2 ^ 64 \<Longrightarrow> dec64 n = n - 1"
  unfolding dec64_def by (rule dec_mod) simp_all

lemma SetEvictable_explicit:
  "SetEvictable r f b = Returns x r' \<Longrightarrow>
     frame_map r' = (frame_map r)(f := (frame_map r f)\<lparr>evictable := b\<rparr>) \<and>
     curr_size r' = (if evictable (frame_map r f) \<and> \<not> b then dec64 (curr_size r)
                     else if \<not> evictable (frame_map r f) \<and> b then inc64 (curr_size r)
                     else curr_size r)"
  by (auto simp: SetEvictable_def Let_def split: if_splits)

lemma size_inv_SetEvictable:
  assumes si: "size_inv r" and tr: "count (frame_map r f) \<noteq> 0"
    and se: "SetEvictable r f b = Returns x r'"
  shows "size_inv r'"
proof -
  have inv: "replacer_inv r" using si by (simp add: size_inv_def)
  have inv': "replacer_inv r'" by (rule SetEvictable_inv[OF inv se])
  note fl = SetEvictable_fields[OF se] and ex = SetEvictable_explicit[OF se]
  have d: "distinct (map snd (hist_list r @ cache_list r))" using inv by (simp add: replacer_inv_def)
  have f: "f \<in> snd ` set (hist_list r @ cache_list r)" using inv tr by (simp add: replacer_inv_def tracked_def)
  have P': "(\<lambda>e. evictable (frame_map r' (snd e))) = (\<lambda>e. if snd e = f then b else evictable (frame_map r (snd e)))"
    by (auto simp: ex)
  have ec: "evictable_count r' + (if evictable (frame_map r f) then 1 else 0)
              = evictable_count r + (if b then 1 else 0)"
    using length_filter_flip[OF d f, of b "\<lambda>g. evictable (frame_map r g)"]
    unfolding evictable_count_def P' by (simp add: fl)
  have bnd: "evictable_count r' < 2 ^ 64" "evictable_count r < 2 ^ 64"
    using evictable_count_bound[OF inv'] evictable_count_bound[OF inv] si fl by (simp_all add: size_inv_def)
  have cs: "curr_size r = evictable_count r" using si by (simp add: size_inv_def)
  have "curr_size r' = evictable_count r'"
  proof (cases "evictable (frame_map r f)"; cases b)
    assume a: "evictable (frame_map r f)" "\<not> b"
    then have "0 < evictable_count r" "evictable_count r' = evictable_count r - 1" using ec by auto
    then show ?thesis using ex a cs bnd by (simp add: dec64_eq)
  next
    assume a: "\<not> evictable (frame_map r f)" "b"
    then have "evictable_count r' = evictable_count r + 1" using ec by auto
    then show ?thesis using ex a cs bnd by (simp add: inc64_def)
  qed (use ec ex cs in auto)
  moreover have "\<forall>g. count (frame_map r' g) = 0 \<longrightarrow> evictable (frame_map r' g)"
    using si tr by (auto simp: ex size_inv_def)
  ultimately show ?thesis using inv' si fl by (simp add: size_inv_def)
qed

lemma size_inv_drop:
  assumes si: "size_inv r" and inv': "replacer_inv r'"
    and lists: "(hist_list r' = remove1 e (hist_list r) \<and> cache_list r' = cache_list r \<and> e \<in> set (hist_list r)) \<or>
                (hist_list r' = hist_list r \<and> cache_list r' = remove1 e (cache_list r) \<and> e \<in> set (cache_list r))"
    and ev: "evictable (frame_map r (snd e))"
    and fm: "frame_map r' = (frame_map r)(snd e := (frame_map r (snd e))\<lparr>count := 0\<rparr>)"
    and cs': "curr_size r' = dec64 (curr_size r)" and sz: "replacer_size r' = replacer_size r"
  shows "size_inv r'"
proof -
  have inv: "replacer_inv r" using si by (simp add: size_inv_def)
  let ?P = "\<lambda>e. evictable (frame_map r (snd e))"
  have P': "(\<lambda>e. evictable (frame_map r' (snd e))) = ?P" by (auto simp: fm)
  have ec: "evictable_count r' + 1 = evictable_count r"
    using lists ev length_filter_remove1[of e "hist_list r" ?P] length_filter_remove1[of e "cache_list r" ?P]
    unfolding evictable_count_def P' by auto
  have bnd: "evictable_count r < 2 ^ 64"
    using evictable_count_bound[OF inv] si by (simp add: size_inv_def)
  have cs: "curr_size r = evictable_count r" using si by (simp add: size_inv_def)
  have "curr_size r' = evictable_count r'" using ec bnd cs cs' by (simp add: dec64_eq)
  moreover have "\<forall>g. count (frame_map r' g) = 0 \<longrightarrow> evictable (frame_map r' g)"
    using si ev by (auto simp: fm size_inv_def)
  ultimately show ?thesis using inv' si sz by (simp add: size_inv_def)
qed

lemma size_inv_Evict:
  assumes si: "size_inv r" and ev: "Evict r = Returns v r'"
  shows "size_inv r'"
proof -
  have inv: "replacer_inv r" using si by (simp add: size_inv_def)
  have inv': "replacer_inv r'" by (rule Evict_inv[OF inv ev])
  have d: "distinct (hist_list r)"
    using inv by (auto simp: replacer_inv_def dest: distinct_map[THEN iffD1])
  from Evict_cases[OF ev] consider "r' = r"
    | e where "first_evictable (frame_map r) (rev (hist_list r)) = Some e"
        "r' = (evict_frame r (snd e))\<lparr>hist_list := rev (remove1 e (rev (hist_list r)))\<rparr>"
    | e where "first_evictable (frame_map r) (cache_list r) = Some e"
        "r' = (evict_frame r (snd e))\<lparr>cache_list := remove1 e (cache_list r)\<rparr>"
    by blast
  then show ?thesis
  proof cases
    case 1 then show ?thesis using si by simp
  next
    case 2
    have e: "e \<in> set (hist_list r)" "evictable (frame_map r (snd e))"
      using first_evictable_Some[OF 2(1)] by simp_all
    show ?thesis
      by (rule size_inv_drop[OF si inv' _ e(2)])
         (simp_all add: 2(2) evict_frame_def rev_remove1_rev[OF d] e)
  next
    case 3
    have e: "e \<in> set (cache_list r)" "evictable (frame_map r (snd e))"
      using first_evictable_Some[OF 3(1)] by simp_all
    show ?thesis
      by (rule size_inv_drop[OF si inv' _ e(2)])
         (simp_all add: 3(2) evict_frame_def e)
  qed
qed

lemma size_inv_Remove:
  assumes si: "size_inv r" and rm: "Remove r f = Returns x r'"
  shows "size_inv r'"
proof (cases "count (frame_map r f) = 0")
  case True
  then show ?thesis using Remove_cases[OF rm] si by auto
next
  case False
  have inv: "replacer_inv r" using si by (simp add: size_inv_def)
  have inv': "replacer_inv r'" by (rule Remove_inv[OF inv rm])
  from False Remove_cases[OF rm] obtain e where
    e: "(it (frame_map r f) = HistNode e \<and> e \<in> set (hist_list r) \<and>
                   hist_list r' = remove1 e (hist_list r) \<and> cache_list r' = cache_list r) \<or>
        (it (frame_map r f) = CacheNode e \<and> e \<in> set (cache_list r) \<and>
                   hist_list r' = hist_list r \<and> cache_list r' = remove1 e (cache_list r))"
    and rest: "evictable (frame_map r f)"
       "frame_map r' = (frame_map r)(f := (frame_map r f)\<lparr>count := 0\<rparr>)"
       "curr_size r' = dec64 (curr_size r)" "replacer_size r' = replacer_size r"
    by auto
  have se: "snd e = f"
    using e inv_hist_node[OF inv, of f e] inv_cache_node[OF inv, of f e] False by auto
  show ?thesis
    by (rule size_inv_drop[OF si inv', of e]) (use e rest se in auto)
qed


lemma SetEvictable_Throws:
  "SetEvictable r f b = Throws e r' \<Longrightarrow> r' = r"
  by (auto simp: SetEvictable_def Let_def split: if_splits)

lemma Remove_Throws: "Remove r f = Throws e r' \<Longrightarrow> r' = r"
  by (auto simp: Remove_def remove_frame_def Let_def split: if_splits list_iter.splits)

lemma Evict_Throws: "Evict r \<noteq> Throws e r'"
  by (auto simp: Evict_def split: option.splits)

lemma state_after_Some:
  "state_after m = Some s \<longleftrightarrow> (\<exists>x. m = Returns x s) \<or> (\<exists>e. m = Throws e s)"
  by (cases m) (auto simp: state_after_def)

lemma SetEvictable_timestamp: "SetEvictable r f b = Returns x r' \<Longrightarrow> current_timestamp r' = current_timestamp r"
  by (auto simp: SetEvictable_def Let_def split: if_splits)

lemma Evict_timestamp: "Evict r = Returns v r' \<Longrightarrow> current_timestamp r' = current_timestamp r"
  by (auto simp: Evict_def evict_frame_def split: option.splits if_splits)

lemma Remove_timestamp: "Remove r f = Returns x r' \<Longrightarrow> current_timestamp r' = current_timestamp r"
  using Remove_cases[of r f x r'] by auto

lemma replacer_step_size_inv:
  assumes si: "size_inv r" and ts: "current_timestamp r < 2 ^ 64 - 1"
    and pr: "case op of OpSetEvictable f b \<Rightarrow> count (frame_map r f) \<noteq> 0 | _ \<Rightarrow> True"
    and st: "replacer_step op r = Some r'"
  shows "size_inv r' \<and> current_timestamp r' \<le> current_timestamp r + 1"
proof (cases op)
  case (OpRecordAccess f)
  then show ?thesis using st si size_inv_RecordAccess[OF si ts] RecordAccess_effect[of r f]
    by (auto simp: state_after_Some RecordAccess_Throws inc64_eq[OF ts])
next
  case (OpSetEvictable f b)
  then show ?thesis using st si pr size_inv_SetEvictable[OF si] SetEvictable_timestamp[of r f b]
    by (auto simp: state_after_Some dest: SetEvictable_Throws)
next
  case OpEvict
  then show ?thesis using st si size_inv_Evict[OF si] Evict_timestamp[of r]
    by (auto simp: state_after_Some Evict_Throws)
next
  case (OpRemove f)
  then show ?thesis using st si size_inv_Remove[OF si] Remove_timestamp[of r f]
    by (auto simp: state_after_Some dest: Remove_Throws)
qed

lemma replacer_run_size_inv:
  "size_inv r \<Longrightarrow> current_timestamp r + length ops \<le> 2 ^ 64 - 1 \<Longrightarrow> flags_tracked_only ops r \<Longrightarrow>
   replacer_run ops r = Some r' \<Longrightarrow>
   size_inv r' \<and> current_timestamp r' \<le> current_timestamp r + length ops"
proof (induction ops arbitrary: r)
  case Nil
  then show ?case by simp
next
  case (Cons op ops)
  from Cons.prems(4) obtain r1 where r1: "replacer_step op r = Some r1" "replacer_run ops r1 = Some r'"
    by (auto split: option.splits)
  have ts: "current_timestamp r < 2 ^ 64 - 1" using Cons.prems(2) by simp
  have pr: "case op of OpSetEvictable f b \<Rightarrow> count (frame_map r f) \<noteq> 0 | _ \<Rightarrow> True"
    and fl: "flags_tracked_only ops r1"
    using Cons.prems(3) r1(1) by simp_all
  note s1 = replacer_step_size_inv[OF Cons.prems(1) ts pr r1(1)]
  have "current_timestamp r1 + length ops \<le> 2 ^ 64 - 1" using s1 Cons.prems(2) by simp
  from Cons.IH[OF s1[THEN conjunct1] this fl r1(2)] show ?case using s1 by simp
qed

lemma size_inv_new: "n + 1 < 2 ^ 64 \<Longrightarrow> size_inv (LRUKReplacer_new True n k)"
  using replacer_inv_new[of True n k]
  by (simp add: size_inv_def evictable_count_def) (simp add: LRUKReplacer_new_def FrameInfo_default_def)


lemmas replacer_run_eval = replacer_example_ops_def state_after_def replacer_eval Size_def
  evictable_count_def


section \<open>The replacer agrees with its access log\<close>

lemma log_ok_push:
  assumes "log_ok ts g"
  shows "log_ok (ts + 1) (g(f := (ts + 1) # g f))"
proof -
  have a: "sorted_wrt (>) (g f')" "\<forall>t\<in>set (g f'). t \<le> ts" for f'
    using assms by (simp_all add: log_ok_def)
  have d: "set (g f1) \<inter> set (g f2) = {}" if "f1 \<noteq> f2" for f1 f2
    using assms that by (simp add: log_ok_def)
  have n: "ts + 1 \<notin> set (g f')" for f' using a(2)[of f'] by auto
  have 1: "sorted_wrt (>) ((g(f := (ts + 1) # g f)) f') \<and> (\<forall>t\<in>set ((g(f := (ts + 1) # g f)) f'). t \<le> ts + 1)" for f'
    using a[of f'] a[of f] by (force simp: less_Suc_eq_le intro: le_SucI)
  have 2: "set ((g(f := (ts + 1) # g f)) f1) \<inter> set ((g(f := (ts + 1) # g f)) f2) = {}" if "f1 \<noteq> f2" for f1 f2
    using d[OF that] d[of f f2] d[of f1 f] n[of f1] n[of f2] that by auto
  show ?thesis unfolding log_ok_def using 1 2 by blast
qed

lemma log_ok_clear:
  assumes "log_ok ts g"
  shows "log_ok ts (g(f := []))"
  using assms unfolding log_ok_def by auto

lemma sorted_wrt_remove1: "sorted_wrt P xs \<Longrightarrow> sorted_wrt P (remove1 x xs)"
  by (induction xs) (auto dest: in_remove1D)

lemma k_time_less_trans: "k_time_less a b \<Longrightarrow> k_time_less b c \<Longrightarrow> k_time_less a c"
  by (auto simp: k_time_less_def)

lemma k_time_less_asym: "k_time_less a b \<Longrightarrow> \<not> k_time_less b a"
  by (auto simp: k_time_less_def)

lemma sorted_upper_bound_insert:
  "sorted_wrt (\<lambda>a b. \<not> k_time_less b a) xs \<Longrightarrow>
     sorted_wrt (\<lambda>a b. \<not> k_time_less b a) (upper_bound_insert e xs)"
proof (induction xs)
  case Nil
  then show ?case by (simp add: upper_bound_insert_def)
next
  case (Cons x xs)
  have u: "upper_bound_insert e (x # xs) =
      (if \<not> k_time_less e x then x # upper_bound_insert e xs else e # x # xs)"
    by (simp add: upper_bound_insert_def)
  show ?case
  proof (cases "k_time_less e x")
    case True
    have "\<not> k_time_less y e" if "y \<in> set (x # xs)" for y
    proof (cases "y = x")
      case True
      then show ?thesis using \<open>k_time_less e x\<close> by (simp add: k_time_less_asym)
    next
      case False
      then have "\<not> k_time_less y x" using that Cons.prems by auto
      then show ?thesis using \<open>k_time_less e x\<close> k_time_less_trans by blast
    qed
    then show ?thesis using True Cons.prems by (simp add: u)
  next
    case False
    then show ?thesis using Cons by (auto simp: u)
  qed
qed

lemma first_evictable_split:
  "first_evictable fm xs = Some e \<Longrightarrow>
     \<exists>ys zs. xs = ys @ e # zs \<and> (\<forall>y\<in>set ys. \<not> evictable (fm (snd y))) \<and> evictable (fm (snd e))"
proof (induction xs)
  case Nil
  then show ?case by (simp add: first_evictable_def)
next
  case (Cons x xs)
  show ?case
  proof (cases "evictable (fm (snd x))")
    case True
    then have "e = x" using Cons.prems by (simp add: first_evictable_def)
    then show ?thesis using True by (intro exI[of _ "[]"] exI[of _ xs]) simp
  next
    case False
    then have "first_evictable fm xs = Some e" using Cons.prems by (simp add: first_evictable_def)
    from Cons.IH[OF this] obtain ys zs where
      "xs = ys @ e # zs" "\<forall>y\<in>set ys. \<not> evictable (fm (snd y))" "evictable (fm (snd e))" by blast
    then show ?thesis using False by (intro exI[of _ "x # ys"] exI[of _ zs]) simp
  qed
qed

lemma first_evictable_None:
  "first_evictable fm xs = None \<longleftrightarrow> (\<forall>e\<in>set xs. \<not> evictable (fm (snd e)))"
  by (auto simp: first_evictable_def find_None_iff)

lemma log_inv_new: "log_inv (LRUKReplacer_new d n k) (\<lambda>f. [])"
  unfolding log_inv_def using replacer_inv_new[of d n k]
  by (simp add: log_ok_def LRUKReplacer_new_def FrameInfo_default_def in_frame_time_def nth_Cons')

lemma log_invD:
  assumes "log_inv r g"
  shows "replacer_inv r" "log_ok (current_timestamp r) g"
    "\<And>f. length (g f) = count (frame_map r f)"
    "\<And>x. x \<in> set (hist_list r) \<Longrightarrow> fst x = last (g (snd x))"
    "sorted_wrt (\<lambda>a b. fst b < fst a) (hist_list r)"
    "\<And>x. x \<in> set (cache_list r) \<Longrightarrow> fst x = g (snd x) ! (replacer_k r - 1)"
    "sorted_wrt (\<lambda>a b. \<not> k_time_less b a) (cache_list r)"
    "cache_list r \<noteq> [] \<Longrightarrow> 2 \<le> replacer_k r"
    "\<And>f. in_frame_time r f \<Longrightarrow> frame_time r ! nat f =
          (if f \<in> snd ` set (cache_list r) then rev (take (replacer_k r - 1) (g f)) else rev (g f))"
  using assms by (simp_all add: log_inv_def)

lemma nat_eq_in_range: "0 \<le> (a::int) \<Longrightarrow> 0 \<le> b \<Longrightarrow> nat a = nat b \<longleftrightarrow> a = b"
  by auto

lemma log_inv_drop:
  assumes li: "log_inv r g" and inv': "replacer_inv r'"
    and lists: "(hist_list r' = remove1 e (hist_list r) \<and> cache_list r' = cache_list r \<and> e \<in> set (hist_list r)) \<or>
                (hist_list r' = hist_list r \<and> cache_list r' = remove1 e (cache_list r) \<and> e \<in> set (cache_list r))"
    and ft: "frame_time r' = (frame_time r)[nat (snd e) := []]"
    and misc: "replacer_k r' = replacer_k r" "current_timestamp r' = current_timestamp r"
    and cnt: "\<And>f. count (frame_map r' f) = (if f = snd e then 0 else count (frame_map r f))"
  shows "log_inv r' (g(snd e := []))"
proof -
  note d = log_invD[OF li]
  have dist: "distinct (map snd (hist_list r @ cache_list r))" using d(1) by (simp add: replacer_inv_def)
  then have dh: "distinct (map snd (hist_list r))" and dc: "distinct (map snd (cache_list r))"
    and hc: "\<And>x y. x \<in> set (hist_list r) \<Longrightarrow> y \<in> set (cache_list r) \<Longrightarrow> snd x \<noteq> snd y"
    by auto
  have e_in: "e \<in> set (hist_list r) \<or> e \<in> set (cache_list r)" using lists by auto
  have inr: "in_frame_time r (snd e)" using d(1) e_in by (auto simp: replacer_inv_def)
  have sub_h: "x \<in> set (hist_list r) \<and> snd x \<noteq> snd e" if "x \<in> set (hist_list r')" for x
    using lists
  proof
    assume a: "hist_list r' = remove1 e (hist_list r) \<and> cache_list r' = cache_list r \<and> e \<in> set (hist_list r)"
    then show ?thesis using that in_remove1_snd_neq[OF dh, of e x] in_remove1D[of x e "hist_list r"] by simp
  next
    assume a: "hist_list r' = hist_list r \<and> cache_list r' = remove1 e (cache_list r) \<and> e \<in> set (cache_list r)"
    then show ?thesis using that hc[of x e] by simp
  qed
  have sub_c: "x \<in> set (cache_list r) \<and> snd x \<noteq> snd e" if "x \<in> set (cache_list r')" for x
    using lists
  proof
    assume a: "hist_list r' = remove1 e (hist_list r) \<and> cache_list r' = cache_list r \<and> e \<in> set (hist_list r)"
    then show ?thesis using that hc[of e x] by simp
  next
    assume a: "hist_list r' = hist_list r \<and> cache_list r' = remove1 e (cache_list r) \<and> e \<in> set (cache_list r)"
    then show ?thesis using that in_remove1_snd_neq[OF dc, of e x] in_remove1D[of x e "cache_list r"] by simp
  qed
  have cache_mem: "f \<in> snd ` set (cache_list r') \<longleftrightarrow> f \<in> snd ` set (cache_list r) \<and> f \<noteq> snd e" for f
    using lists
  proof
    assume a: "hist_list r' = remove1 e (hist_list r) \<and> cache_list r' = cache_list r \<and> e \<in> set (hist_list r)"
    then have "snd e \<notin> snd ` set (cache_list r)" using hc[of e] by force
    then show ?thesis using a by (cases "f = snd e") simp_all
  next
    assume a: "hist_list r' = hist_list r \<and> cache_list r' = remove1 e (cache_list r) \<and> e \<in> set (cache_list r)"
    then show ?thesis using snd_set_remove1[OF dc, of e] by auto
  qed
  have 1: "log_ok (current_timestamp r') (g(snd e := []))" using d(2) misc by (simp add: log_ok_clear)
  have 2: "\<forall>f. length ((g(snd e := [])) f) = count (frame_map r' f)" using d(3) cnt by simp
  have 3: "\<forall>x\<in>set (hist_list r'). fst x = last ((g(snd e := [])) (snd x))"
    using sub_h d(4) by simp
  have 4: "sorted_wrt (\<lambda>a b. fst b < fst a) (hist_list r')"
    using lists d(5) by (auto simp: sorted_wrt_remove1)
  have 5: "\<forall>x\<in>set (cache_list r'). fst x = (g(snd e := [])) (snd x) ! (replacer_k r' - 1)"
    using sub_c d(6) misc by simp
  have 6: "sorted_wrt (\<lambda>a b. \<not> k_time_less b a) (cache_list r')"
    using lists d(7) by (auto simp: sorted_wrt_remove1)
  have 7: "cache_list r' \<noteq> [] \<longrightarrow> 2 \<le> replacer_k r'"
    using lists d(8) misc by (cases "cache_list r = []") auto
  have 8: "frame_time r' ! nat f =
          (if f \<in> snd ` set (cache_list r') then rev (take (replacer_k r' - 1) ((g(snd e := [])) f))
           else rev ((g(snd e := [])) f))" if "in_frame_time r' f" for f
  proof (cases "f = snd e")
    case True
    then show ?thesis using inr by (simp add: ft in_frame_time_def)
  next
    case False
    have inf: "in_frame_time r f" using that by (simp add: in_frame_time_def ft)
    then have "nat f \<noteq> nat (snd e)" using inr False by (simp add: in_frame_time_def nat_eq_in_range)
    then have "frame_time r' ! nat f = frame_time r ! nat f" by (simp add: ft)
    then show ?thesis using d(9)[OF inf] False cache_mem[of f] misc by simp
  qed
  show ?thesis unfolding log_inv_def using inv' 1 2 3 4 5 6 7 8 by blast
qed

lemma log_inv_Evict:
  assumes li: "log_inv r g" and ev: "Evict r = Returns v r'"
  shows "log_inv r' (case v of Some f \<Rightarrow> g(f := []) | None \<Rightarrow> g)"
proof -
  note d = log_invD[OF li]
  have inv': "replacer_inv r'" using Evict_inv[OF d(1) ev] .
  have dist: "distinct (map snd (hist_list r @ cache_list r))" using d(1) by (simp add: replacer_inv_def)
  then have dh: "distinct (hist_list r)" by (simp add: distinct_map)
  from Evict_cases[OF ev] consider
    (none) "v = None" "r' = r"
    | (hist) e where "v = Some (snd e)" "first_evictable (frame_map r) (rev (hist_list r)) = Some e"
        "r' = (evict_frame r (snd e))\<lparr>hist_list := rev (remove1 e (rev (hist_list r)))\<rparr>"
    | (cache) e where "v = Some (snd e)" "first_evictable (frame_map r) (cache_list r) = Some e"
        "r' = (evict_frame r (snd e))\<lparr>cache_list := remove1 e (cache_list r)\<rparr>"
    by blast
  then show ?thesis
  proof cases
    case none
    then show ?thesis using li by simp
  next
    case hist
    have e: "e \<in> set (hist_list r)" using first_evictable_Some[OF hist(2)] by simp
    have "log_inv r' (g(snd e := []))"
      by (rule log_inv_drop[OF li inv', of e])
         (use e dh in \<open>simp_all add: hist(3) evict_frame_def rev_remove1_rev\<close>)
    then show ?thesis by (simp add: hist(1))
  next
    case cache
    have e: "e \<in> set (cache_list r)" using first_evictable_Some[OF cache(2)] by simp
    have "log_inv r' (g(snd e := []))"
      by (rule log_inv_drop[OF li inv', of e])
         (use e in \<open>simp_all add: cache(3) evict_frame_def\<close>)
    then show ?thesis by (simp add: cache(1))
  qed
qed

lemma log_inv_Remove:
  assumes li: "log_inv r g" and rm: "Remove r f = Returns x r'"
  shows "log_inv r' (g(f := []))"
proof -
  note d = log_invD[OF li]
  have inv': "replacer_inv r'" using Remove_inv[OF d(1) rm] .
  show ?thesis
  proof (cases "count (frame_map r f) = 0")
    case True
    then have "r' = r" using Remove_cases[OF rm] by simp
    moreover have "g f = []" using d(3)[of f] True by simp
    then have "g(f := []) = g" by auto
    ultimately show ?thesis using li by simp
  next
    case False
    from Remove_cases[OF rm] False obtain e where
      drop: "(it (frame_map r f) = HistNode e \<and> e \<in> set (hist_list r) \<and>
                   hist_list r' = remove1 e (hist_list r) \<and> cache_list r' = cache_list r) \<or>
         (it (frame_map r f) = CacheNode e \<and> e \<in> set (cache_list r) \<and>
                   hist_list r' = hist_list r \<and> cache_list r' = remove1 e (cache_list r))"
        "frame_time r' = (frame_time r)[nat f := []]"
        "frame_map r' = (frame_map r)(f := (frame_map r f)\<lparr>count := 0\<rparr>)"
        "replacer_k r' = replacer_k r" "current_timestamp r' = current_timestamp r"
      by auto
    have se: "snd e = f"
      using False drop(1) inv_hist_node[OF d(1), of f e] inv_cache_node[OF d(1), of f e] by auto
    have "log_inv r' (g(snd e := []))"
      by (rule log_inv_drop[OF li inv', of e])
         (use drop se in \<open>auto\<close>)
    then show ?thesis by (simp add: se)
  qed
qed

lemma log_inv_SetEvictable:
  assumes li: "log_inv r g" and se: "SetEvictable r f b = Returns x r'"
  shows "log_inv r' g"
proof -
  note d = log_invD[OF li]
  have inv': "replacer_inv r'" using SetEvictable_inv[OF d(1) se] .
  note f = SetEvictable_fields[OF se]
  show ?thesis unfolding log_inv_def using inv' d f by simp
qed

lemma log_inv_access:
  fixes r r' :: LRUKReplacer and g :: "frame_id_t \<Rightarrow> nat list" and f :: frame_id_t
  defines "g' \<equiv> g(f := (current_timestamp r + 1) # g f)"
  assumes li: "log_inv r g" and inv': "replacer_inv r'" and inr: "in_frame_time r f"
    and ct: "current_timestamp r' = current_timestamp r + 1"
    and k': "replacer_k r' = replacer_k r"
    and cnt: "\<And>f'. count (frame_map r' f') = (if f' = f then count (frame_map r f) + 1 else count (frame_map r f'))"
    and h_mem: "\<And>x. x \<in> set (hist_list r') \<Longrightarrow>
        (x \<in> set (hist_list r) \<and> snd x \<noteq> f) \<or> (snd x = f \<and> fst x = last (g' f))"
    and h_sorted: "sorted_wrt (\<lambda>a b. fst b < fst a) (hist_list r')"
    and c_mem: "\<And>x. x \<in> set (cache_list r') \<Longrightarrow>
        (x \<in> set (cache_list r) \<and> snd x \<noteq> f) \<or> (snd x = f \<and> fst x = g' f ! (replacer_k r - 1))"
    and c_sorted: "sorted_wrt (\<lambda>a b. \<not> k_time_less b a) (cache_list r')"
    and c_ne: "cache_list r' \<noteq> [] \<Longrightarrow> 2 \<le> replacer_k r"
    and c_snd: "\<And>f'. f' \<noteq> f \<Longrightarrow> f' \<in> snd ` set (cache_list r') \<longleftrightarrow> f' \<in> snd ` set (cache_list r)"
    and t_f: "frame_time r' ! nat f =
        (if f \<in> snd ` set (cache_list r') then rev (take (replacer_k r - 1) (g' f)) else rev (g' f))"
    and t_other: "\<And>f'. f' \<noteq> f \<Longrightarrow> in_frame_time r f' \<Longrightarrow> frame_time r' ! nat f' = frame_time r ! nat f'"
    and t_len: "length (frame_time r') = length (frame_time r)"
  shows "log_inv r' g'"
proof -
  note d = log_invD[OF li]
  have o: "g' f' = g f'" if "f' \<noteq> f" for f' using that by (simp add: g'_def)
  have 1: "log_ok (current_timestamp r') g'"
    using log_ok_push[OF d(2), of f] by (simp add: ct g'_def)
  have 2: "\<forall>f'. length (g' f') = count (frame_map r' f')"
    using d(3) cnt by (simp add: g'_def)
  have 3: "\<forall>x\<in>set (hist_list r'). fst x = last (g' (snd x))"
    using h_mem d(4) o by metis
  have 5: "\<forall>x\<in>set (cache_list r'). fst x = g' (snd x) ! (replacer_k r' - 1)"
    using c_mem d(6) o k' by metis
  have 7: "cache_list r' \<noteq> [] \<longrightarrow> 2 \<le> replacer_k r'" using c_ne k' by simp
  have 8: "frame_time r' ! nat f' =
          (if f' \<in> snd ` set (cache_list r') then rev (take (replacer_k r' - 1) (g' f')) else rev (g' f'))"
    if "in_frame_time r' f'" for f'
  proof (cases "f' = f")
    case True
    then show ?thesis using t_f k' by simp
  next
    case False
    have "in_frame_time r f'" using that t_len by (simp add: in_frame_time_def)
    then show ?thesis using t_other[OF False] d(9)[of f'] c_snd[OF False] o[OF False] k' by simp
  qed
  show ?thesis unfolding log_inv_def using inv' 1 2 3 h_sorted 5 c_sorted 7 8 by blast
qed

lemma frame_time_bump:
  "frame_time (bump r f) = (frame_time r)[nat f := frame_time r ! nat f @ [current_timestamp r + 1]]"
  by (simp add: bump_def)

lemma frame_time_cache_insert:
  "frame_time (cache_insert r f) = (frame_time r)[nat f := tl (frame_time r ! nat f)]"
  by (simp add: cache_insert_def Let_def)

lemma log_nonempty_bound:
  assumes "log_inv r g" "count (frame_map r f) \<noteq> 0"
  shows "g f \<noteq> []" "last (g f) \<le> current_timestamp r"
proof -
  note d = log_invD[OF assms(1)]
  show ne: "g f \<noteq> []" using d(3)[of f] assms(2) by auto
  then have "last (g f) \<in> set (g f)" by simp
  then show "last (g f) \<le> current_timestamp r" using d(2) by (auto simp: log_ok_def)
qed

lemma cache_node_count:
  assumes "replacer_inv r" "x \<in> set (cache_list r)"
  shows "2 \<le> count (frame_map r (snd x))" "replacer_k r \<le> count (frame_map r (snd x))"
  using assms by (auto simp: replacer_inv_def)

lemma hist_node_count:
  assumes "replacer_inv r" "x \<in> set (hist_list r)"
  shows "0 < count (frame_map r (snd x))"
    "count (frame_map r (snd x)) < replacer_k r \<or> count (frame_map r (snd x)) = 1"
  using assms by (auto simp: replacer_inv_def)

lemma hist_cache_disjoint:
  assumes "replacer_inv r" "x \<in> set (hist_list r)" "y \<in> set (cache_list r)"
  shows "snd x \<noteq> snd y"
  using assms by (auto simp: replacer_inv_def)

lemma log_inv_RecordAccess_first:
  assumes li: "log_inv r g" and ts: "current_timestamp r < 2 ^ 64 - 1"
    and ra: "RecordAccess r f = Returns x r'" and c: "count (frame_map r f) = 0"
  shows "log_inv r' (g(f := (current_timestamp r + 1) # g f))"
proof -
  note d = log_invD[OF li]
  note e = RecordAccess_first[OF c ra, unfolded inc64_eq[OF ts]]
  have inr: "in_frame_time r f" using e by simp
  have r': "hist_list r' = (current_timestamp r + 1, f) # hist_list r" "cache_list r' = cache_list r"
    "frame_time r' = (frame_time r)[nat f := frame_time r ! nat f @ [current_timestamp r + 1]]"
    "current_timestamp r' = current_timestamp r + 1" "replacer_k r' = replacer_k r"
    "\<And>f'. count (frame_map r' f') = (if f' = f then 1 else count (frame_map r f'))"
    using e by simp_all
  have gf: "g f = []" using d(3)[of f] c by simp
  have nh: "snd y \<noteq> f" if "y \<in> set (hist_list r)" for y
    using hist_node_count(1)[OF d(1) that] c by auto
  have nc: "snd y \<noteq> f" if "y \<in> set (cache_list r)" for y
    using cache_node_count(1)[OF d(1) that] c by auto
  then have ncf: "f \<notin> snd ` set (cache_list r)" by auto
  have lt: "fst y < current_timestamp r + 1" if "y \<in> set (hist_list r)" for y
    using log_nonempty_bound(2)[OF li, of "snd y"] hist_node_count(1)[OF d(1) that] d(4)[OF that]
    by simp
  show ?thesis
  proof (rule log_inv_access[OF li RecordAccess_inv[OF d(1) ts ra] inr])
    show "frame_time r' ! nat f =
        (if f \<in> snd ` set (cache_list r')
         then rev (take (replacer_k r - 1) ((g(f := (current_timestamp r + 1) # g f)) f))
         else rev ((g(f := (current_timestamp r + 1) # g f)) f))"
      using inr ncf d(9)[OF inr] by (simp add: r' gf in_frame_time_def)
    show "frame_time r' ! nat f' = frame_time r ! nat f'" if "f' \<noteq> f" "in_frame_time r f'" for f'
      using that inr by (simp add: r' in_frame_time_def nat_eq_in_range)
    show "sorted_wrt (\<lambda>a b. fst b < fst a) (hist_list r')"
      using d(5) lt by (simp add: r')
    show "(y \<in> set (hist_list r) \<and> snd y \<noteq> f) \<or>
          (snd y = f \<and> fst y = last ((g(f := (current_timestamp r + 1) # g f)) f))"
      if "y \<in> set (hist_list r')" for y
      using that nh[of y] by (auto simp: r' gf)
    show "(y \<in> set (cache_list r) \<and> snd y \<noteq> f) \<or>
          (snd y = f \<and> fst y = (g(f := (current_timestamp r + 1) # g f)) f ! (replacer_k r - 1))"
      if "y \<in> set (cache_list r')" for y
      using that nc[of y] by (auto simp: r')
  qed (use d r' c in \<open>simp_all\<close>)
qed

lemma hd_rev_take: "0 < n \<Longrightarrow> n \<le> length xs \<Longrightarrow> hd (rev (take n xs)) = xs ! (n - 1)"
  by (cases "take n xs = []") (simp_all add: hd_rev last_conv_nth)

lemma tl_rev_take: "n \<le> length xs \<Longrightarrow> tl (rev (take n xs)) = rev (take (n - 1) xs)"
proof -
  assume n: "n \<le> length xs"
  have "tl (rev (take n xs)) = rev (butlast (take n xs))"
    by (metis butlast_rev rev_rev_ident rev_swap)
  then show ?thesis using n by (simp add: butlast_take)
qed

lemma log_inv_RecordAccess_stay:
  assumes li: "log_inv r g" and ts: "current_timestamp r < 2 ^ 64 - 1"
    and inv': "replacer_inv (bump r f)" and inr: "in_frame_time r f"
    and c: "count (frame_map r f) \<noteq> 0" and k: "count (frame_map r f) + 1 < replacer_k r"
  shows "log_inv (bump r f) (g(f := (current_timestamp r + 1) # g f))"
proof -
  note d = log_invD[OF li]
  have gf: "g f \<noteq> []" using log_nonempty_bound(1)[OF li c] .
  have nc: "snd y \<noteq> f" if "y \<in> set (cache_list r)" for y
    using cache_node_count(2)[OF d(1) that] k by auto
  then have ncf: "f \<notin> snd ` set (cache_list r)" by auto
  show ?thesis
  proof (rule log_inv_access[OF li inv' inr])
    show "frame_time (bump r f) ! nat f =
        (if f \<in> snd ` set (cache_list (bump r f))
         then rev (take (replacer_k r - 1) ((g(f := (current_timestamp r + 1) # g f)) f))
         else rev ((g(f := (current_timestamp r + 1) # g f)) f))"
      using inr ncf d(9)[OF inr] by (simp add: frame_time_bump bump_fields in_frame_time_def)
    show "frame_time (bump r f) ! nat f' = frame_time r ! nat f'" if "f' \<noteq> f" "in_frame_time r f'" for f'
      using that inr by (simp add: frame_time_bump in_frame_time_def nat_eq_in_range)
    show "(y \<in> set (hist_list r) \<and> snd y \<noteq> f) \<or>
          (snd y = f \<and> fst y = last ((g(f := (current_timestamp r + 1) # g f)) f))"
      if "y \<in> set (hist_list (bump r f))" for y
      using that d(4)[of y] gf by (auto simp: bump_fields)
    show "(y \<in> set (cache_list r) \<and> snd y \<noteq> f) \<or>
          (snd y = f \<and> fst y = (g(f := (current_timestamp r + 1) # g f)) f ! (replacer_k r - 1))"
      if "y \<in> set (cache_list (bump r f))" for y
      using that nc[of y] by (auto simp: bump_fields)
    show "count (frame_map (bump r f) f') =
        (if f' = f then count (frame_map r f) + 1 else count (frame_map r f'))" for f'
      by (simp add: bump_fields)
  qed (use d in \<open>simp_all add: bump_fields\<close>)
qed

lemma log_inv_RecordAccess_cache:
  fixes r r' :: LRUKReplacer and g :: "frame_id_t \<Rightarrow> nat list" and f :: frame_id_t
  defines "g' \<equiv> g(f := (current_timestamp r + 1) # g f)"
  assumes li: "log_inv r g" and inv': "replacer_inv r'" and inr: "in_frame_time r f"
    and c: "count (frame_map r f) \<noteq> 0" and k: "replacer_k r \<le> count (frame_map r f) + 1"
    and K2: "2 \<le> replacer_k r"
    and e: "(e \<in> set (hist_list r) \<and> hist_list r' = remove1 e (hist_list r) \<and>
               cache_list r' = upper_bound_insert (hd (frame_time (bump r f) ! nat f), f) (cache_list r)) \<or>
            (e \<in> set (cache_list r) \<and> hist_list r' = hist_list r \<and>
               cache_list r' = upper_bound_insert (hd (frame_time (bump r f) ! nat f), f) (remove1 e (cache_list r)))"
    and se: "snd e = f"
    and ft: "frame_time r' = (frame_time (bump r f))[nat f := tl (frame_time (bump r f) ! nat f)]"
    and ct: "current_timestamp r' = current_timestamp r + 1"
    and k': "replacer_k r' = replacer_k r"
    and cnt: "\<And>f'. count (frame_map r' f') = (if f' = f then count (frame_map r f) + 1 else count (frame_map r f'))"
  shows "log_inv r' g'"
proof -
  note d = log_invD[OF li]
  let ?K = "replacer_k r"
  let ?t = "current_timestamp r + 1"
  have dist: "distinct (map snd (hist_list r @ cache_list r))" using d(1) by (simp add: replacer_inv_def)
  then have dh: "distinct (map snd (hist_list r))" and dc: "distinct (map snd (cache_list r))" by simp_all
  have g'f: "g' f = ?t # g f" by (simp add: g'_def)
  have lg: "length (g f) = count (frame_map r f)" using d(3) by simp
  have lg': "?K \<le> length (g' f)" using k lg by (simp add: g'f)
  have nf: "nat f < length (frame_time r)" using inr by (simp add: in_frame_time_def)
  have bt: "frame_time (bump r f) ! nat f = frame_time r ! nat f @ [?t]"
    using nf by (simp add: frame_time_bump)
  have T1: "frame_time (bump r f) ! nat f = rev (take ?K (g' f))"
    using e
  proof
    assume a: "e \<in> set (hist_list r) \<and> hist_list r' = remove1 e (hist_list r) \<and>
               cache_list r' = upper_bound_insert (hd (frame_time (bump r f) ! nat f), f) (cache_list r)"
    then have "f \<notin> snd ` set (cache_list r)" using hist_cache_disjoint[OF d(1), of e] se by auto
    then have 1: "frame_time r ! nat f = rev (g f)" using d(9)[OF inr] by simp
    have "count (frame_map r f) < ?K \<or> count (frame_map r f) = 1"
      using hist_node_count(2)[OF d(1), of e] a se by simp
    then have "?K = length (g' f)" using k K2 lg by (auto simp: g'f)
    then show ?thesis using 1 bt by (simp add: g'f)
  next
    assume a: "e \<in> set (cache_list r) \<and> hist_list r' = hist_list r \<and>
               cache_list r' = upper_bound_insert (hd (frame_time (bump r f) ! nat f), f) (remove1 e (cache_list r))"
    then have "f \<in> snd ` set (cache_list r)" using se by force
    then have 1: "frame_time r ! nat f = rev (take (?K - 1) (g f))" using d(9)[OF inr] by simp
    have "take ?K (?t # g f) = ?t # take (?K - 1) (g f)" using K2 by (cases ?K) simp_all
    then show ?thesis using 1 bt by (simp add: g'f)
  qed
  have hdv: "hd (frame_time (bump r f) ! nat f) = g' f ! (?K - 1)"
    using hd_rev_take[of ?K "g' f"] lg' K2 by (simp add: T1)
  have tlv: "tl (frame_time (bump r f) ! nat f) = rev (take (?K - 1) (g' f))"
    using tl_rev_take[OF lg'] by (simp add: T1)
  have fc: "f \<in> snd ` set (cache_list r')" using e by force
  have c_set: "set (cache_list r') =
      insert (g' f ! (?K - 1), f) (if e \<in> set (hist_list r) then set (cache_list r) else set (remove1 e (cache_list r)))"
    using e hist_cache_disjoint[OF d(1), of e e] by (auto simp: hdv)
  have nc_other: "snd y \<noteq> f" if "y \<in> set (cache_list r)" "e \<in> set (hist_list r)" for y
    using hist_cache_disjoint[OF d(1) that(2,1)] se by simp
  have nc_rem: "snd y \<noteq> f" if "y \<in> set (remove1 e (cache_list r))" "e \<in> set (cache_list r)" for y
    using in_remove1_snd_neq[OF dc that(2,1)] se by simp
  have e_cache: "e \<in> set (cache_list r)" if "e \<notin> set (hist_list r)" using e that by auto
  show ?thesis unfolding g'_def
  proof (rule log_inv_access[OF li inv' inr ct k' cnt])
    show "frame_time r' ! nat f =
        (if f \<in> snd ` set (cache_list r')
         then rev (take (?K - 1) ((g(f := ?t # g f)) f))
         else rev ((g(f := ?t # g f)) f))"
      using fc nf tlv by (simp add: ft frame_time_bump g'_def)
    show "frame_time r' ! nat f' = frame_time r ! nat f'" if "f' \<noteq> f" "in_frame_time r f'" for f'
      using that inr by (simp add: ft frame_time_bump in_frame_time_def nat_eq_in_range)
    show "length (frame_time r') = length (frame_time r)" by (simp add: ft frame_time_bump)
    show "sorted_wrt (\<lambda>a b. fst b < fst a) (hist_list r')"
      using e d(5) by (auto simp: sorted_wrt_remove1)
    show "sorted_wrt (\<lambda>a b. \<not> k_time_less b a) (cache_list r')"
      using e d(7) by (auto simp: sorted_wrt_remove1 sorted_upper_bound_insert)
    show "2 \<le> ?K" using K2 .
    show "(y \<in> set (hist_list r) \<and> snd y \<noteq> f) \<or>
          (snd y = f \<and> fst y = last ((g(f := ?t # g f)) f))"
      if "y \<in> set (hist_list r')" for y
      using e
    proof
      assume a: "e \<in> set (hist_list r) \<and> hist_list r' = remove1 e (hist_list r) \<and>
               cache_list r' = upper_bound_insert (hd (frame_time (bump r f) ! nat f), f) (cache_list r)"
      then show ?thesis using that in_remove1_snd_neq[OF dh, of e y] in_remove1D[of y e "hist_list r"] se by simp
    next
      assume a: "e \<in> set (cache_list r) \<and> hist_list r' = hist_list r \<and>
               cache_list r' = upper_bound_insert (hd (frame_time (bump r f) ! nat f), f) (remove1 e (cache_list r))"
      then show ?thesis using that hist_cache_disjoint[OF d(1), of y e] se by simp
    qed
    show "(y \<in> set (cache_list r) \<and> snd y \<noteq> f) \<or>
          (snd y = f \<and> fst y = (g(f := ?t # g f)) f ! (?K - 1))"
      if "y \<in> set (cache_list r')" for y
    proof (cases "y = (g' f ! (?K - 1), f)")
      case True
      then show ?thesis by (simp add: g'_def)
    next
      case False
      show ?thesis
      proof (cases "e \<in> set (hist_list r)")
        case True
        then have "y \<in> set (cache_list r)" using that False c_set by simp
        then show ?thesis using nc_other[OF _ True] by simp
      next
        case F: False
        then have y: "y \<in> set (remove1 e (cache_list r))" using that False c_set by simp
        then show ?thesis using nc_rem[OF y e_cache[OF F]] in_remove1D[OF y] by simp
      qed
    qed
    show "f' \<in> snd ` set (cache_list r') \<longleftrightarrow> f' \<in> snd ` set (cache_list r)" if "f' \<noteq> f" for f'
    proof (cases "e \<in> set (hist_list r)")
      case True
      then show ?thesis using that by (simp add: c_set)
    next
      case False
      then show ?thesis using that snd_set_remove1[OF dc e_cache[OF False]] se by (simp add: c_set)
    qed
  qed
qed

lemma log_inv_RecordAccess:
  assumes li: "log_inv r g" and ts: "current_timestamp r < 2 ^ 64 - 1"
    and ra: "RecordAccess r f = Returns x r'"
  shows "log_inv r' (g(f := current_timestamp r' # g f)) \<and> current_timestamp r' = current_timestamp r + 1"
proof -
  note d = log_invD[OF li]
  have inv': "replacer_inv r'" using RecordAccess_inv[OF d(1) ts ra] .
  have ct: "current_timestamp r' = current_timestamp r + 1"
    using RecordAccess_effect[OF ra] inc64_eq[OF ts] by simp
  have "log_inv r' (g(f := (current_timestamp r + 1) # g f))"
  proof (cases "count (frame_map r f) = 0")
    case True
    then show ?thesis using log_inv_RecordAccess_first[OF li ts ra] by simp
  next
    case False
    have cb: "count (frame_map r f) \<le> current_timestamp r" using d(1) by (simp add: replacer_inv_def)
    then have nw: "count (frame_map r f) < 2 ^ 64 - 1" using ts by simp
    note L = RecordAccess_later[OF False nw ts ra]
    then have inr: "in_frame_time r f" by simp
    from L consider
      (to_cache) e where "count (frame_map r f) + 1 = replacer_k r" "it (frame_map r f) = HistNode e"
        "e \<in> set (hist_list r)" "r' = cache_insert ((bump r f)\<lparr>hist_list := remove1 e (hist_list r)\<rparr>) f"
      | (in_cache) e where "count (frame_map r f) + 1 > replacer_k r" "it (frame_map r f) = CacheNode e"
        "e \<in> set (cache_list r)" "r' = cache_insert ((bump r f)\<lparr>cache_list := remove1 e (cache_list r)\<rparr>) f"
      | (stay) "count (frame_map r f) + 1 < replacer_k r" "r' = bump r f"
      by blast
    then show ?thesis
    proof cases
      case to_cache
      have se: "snd e = f" using inv_hist_node[OF d(1) to_cache(2,3)] False by simp
      show ?thesis
        by (rule log_inv_RecordAccess_cache[OF li inv' inr False, of e])
           (use to_cache se False in \<open>simp_all add: cache_insert_fields bump_fields frame_time_cache_insert\<close>)
    next
      case in_cache
      have se: "snd e = f" using inv_cache_node[OF d(1) in_cache(2,3)] False by simp
      have K2: "2 \<le> replacer_k r" using d(8) in_cache(3) by (cases "cache_list r") auto
      show ?thesis
        by (rule log_inv_RecordAccess_cache[OF li inv' inr False _ K2, of e])
           (use in_cache se False in \<open>simp_all add: cache_insert_fields bump_fields frame_time_cache_insert\<close>)
    next
      case stay
      show ?thesis
        using log_inv_RecordAccess_stay[OF li ts _ inr False stay(1)] inv' stay(2) by simp
    qed
  qed
  then show ?thesis using ct by simp
qed

lemma replacer_step_k:
  assumes "replacer_step op r = Some r'"
  shows "replacer_k r' = replacer_k r"
proof (cases op)
  case (OpRecordAccess f)
  then show ?thesis using assms RecordAccess_effect[of r f] RecordAccess_Throws[of r f]
    by (auto simp: state_after_Some)
next
  case (OpSetEvictable f b)
  then show ?thesis using assms SetEvictable_fields[of r f b] SetEvictable_Throws[of r f b]
    by (auto simp: state_after_Some)
next
  case OpEvict
  then show ?thesis using assms Evict_cases[of r] Evict_Throws[of r]
    by (auto simp: state_after_Some evict_frame_def)
next
  case (OpRemove f)
  then show ?thesis using assms Remove_cases[of r f] Remove_Throws[of r f]
    by (auto simp: state_after_Some)
qed

lemma log_step_inv:
  assumes li: "log_inv r g" and ts: "current_timestamp r < 2 ^ 64 - 1"
    and st: "replacer_step op r = Some r'"
  shows "log_inv r' (log_step op r g) \<and> current_timestamp r' \<le> current_timestamp r + 1"
proof (cases op)
  case (OpRecordAccess f)
  from st OpRecordAccess consider (ret) x where "RecordAccess r f = Returns x r'"
    | (thr) e where "RecordAccess r f = Throws e r'"
    by (auto simp: state_after_Some)
  then show ?thesis
  proof cases
    case ret
    have ls: "log_step op r g = g(f := current_timestamp r' # g f)"
      by (simp add: log_step_def OpRecordAccess ret)
    note L = log_inv_RecordAccess[OF li ts ret]
    have "log_inv r' (log_step op r g)" unfolding ls by (rule L[THEN conjunct1])
    then show ?thesis using L[THEN conjunct2] by simp
  next
    case thr
    then have "r' = r" by (simp add: RecordAccess_Throws)
    then show ?thesis using li thr by (simp add: log_step_def OpRecordAccess)
  qed
next
  case (OpSetEvictable f b)
  from st OpSetEvictable consider (ret) x where "SetEvictable r f b = Returns x r'"
    | (thr) e where "SetEvictable r f b = Throws e r'"
    by (auto simp: state_after_Some)
  then show ?thesis
  proof cases
    case ret
    then show ?thesis using log_inv_SetEvictable[OF li ret] SetEvictable_timestamp[OF ret]
      by (simp add: log_step_def OpSetEvictable)
  next
    case thr
    then have "r' = r" by (rule SetEvictable_Throws)
    then show ?thesis using li by (simp add: log_step_def OpSetEvictable)
  qed
next
  case OpEvict
  from st OpEvict obtain v where ev: "Evict r = Returns v r'"
    using Evict_Throws[of r] by (auto simp: state_after_Some)
  show ?thesis using log_inv_Evict[OF li ev] Evict_timestamp[OF ev]
    by (cases v) (simp_all add: log_step_def OpEvict ev)
next
  case (OpRemove f)
  from st OpRemove consider (ret) x where "Remove r f = Returns x r'"
    | (thr) e where "Remove r f = Throws e r'"
    by (auto simp: state_after_Some)
  then show ?thesis
  proof cases
    case ret
    then show ?thesis using log_inv_Remove[OF li ret] Remove_timestamp[OF ret]
      by (simp add: log_step_def OpRemove)
  next
    case thr
    then have "r' = r" by (rule Remove_Throws)
    then show ?thesis using li thr by (simp add: log_step_def OpRemove)
  qed
qed

lemma log_run_inv:
  "log_inv r g \<Longrightarrow> current_timestamp r + length ops \<le> 2 ^ 64 - 1 \<Longrightarrow>
   replacer_run ops r = Some r' \<Longrightarrow>
   log_inv r' (access_log ops r g) \<and> replacer_k r' = replacer_k r"
proof (induction ops arbitrary: r g)
  case Nil
  then show ?case by simp
next
  case (Cons op ops)
  from Cons.prems(3) obtain r1 where r1: "replacer_step op r = Some r1" "replacer_run ops r1 = Some r'"
    by (auto split: option.splits)
  have ts: "current_timestamp r < 2 ^ 64 - 1" using Cons.prems(2) by simp
  note s1 = log_step_inv[OF Cons.prems(1) ts r1(1)]
  have "current_timestamp r1 + length ops \<le> 2 ^ 64 - 1" using s1 Cons.prems(2) by simp
  from Cons.IH[OF s1[THEN conjunct1] this r1(2)] show ?case
    using r1(1) replacer_step_k[OF r1(1)] by simp
qed

lemma rev_last: "xs \<noteq> [] \<Longrightarrow> rev xs = last xs # rev (butlast xs)"
  by (induction xs rule: rev_induct) simp_all

lemma sorted_wrt_last:
  "sorted_wrt P xs \<Longrightarrow> y \<in> set xs \<Longrightarrow> y = last xs \<or> P y (last xs)"
  by (induction xs) auto

lemma sorted_wrt_hd:
  "sorted_wrt P xs \<Longrightarrow> y \<in> set xs \<Longrightarrow> y = hd xs \<or> P (hd xs) y"
  by (cases xs) auto

lemma log_tracked:
  assumes li: "log_inv r g" and ne: "g f \<noteq> []"
  shows "(\<exists>y\<in>set (hist_list r). snd y = f \<and> fst y = last (g f) \<and>
            (length (g f) < replacer_k r \<or> length (g f) = 1)) \<or>
         (\<exists>y\<in>set (cache_list r). snd y = f \<and> fst y = g f ! (replacer_k r - 1) \<and>
            replacer_k r \<le> length (g f))"
proof -
  note d = log_invD[OF li]
  have c: "count (frame_map r f) \<noteq> 0" using d(3)[of f] ne by (cases "g f") auto
  from tracked_node[OF d(1) c] consider
    (h) y where "y \<in> set (hist_list r)" "snd y = f"
      "count (frame_map r f) < replacer_k r \<or> count (frame_map r f) = 1"
    | (c) y where "y \<in> set (cache_list r)" "snd y = f" "replacer_k r \<le> count (frame_map r f)"
    by blast
  then show ?thesis
  proof cases
    case h
    then have "snd y = f \<and> fst y = last (g f) \<and> (length (g f) < replacer_k r \<or> length (g f) = 1)"
      using d(4)[OF h(1)] d(3)[of f] by simp
    then show ?thesis using h(1) by blast
  next
    case c
    then have "snd y = f \<and> fst y = g f ! (replacer_k r - 1) \<and> replacer_k r \<le> length (g f)"
      using d(6)[OF c(1)] d(3)[of f] by simp
    then show ?thesis using c(1) by blast
  qed
qed

lemma Evict_order_cached:
  assumes li: "log_inv r g" and K1: "1 \<le> replacer_k r" and some: "g f0 \<noteq> []"
    and all: "\<And>f. g f \<noteq> [] \<Longrightarrow> replacer_k r \<le> length (g f) \<and> evictable (frame_map r f)"
  shows "\<exists>v r'. Evict r = Returns (Some v) r' \<and> g v \<noteq> [] \<and>
           (\<forall>f. g f \<noteq> [] \<longrightarrow> g v ! (replacer_k r - 1) \<le> g f ! (replacer_k r - 1))"
proof (cases "hist_list r = []")
  case False
  note d = log_invD[OF li]
  let ?e = "last (hist_list r)"
  have e: "?e \<in> set (hist_list r)" using False by simp
  have ce: "0 < count (frame_map r (snd ?e))" using hist_node_count(1)[OF d(1) e] .
  then have ge: "g (snd ?e) \<noteq> []" using d(3)[of "snd ?e"] by auto
  have eve: "evictable (frame_map r (snd ?e))" using all[OF ge] by simp
  have R: "rev (hist_list r) = ?e # rev (butlast (hist_list r))"
    using False by (rule rev_last)
  have fe: "first_evictable (frame_map r) (rev (hist_list r)) = Some ?e"
    unfolding first_evictable_def by (subst R) (simp add: eve)
  have inr: "in_frame_time r (snd ?e)" using d(1) e by (auto simp: replacer_inv_def)
  have K: "replacer_k r = 1"
    using hist_node_count(2)[OF d(1) e] all[OF ge] d(3)[of "snd ?e"] K1 by auto
  then have cn: "cache_list r = []" using d(8) by auto
  have le: "g (snd ?e) ! (replacer_k r - 1) \<le> g f ! (replacer_k r - 1)" if ne: "g f \<noteq> []" for f
  proof -
    from log_tracked[OF li ne] cn obtain y where
      y: "y \<in> set (hist_list r)" "snd y = f" "fst y = last (g f)" "length (g f) < replacer_k r \<or> length (g f) = 1"
      by auto
    have l1: "length (g f) = 1" using y(4) K ne by auto
    have l2: "length (g (snd ?e)) = 1" using log_tracked[OF li ge] cn K ge by auto
    have a: "last (g f) = g f ! 0" "last (g (snd ?e)) = g (snd ?e) ! 0"
      using l1 l2 ne ge by (simp_all add: last_conv_nth)
    have "fst ?e \<le> fst y" using sorted_wrt_last[OF d(5) y(1)] by auto
    then show ?thesis using d(4)[OF e] y(3) a K by simp
  qed
  show ?thesis using fe inr ge le by (simp add: Evict_def)
next
  case True
  note d = log_invD[OF li]
  from log_tracked[OF li some] True have cne: "cache_list r \<noteq> []" by auto
  let ?e = "hd (cache_list r)"
  have e: "?e \<in> set (cache_list r)" using cne by simp
  have ce: "2 \<le> count (frame_map r (snd ?e))" using cache_node_count(1)[OF d(1) e] .
  then have ge: "g (snd ?e) \<noteq> []" using d(3)[of "snd ?e"] by auto
  have eve: "evictable (frame_map r (snd ?e))" using all[OF ge] by simp
  have fe: "first_evictable (frame_map r) (cache_list r) = Some ?e"
    using eve cne by (cases "cache_list r") (simp_all add: first_evictable_def)
  have fh: "first_evictable (frame_map r) (rev (hist_list r)) = None"
    using True by (simp add: first_evictable_def)
  have inr: "in_frame_time r (snd ?e)" using d(1) e by (auto simp: replacer_inv_def)
  have le: "g (snd ?e) ! (replacer_k r - 1) \<le> g f ! (replacer_k r - 1)" if ne: "g f \<noteq> []" for f
  proof -
    from log_tracked[OF li ne] True obtain y where
      y: "y \<in> set (cache_list r)" "snd y = f" "fst y = g f ! (replacer_k r - 1)"
      by auto
    have "fst ?e \<le> fst y" using sorted_wrt_hd[OF d(7) y(1)] by (auto simp: k_time_less_def)
    then show ?thesis using d(6)[OF e] y(3) by simp
  qed
  show ?thesis using fe fh inr ge le by (simp add: Evict_def)
qed

lemma Evict_order_history:
  assumes li: "log_inv r g"
    and f0: "g f0 \<noteq> []" "length (g f0) < replacer_k r" "evictable (frame_map r f0)"
  shows "\<exists>v r'. Evict r = Returns (Some v) r' \<and> g v \<noteq> [] \<and> length (g v) < replacer_k r \<and>
           evictable (frame_map r v) \<and>
           (\<forall>f. g f \<noteq> [] \<and> length (g f) < replacer_k r \<and> evictable (frame_map r f) \<longrightarrow>
                last (g v) \<le> last (g f))"
proof -
  note d = log_invD[OF li]
  have hist: "\<exists>y\<in>set (hist_list r). snd y = f \<and> fst y = last (g f)"
    if "g f \<noteq> []" "length (g f) < replacer_k r" for f
    using log_tracked[OF li that(1)] that(2) by auto
  from hist[OF f0(1,2)] f0(3) have "first_evictable (frame_map r) (rev (hist_list r)) \<noteq> None"
    by (auto simp: first_evictable_None)
  then obtain e where fe: "first_evictable (frame_map r) (rev (hist_list r)) = Some e" by auto
  from first_evictable_split[OF fe] obtain ys zs where
    sp: "rev (hist_list r) = ys @ e # zs" "\<forall>y\<in>set ys. \<not> evictable (frame_map r (snd y))"
      "evictable (frame_map r (snd e))" by blast
  have e: "e \<in> set (hist_list r)" using first_evictable_Some[OF fe] by simp
  have inr: "in_frame_time r (snd e)" using d(1) e by (auto simp: replacer_inv_def)
  have ce: "0 < count (frame_map r (snd e))" using hist_node_count(1)[OF d(1) e] .
  then have ge: "g (snd e) \<noteq> []" using d(3)[of "snd e"] by auto
  have K2: "2 \<le> replacer_k r" using f0(1,2) by (cases "g f0") auto
  have lt: "length (g (snd e)) < replacer_k r"
    using hist_node_count(2)[OF d(1) e] d(3)[of "snd e"] K2 by auto
  have "sorted_wrt (\<lambda>a b. fst a < fst b) (rev (hist_list r))"
    using d(5) by (simp add: sorted_wrt_rev)
  then have srt: "sorted_wrt (\<lambda>a b. fst a < fst b) (ys @ e # zs)"
    by (simp only: sp(1))
  have le: "last (g (snd e)) \<le> last (g f)"
    if "g f \<noteq> []" "length (g f) < replacer_k r" "evictable (frame_map r f)" for f
  proof -
    from hist[OF that(1,2)] obtain y where y: "y \<in> set (hist_list r)" "snd y = f" "fst y = last (g f)"
      by auto
    have "y \<in> set (rev (hist_list r))" using y(1) by simp
    then have "y \<in> set (ys @ e # zs)" by (simp only: sp(1))
    then have "y = e \<or> y \<in> set zs" using sp(2) that(3) y(2) by auto
    then have "fst e \<le> fst y" using srt by (auto simp: sorted_wrt_append)
    then show ?thesis using d(4)[OF e] y(3) by simp
  qed
  show ?thesis using fe inr ge lt sp(3) le by (simp add: Evict_def)
qed

lemmas lruk_eval = lruk_example_ops_def log_step_def state_after_def replacer_eval Evict_def
  first_evictable_def evict_frame_def


section \<open>The extendible hash table keeps its invariant\<close>

subsection \<open>Masks and bits\<close>

lemma and_low_mask: "(x::nat) AND (2 ^ n - 1) = x mod 2 ^ n"
proof -
  have "x AND (2 ^ n - 1) = x AND mask n" by (simp only: mask_eq_exp_minus_1)
  also have "\<dots> = take_bit n x" by (simp only: take_bit_eq_mask)
  also have "\<dots> = x mod 2 ^ n" by (simp only: take_bit_eq_mod)
  finally show ?thesis .
qed

lemma and_low_mask_Suc: "(x::nat) AND (2 ^ n - Suc 0) = x mod 2 ^ n"
  using and_low_mask[of x n] by simp

lemma and_exp_bit: "(x::nat) AND 2 ^ n \<noteq> 0 \<longleftrightarrow> bit x n"
  by (simp add: and_exp_eq_0_iff_not_bit)

lemma mod_mod_pow: "d \<le> g \<Longrightarrow> (x mod 2 ^ g) mod 2 ^ d = x mod (2 ^ d :: nat)"
  by (simp add: mod_mod_cancel le_imp_power_dvd)

lemma take_bit_Suc_iff:
  "take_bit (Suc n) (x::nat) = take_bit (Suc n) y \<longleftrightarrow> take_bit n x = take_bit n y \<and> bit x n = bit y n"
proof
  assume eq: "take_bit (Suc n) x = take_bit (Suc n) y"
  have "take_bit n x = take_bit n (take_bit (Suc n) x)" by simp
  also have "\<dots> = take_bit n (take_bit (Suc n) y)" by (simp only: eq)
  also have "\<dots> = take_bit n y" by simp
  finally have 1: "take_bit n x = take_bit n y" .
  have "bit x n = bit (take_bit (Suc n) x) n" by (simp add: bit_take_bit_iff)
  also have "\<dots> = bit (take_bit (Suc n) y) n" by (simp only: eq)
  also have "\<dots> = bit y n" by (simp add: bit_take_bit_iff)
  finally show "take_bit n x = take_bit n y \<and> bit x n = bit y n" using 1 by simp
next
  assume a: "take_bit n x = take_bit n y \<and> bit x n = bit y n"
  show "take_bit (Suc n) x = take_bit (Suc n) y"
  proof (rule bit_eqI)
    fix i
    have "bit (take_bit n x) i = bit (take_bit n y) i" using a by simp
    then have "i < n \<Longrightarrow> bit x i = bit y i" by (simp add: bit_take_bit_iff)
    then show "bit (take_bit (Suc n) x) i = bit (take_bit (Suc n) y) i"
      using a by (cases "i = n") (auto simp: bit_take_bit_iff less_Suc_eq)
  qed
qed

lemma mod_Suc_pow_iff:
  "(x::nat) mod 2 ^ Suc n = y mod 2 ^ Suc n \<longleftrightarrow> x mod 2 ^ n = y mod 2 ^ n \<and> bit x n = bit y n"
  using take_bit_Suc_iff[of n x y] by (simp only: take_bit_eq_mod)

lemma bit_mod_pow: "n < g \<Longrightarrow> bit ((x::nat) mod 2 ^ g) n = bit x n"
  by (simp flip: take_bit_eq_mod add: bit_take_bit_iff)


subsection \<open>Bucket lists and the directory update\<close>

lemma and_exp_bit_pos: "0 < (x::nat) AND 2 ^ n \<longleftrightarrow> bit x n"
  using and_exp_bit[of x n] by simp

lemma find_items_map_of: "find_items xs k = map_of xs k"
  by (induction xs) auto

lemma overwrite_items_fst: "fst (overwrite_items xs k v) \<longleftrightarrow> k \<in> fst ` set xs"
  by (induction xs k v rule: overwrite_items.induct) auto

lemma overwrite_items_keys: "map fst (snd (overwrite_items xs k v)) = map fst xs"
  by (induction xs k v rule: overwrite_items.induct) auto

lemma overwrite_items_map_of:
  "k \<in> fst ` set xs \<Longrightarrow> map_of (snd (overwrite_items xs k v)) = (map_of xs)(k \<mapsto> v)"
  by (induction xs k v rule: overwrite_items.induct) (auto simp: fun_eq_iff rev_image_eqI)

lemma remove_items_fst: "fst (remove_items xs k) \<longleftrightarrow> k \<in> fst ` set xs"
  by (induction xs k rule: remove_items.induct) auto

lemma remove_items_subset: "set (snd (remove_items xs k)) \<subseteq> set xs"
  by (induction xs k rule: remove_items.induct) auto

lemma remove_items_length: "length (snd (remove_items xs k)) \<le> length xs"
  by (induction xs k rule: remove_items.induct) auto

lemma remove_items_distinct: "distinct (map fst xs) \<Longrightarrow> distinct (map fst (snd (remove_items xs k)))"
proof (induction xs k rule: remove_items.induct)
  case (2 k' v xs key)
  then show ?case using remove_items_subset[of xs key] by (auto simp: image_iff)
qed simp

lemma remove_items_map_of:
  "distinct (map fst xs) \<Longrightarrow> map_of (snd (remove_items xs k)) = (map_of xs)(k := None)"
proof (induction xs k rule: remove_items.induct)
  case (2 k' v xs key)
  then show ?case
    by (auto simp: fun_eq_iff map_of_eq_None_iff image_iff)
qed simp

lemma repoint_length [simp]: "length (repoint m a0 a1 i d) = length d"
  by (induction m a0 a1 i d rule: repoint.induct) (subst repoint.simps, simp)

lemma repoint_nth_aux:
  "j < length d \<Longrightarrow> 0 < m \<Longrightarrow>
     repoint m a0 a1 i d ! j =
       (if i \<le> j \<and> (j - i) mod m = 0 then Some (if j AND m \<noteq> 0 then a1 else a0) else d ! j)"
proof (induction m a0 a1 i d rule: repoint.induct)
  case (1 m a0 a1 i d)
  show ?case
  proof (cases "i < length d")
    case False
    then show ?thesis using "1.prems" by (subst repoint.simps) simp
  next
    case True
    let ?d' = "d[i := Some (if i AND m \<noteq> 0 then a1 else a0)]"
    have IH: "repoint m a0 a1 (i + m) ?d' ! j =
       (if i + m \<le> j \<and> (j - (i + m)) mod m = 0 then Some (if j AND m \<noteq> 0 then a1 else a0) else ?d' ! j)"
      using "1.IH" True "1.prems" by simp
    have step: "repoint m a0 a1 i d = repoint m a0 a1 (i + m) ?d'"
      using True "1.prems" by (subst repoint.simps) simp
    show ?thesis
    proof (cases "j = i")
      case True
      then show ?thesis unfolding step IH using \<open>i < length d\<close> "1.prems" by simp
    next
      case False
      have "(i + m \<le> j \<and> (j - (i + m)) mod m = 0) \<longleftrightarrow> (i \<le> j \<and> (j - i) mod m = 0)"
      proof
        assume a: "i + m \<le> j \<and> (j - (i + m)) mod m = 0"
        then have "j - i = (j - (i + m)) + m" by simp
        then have "(j - i) mod m = 0" using a by (metis mod_add_self2)
        then show "i \<le> j \<and> (j - i) mod m = 0" using a by simp
      next
        assume a: "i \<le> j \<and> (j - i) mod m = 0"
        then have "m dvd (j - i)" by (simp add: mod_eq_0_iff_dvd)
        moreover have "0 < j - i" using a False by simp
        ultimately have "m \<le> j - i" by (simp add: dvd_imp_le)
        moreover have "i \<le> j" using a by simp
        ultimately have le: "i + m \<le> j" by arith
        then have "j - i = (j - (i + m)) + m" by simp
        then have "(j - (i + m)) mod m = 0" using a by (metis mod_add_self2)
        then show "i + m \<le> j \<and> (j - (i + m)) mod m = 0" using le by simp
      qed
      then show ?thesis unfolding step IH using False by simp
    qed
  qed
qed

lemma mod_eq_start:
  assumes "i0 < (m::nat)"
  shows "(i0 \<le> j \<and> (j - i0) mod m = 0) \<longleftrightarrow> j mod m = i0"
proof
  assume a: "i0 \<le> j \<and> (j - i0) mod m = 0"
  then obtain q where "j - i0 = m * q" by (auto simp: mod_eq_0_iff_dvd)
  then have "j = i0 + m * q" using a by simp
  then show "j mod m = i0" using assms by simp
next
  assume a: "j mod m = i0"
  have j: "j = m * (j div m) + j mod m" by simp
  then have "i0 \<le> j" using a by (metis le_add2)
  moreover have "j - i0 = m * (j div m)" using j a by (metis add_diff_cancel_right')
  ultimately show "i0 \<le> j \<and> (j - i0) mod m = 0" by simp
qed

lemma repoint_nth:
  assumes "j < length d"
  shows "repoint (2 ^ ld) a0 a1 (x mod 2 ^ ld) d ! j =
       (if j mod 2 ^ ld = x mod 2 ^ ld then Some (if bit j ld then a1 else a0) else d ! j)"
  using repoint_nth_aux[OF assms, of "2 ^ ld" a0 a1 "x mod 2 ^ ld"]
    mod_eq_start[of "x mod 2 ^ ld" "2 ^ ld" j]
  by (simp add: and_exp_bit and_exp_eq_0_iff_not_bit and_exp_bit_pos)

lemma Bucket_Insert_present:
  "k \<in> fst ` set (list_B b) \<Longrightarrow>
     Bucket_Insert b k v = (True, b\<lparr>list_B := snd (overwrite_items (list_B b) k v)\<rparr>)"
  by (simp add: Bucket_Insert_def overwrite_items_fst)

lemma Bucket_Insert_absent:
  "k \<notin> fst ` set (list_B b) \<Longrightarrow> \<not> IsFull b \<Longrightarrow>
     Bucket_Insert b k v = (True, b\<lparr>list_B := list_B b @ [(k, v)]\<rparr>)"
  by (simp add: Bucket_Insert_def overwrite_items_fst)

lemma Bucket_Insert_full:
  "k \<notin> fst ` set (list_B b) \<Longrightarrow> IsFull b \<Longrightarrow> Bucket_Insert b k v = (False, b)"
  by (simp add: Bucket_Insert_def overwrite_items_fst)

lemma redistribute_eq:
  "distinct (map fst xs) \<Longrightarrow>
   fst ` set xs \<inter> fst ` set (list_B b0) = {} \<Longrightarrow> fst ` set xs \<inter> fst ` set (list_B b1) = {} \<Longrightarrow>
   length (list_B b0) + length xs \<le> size_B b0 \<Longrightarrow> length (list_B b1) + length xs \<le> size_B b1 \<Longrightarrow>
   redistribute h m xs (b0, b1) =
     (b0\<lparr>list_B := list_B b0 @ filter (\<lambda>e. h (fst e) AND m = 0) xs\<rparr>,
      b1\<lparr>list_B := list_B b1 @ filter (\<lambda>e. h (fst e) AND m \<noteq> 0) xs\<rparr>)"
proof (induction xs arbitrary: b0 b1)
  case Nil
  then show ?case by simp
next
  case (Cons e xs)
  obtain k v where e: "e = (k, v)" by (cases e)
  have kx: "k \<notin> fst ` set xs" and dx: "distinct (map fst xs)" using Cons.prems(1) e by auto
  show ?case
  proof (cases "h k AND m \<noteq> 0")
    case True
    have nk: "k \<notin> fst ` set (list_B b1)" using Cons.prems(3) e by auto
    have nf: "\<not> IsFull b1" using Cons.prems(5) by (simp add: IsFull_def)
    let ?b1 = "b1\<lparr>list_B := list_B b1 @ [(k, v)]\<rparr>"
    have bi: "Bucket_Insert b1 k v = (True, ?b1)" by (rule Bucket_Insert_absent[OF nk nf])
    have "redistribute h m xs (b0, ?b1) =
       (b0\<lparr>list_B := list_B b0 @ filter (\<lambda>e. h (fst e) AND m = 0) xs\<rparr>,
        ?b1\<lparr>list_B := list_B ?b1 @ filter (\<lambda>e. h (fst e) AND m \<noteq> 0) xs\<rparr>)"
      using Cons.prems kx by (intro Cons.IH[OF dx]) auto
    then show ?thesis using True by (simp add: e bi)
  next
    case False
    have nk: "k \<notin> fst ` set (list_B b0)" using Cons.prems(2) e by auto
    have nf: "\<not> IsFull b0" using Cons.prems(4) by (simp add: IsFull_def)
    let ?b0 = "b0\<lparr>list_B := list_B b0 @ [(k, v)]\<rparr>"
    have bi: "Bucket_Insert b0 k v = (True, ?b0)" by (rule Bucket_Insert_absent[OF nk nf])
    have "redistribute h m xs (?b0, b1) =
       (?b0\<lparr>list_B := list_B ?b0 @ filter (\<lambda>e. h (fst e) AND m = 0) xs\<rparr>,
        b1\<lparr>list_B := list_B b1 @ filter (\<lambda>e. h (fst e) AND m \<noteq> 0) xs\<rparr>)"
      using Cons.prems kx by (intro Cons.IH[OF dx]) auto
    then show ?thesis using False by (simp add: e bi)
  qed
qed

lemma redistribute_new:
  assumes "distinct (map fst xs)" "length xs \<le> bsz"
  shows "redistribute h (2 ^ ld) xs (Bucket_new bsz d, Bucket_new bsz d) =
     (\<lparr>size_B = bsz, depth_B = d, list_B = filter (\<lambda>e. \<not> bit (h (fst e)) ld) xs\<rparr>,
      \<lparr>size_B = bsz, depth_B = d, list_B = filter (\<lambda>e. bit (h (fst e)) ld) xs\<rparr>)"
  using redistribute_eq[of xs "Bucket_new bsz d" "Bucket_new bsz d" h "2 ^ ld"] assms
  by (simp add: Bucket_new_def and_exp_bit and_exp_eq_0_iff_not_bit)

lemma ht_shape_slot:
  "ht_shape h t \<Longrightarrow> i < length (dir t) \<Longrightarrow> \<exists>a. dir t ! i = Some a \<and> bucket_ok h t i a"
  by (simp add: ht_shape_def)

text \<open>Doubling the directory keeps the shape.\<close>

lemma nth_append_self:
  "i < 2 * length xs \<Longrightarrow> (xs @ xs) ! i = xs ! (i mod length xs)"
  by (cases "i < length xs") (auto simp: nth_append mod_if)

lemma ht_shape_double:
  assumes sh: "ht_shape h t"
  shows "ht_shape h (t\<lparr>global_depth := global_depth t + 1, dir := dir t @ dir t\<rparr>)"
    (is "ht_shape h ?t'")
  unfolding ht_shape_def
proof (intro conjI allI impI)
  have len: "length (dir t) = 2 ^ global_depth t" using sh by (simp add: ht_shape_def)
  show "length (dir ?t') = 2 ^ global_depth ?t'" using len by simp
  fix i assume i: "i < length (dir ?t')"
  let ?i = "i mod 2 ^ global_depth t"
  have i': "?i < length (dir t)" using len by simp
  from ht_shape_slot[OF sh i'] obtain a where a: "dir t ! ?i = Some a" "bucket_ok h t ?i a"
    by blast
  let ?d = "depth_B (heap t ! a)"
  have d: "?d \<le> global_depth t" using a(2) by (simp add: bucket_ok_def)
  have nth: "dir ?t' ! j = dir t ! (j mod 2 ^ global_depth t)" if "j < length (dir ?t')" for j
    using that nth_append_self[of j "dir t"] len by simp
  have md: "(j mod 2 ^ global_depth t) mod 2 ^ ?d = j mod 2 ^ ?d" for j :: nat
    by (rule mod_mod_pow[OF d])
  have "bucket_ok h ?t' i a"
    unfolding bucket_ok_def
  proof (intro conjI allI impI ballI)
    show "a < length (heap ?t')" using a(2) by (simp add: bucket_ok_def)
    show "depth_B (heap ?t' ! a) \<le> global_depth ?t'" using d by simp
    show "size_B (heap ?t' ! a) = bucket_size ?t'" using a(2) by (simp add: bucket_ok_def)
    show "length (list_B (heap ?t' ! a)) \<le> bucket_size ?t'" using a(2) by (simp add: bucket_ok_def)
    show "distinct (map fst (list_B (heap ?t' ! a)))" using a(2) by (simp add: bucket_ok_def)
  next
    fix e assume "e \<in> set (list_B (heap ?t' ! a))"
    then have "h (fst e) mod 2 ^ ?d = ?i mod 2 ^ ?d" using a(2) by (simp add: bucket_ok_def)
    then show "h (fst e) mod 2 ^ depth_B (heap ?t' ! a) = i mod 2 ^ depth_B (heap ?t' ! a)"
      by (simp add: md)
  next
    fix j assume j: "j < length (dir ?t')"
    have "j mod 2 ^ global_depth t < length (dir t)" using len by simp
    then have "dir t ! (j mod 2 ^ global_depth t) = Some a \<longleftrightarrow>
        (j mod 2 ^ global_depth t) mod 2 ^ ?d = ?i mod 2 ^ ?d"
      using a(2) by (simp add: bucket_ok_def)
    then show "dir ?t' ! j = Some a \<longleftrightarrow>
        j mod 2 ^ depth_B (heap ?t' ! a) = i mod 2 ^ depth_B (heap ?t' ! a)"
      using nth[OF j] by (simp add: md)
  qed
  then show "\<exists>a. dir ?t' ! i = Some a \<and> bucket_ok h ?t' i a" using nth[OF i] a(1) by auto
qed


subsection \<open>Doubling the directory and splitting a bucket\<close>

lemma mod_Suc_pow_iff':
  "(x::nat) mod (2 * 2 ^ n) = y mod (2 * 2 ^ n) \<longleftrightarrow> x mod 2 ^ n = y mod 2 ^ n \<and> bit x n = bit y n"
  using mod_Suc_pow_iff[of x n y] by simp

lemma find_items_filter:
  "(\<And>v. P (k, v)) \<Longrightarrow> find_items (filter P xs) k = find_items xs k"
  by (induction xs k rule: find_items.induct) auto

lemma bucket_at_shape:
  assumes "ht_shape h t" "i < length (dir t)"
  shows "\<exists>a. bucket_at t i = Some a \<and> dir t ! i = Some a \<and> bucket_ok h t i a"
proof -
  from ht_shape_slot[OF assms] obtain a where a: "dir t ! i = Some a" "bucket_ok h t i a" by blast
  then have "a < length (heap t)" by (simp add: bucket_ok_def)
  then have "bucket_at t i = Some a" using a(1) assms(2) by (simp add: bucket_at_def)
  then show ?thesis using a by simp
qed

lemma ht_shape_split:
  fixes t :: "('k, 'v) ExtendibleHashTable"
  assumes sh: "ht_shape h t" and pos: "pos < length (dir t)" and a: "dir t ! pos = Some a"
    and ld_def: "ld = depth_B (heap t ! a)" and xs_def: "xs = list_B (heap t ! a)"
    and ld: "ld < global_depth t" and hk: "pos mod 2 ^ ld = x mod 2 ^ ld"
    and Blo: "Blo = \<lparr>size_B = bucket_size t, depth_B = ld + 1, list_B = filter (\<lambda>e. \<not> bit (h (fst e)) ld) xs\<rparr>"
    and Bhi: "Bhi = \<lparr>size_B = bucket_size t, depth_B = ld + 1, list_B = filter (\<lambda>e. bit (h (fst e)) ld) xs\<rparr>"
    and t': "t' = t\<lparr>heap := heap t @ [Blo, Bhi],
                     dir := repoint (2 ^ ld) (length (heap t)) (length (heap t) + 1) (x mod 2 ^ ld) (dir t)\<rparr>"
  shows "ht_shape h t' \<and> (\<forall>k. ht_lookup h t' k = ht_lookup h t k)"
proof -
  let ?a0 = "length (heap t)" and ?a1 = "length (heap t) + 1"
  from ht_shape_slot[OF sh pos] a have ok_a: "bucket_ok h t pos a" by simp
  have len: "length (dir t) = 2 ^ global_depth t" using sh by (simp add: ht_shape_def)
  have len': "length (dir t') = length (dir t)" by (simp add: t')
  have gd': "global_depth t' = global_depth t" and bs': "bucket_size t' = bucket_size t" by (simp_all add: t')
  have nth': "dir t' ! j = (if j mod 2 ^ ld = x mod 2 ^ ld then Some (if bit j ld then ?a1 else ?a0) else dir t ! j)"
    if "j < length (dir t)" for j
    using repoint_nth[OF that] by (simp add: t')
  have share_a: "dir t ! j = Some a \<longleftrightarrow> j mod 2 ^ ld = x mod 2 ^ ld" if "j < length (dir t)" for j
    using ok_a that hk by (simp add: bucket_ok_def ld_def)
  have heap_old: "heap t' ! b = heap t ! b" if "b < length (heap t)" for b
    using that by (simp add: t' nth_append)
  have heap_new: "heap t' ! ?a0 = Blo" "heap t' ! Suc ?a0 = Bhi" "length (heap t') = length (heap t) + 2"
    by (simp_all add: t' nth_append)
  have xs: "length xs \<le> bucket_size t" "distinct (map fst xs)"
    "\<And>e. e \<in> set xs \<Longrightarrow> h (fst e) mod 2 ^ ld = x mod 2 ^ ld"
    using ok_a hk by (simp_all add: bucket_ok_def ld_def xs_def)
  have old_addr: "b < length (heap t)" if "dir t ! j = Some b" "j < length (dir t)" for j b
    using ht_shape_slot[OF sh that(2)] that(1) by (auto simp: bucket_ok_def)
  have slot: "\<exists>a'. dir t' ! i = Some a' \<and> bucket_ok h t' i a'" if i: "i < length (dir t)" for i
  proof (cases "i mod 2 ^ ld = x mod 2 ^ ld")
    case True
    let ?a' = "if bit i ld then ?a1 else ?a0"
    have B: "heap t' ! ?a' = \<lparr>size_B = bucket_size t, depth_B = ld + 1,
                               list_B = filter (\<lambda>e. bit (h (fst e)) ld = bit i ld) xs\<rparr>"
      by (cases "bit i ld") (simp_all add: heap_new Blo Bhi)
    have "bucket_ok h t' i ?a'"
      unfolding bucket_ok_def B
    proof (intro conjI allI impI ballI)
      show "?a' < length (heap t')" by (simp add: heap_new)
      show "depth_B \<lparr>size_B = bucket_size t, depth_B = ld + 1,
                               list_B = filter (\<lambda>e. bit (h (fst e)) ld = bit i ld) xs\<rparr> \<le> global_depth t'"
        using ld by (simp add: gd')
      show "size_B \<lparr>size_B = bucket_size t, depth_B = ld + 1,
                               list_B = filter (\<lambda>e. bit (h (fst e)) ld = bit i ld) xs\<rparr> = bucket_size t'"
        by (simp add: bs')
      show "length (list_B \<lparr>size_B = bucket_size t, depth_B = ld + 1,
                               list_B = filter (\<lambda>e. bit (h (fst e)) ld = bit i ld) xs\<rparr>) \<le> bucket_size t'"
        using xs(1) le_trans[OF length_filter_le[of "\<lambda>e. bit (h (fst e)) ld = bit i ld" xs]]
        by (simp add: bs')
      show "distinct (map fst (list_B \<lparr>size_B = bucket_size t, depth_B = ld + 1,
                               list_B = filter (\<lambda>e. bit (h (fst e)) ld = bit i ld) xs\<rparr>))"
        using xs(2) by (simp add: distinct_map_filter)
    next
      fix e assume "e \<in> set (list_B \<lparr>size_B = bucket_size t, depth_B = ld + 1,
                               list_B = filter (\<lambda>e. bit (h (fst e)) ld = bit i ld) xs\<rparr>)"
      then have "e \<in> set xs" "bit (h (fst e)) ld = bit i ld" by simp_all
      then have "h (fst e) mod 2 ^ Suc ld = i mod 2 ^ Suc ld"
        using xs(3)[of e] True by (simp only: mod_Suc_pow_iff)
      then show "h (fst e) mod 2 ^ depth_B \<lparr>size_B = bucket_size t, depth_B = ld + 1,
                               list_B = filter (\<lambda>e. bit (h (fst e)) ld = bit i ld) xs\<rparr>
            = i mod 2 ^ depth_B \<lparr>size_B = bucket_size t, depth_B = ld + 1,
                               list_B = filter (\<lambda>e. bit (h (fst e)) ld = bit i ld) xs\<rparr>"
        by simp
    next
      fix j assume j: "j < length (dir t')"
      then have j': "j < length (dir t)" by (simp add: len')
      have "dir t' ! j = Some ?a' \<longleftrightarrow> j mod 2 ^ Suc ld = i mod 2 ^ Suc ld"
      proof (cases "j mod 2 ^ ld = x mod 2 ^ ld")
        case Cj: True
        then show ?thesis using True by (simp add: nth'[OF j'] mod_Suc_pow_iff')
      next
        case Cj: False
        obtain b where b: "dir t ! j = Some b" using ht_shape_slot[OF sh j'] by blast
        then have "b < length (heap t)" using old_addr j' by blast
        then have "dir t' ! j \<noteq> Some ?a'" using Cj b by (simp add: nth'[OF j'])
        then show ?thesis using Cj True by (simp add: mod_Suc_pow_iff')
      qed
      then show "dir t' ! j = Some ?a' \<longleftrightarrow>
          j mod 2 ^ depth_B \<lparr>size_B = bucket_size t, depth_B = ld + 1,
                               list_B = filter (\<lambda>e. bit (h (fst e)) ld = bit i ld) xs\<rparr>
            = i mod 2 ^ depth_B \<lparr>size_B = bucket_size t, depth_B = ld + 1,
                               list_B = filter (\<lambda>e. bit (h (fst e)) ld = bit i ld) xs\<rparr>"
        by simp
    qed
    then show ?thesis using True by (auto simp: nth'[OF i])
  next
    case False
    from ht_shape_slot[OF sh i] obtain b where b: "dir t ! i = Some b" "bucket_ok h t i b" by blast
    have bl: "b < length (heap t)" using b(2) by (simp add: bucket_ok_def)
    have ba: "b \<noteq> a" using share_a[OF i] False b(1) by auto
    have "bucket_ok h t' i b"
      unfolding bucket_ok_def heap_old[OF bl] gd' bs' len'
    proof (intro conjI allI impI ballI)
      show "b < length (heap t')" using bl by (simp add: heap_new)
      show "depth_B (heap t ! b) \<le> global_depth t" using b(2) by (simp add: bucket_ok_def)
      show "size_B (heap t ! b) = bucket_size t" using b(2) by (simp add: bucket_ok_def)
      show "length (list_B (heap t ! b)) \<le> bucket_size t" using b(2) by (simp add: bucket_ok_def)
      show "distinct (map fst (list_B (heap t ! b)))" using b(2) by (simp add: bucket_ok_def)
    next
      fix e assume "e \<in> set (list_B (heap t ! b))"
      then show "h (fst e) mod 2 ^ depth_B (heap t ! b) = i mod 2 ^ depth_B (heap t ! b)"
        using b(2) by (simp add: bucket_ok_def)
    next
      fix j assume j: "j < length (dir t)"
      have old: "dir t ! j = Some b \<longleftrightarrow> j mod 2 ^ depth_B (heap t ! b) = i mod 2 ^ depth_B (heap t ! b)"
        using b(2) j by (simp add: bucket_ok_def)
      show "dir t' ! j = Some b \<longleftrightarrow> j mod 2 ^ depth_B (heap t ! b) = i mod 2 ^ depth_B (heap t ! b)"
      proof (cases "j mod 2 ^ ld = x mod 2 ^ ld")
        case True
        then have "dir t ! j = Some a" using share_a[OF j] by simp
        then have "dir t ! j \<noteq> Some b" using ba by simp
        moreover have "dir t' ! j \<noteq> Some b" using True bl by (simp add: nth'[OF j])
        ultimately show ?thesis using old by simp
      next
        case False
        then show ?thesis using old by (simp add: nth'[OF j])
      qed
    qed
    then show ?thesis using False b(1) by (auto simp: nth'[OF i])
  qed
  have shape: "ht_shape h t'"
    unfolding ht_shape_def using len slot by (simp add: len' gd')
  have look: "ht_lookup h t' k = ht_lookup h t k" for k
  proof -
    let ?i = "h k mod 2 ^ global_depth t"
    have i: "?i < length (dir t)" using len by simp
    from bucket_at_shape[OF sh i] obtain b where
      b: "bucket_at t ?i = Some b" "dir t ! ?i = Some b" "bucket_ok h t ?i b" by blast
    have i': "?i < length (dir t')" using i by (simp add: len')
    from bucket_at_shape[OF shape i'] obtain b' where
      b': "bucket_at t' ?i = Some b'" "dir t' ! ?i = Some b'" by blast
    have bl: "b < length (heap t)" using b(3) by (simp add: bucket_ok_def)
    show ?thesis
    proof (cases "?i mod 2 ^ ld = x mod 2 ^ ld")
      case True
      then have ba: "b = a" using share_a[OF i] b(2) by simp
      have bit: "bit ?i ld = bit (h k) ld" using ld by (rule bit_mod_pow)
      have "b' = (if bit ?i ld then ?a1 else ?a0)" using b'(2) True by (simp add: nth'[OF i])
      then have "list_B (heap t' ! b') = filter (\<lambda>e. bit (h (fst e)) ld = bit (h k) ld) xs"
        by (cases "bit (h k) ld") (simp_all add: heap_new Blo Bhi bit)
      then have "find_items (list_B (heap t' ! b')) k = find_items xs k"
        by (simp add: find_items_filter)
      then show ?thesis by (simp add: ht_lookup_def gd' b'(1) b(1) ba xs_def)
    next
      case False
      then have "b' = b" using b'(2) b(2) by (simp add: nth'[OF i])
      then show ?thesis by (simp add: ht_lookup_def gd' b'(1) b(1) heap_old[OF bl])
    qed
  qed
  show ?thesis using shape look by simp
qed

lemma ht_lookup_double:
  assumes sh: "ht_shape h t"
  shows "ht_lookup h (t\<lparr>global_depth := global_depth t + 1, dir := dir t @ dir t\<rparr>) k = ht_lookup h t k"
proof -
  have len: "length (dir t) = 2 ^ global_depth t" using sh by (simp add: ht_shape_def)
  let ?i' = "h k mod 2 ^ (global_depth t + 1)"
  have i': "?i' < 2 * length (dir t)" using len by simp
  have "?i' mod 2 ^ global_depth t = h k mod 2 ^ global_depth t"
    by (rule mod_mod_pow) simp
  then have "(dir t @ dir t) ! ?i' = dir t ! (h k mod 2 ^ global_depth t)"
    using nth_append_self[OF i'] len by simp
  moreover have i: "h k mod 2 ^ global_depth t < length (dir t)" using len by simp
  moreover from bucket_at_shape[OF sh i] obtain b where
    "bucket_at t (h k mod 2 ^ global_depth t) = Some b" "dir t ! (h k mod 2 ^ global_depth t) = Some b"
    "b < length (heap t)" by (auto simp: bucket_ok_def)
  ultimately show ?thesis using i' by (simp add: ht_lookup_def bucket_at_def)
qed

lemma ht_shape_num_buckets [simp]: "ht_shape h (t\<lparr>num_buckets := n\<rparr>) = ht_shape h t"
  by (simp add: ht_shape_def bucket_ok_def)

lemma ht_lookup_num_buckets [simp]: "ht_lookup h (t\<lparr>num_buckets := n\<rparr>) k = ht_lookup h t k"
  by (auto simp: ht_lookup_def bucket_at_def split: option.splits)

lemma IndexOf_Some: "IndexOf h t key = Some pos \<longleftrightarrow> global_depth t < 31 \<and> pos = h key mod 2 ^ global_depth t"
  by (auto simp: IndexOf_def and_low_mask_Suc)

lemma split_step_inv:
  fixes t :: "('k, 'v) ExtendibleHashTable"
  assumes inv: "ht_inv h t" and a: "bucket_at t (h key mod 2 ^ global_depth t) = Some a"
    and st: "split_step h key t a = Some (t', a')"
  shows "ht_inv h t' \<and> bucket_at t' (h key mod 2 ^ global_depth t') = Some a' \<and>
         (\<forall>k. ht_lookup h t' k = ht_lookup h t k) \<and> num_buckets t' = num_buckets t + 1 \<and>
         bucket_size t' = bucket_size t"
proof -
  let ?gd = "global_depth t"
  define ld where "ld = depth_B (heap t ! a)"
  define xs where "xs = list_B (heap t ! a)"
  define t1 where "t1 = (if ld = ?gd then t\<lparr>global_depth := ?gd + 1, dir := dir t @ dir t\<rparr> else t)"
  define B0 where "B0 = \<lparr>size_B = bucket_size t, depth_B = ld + 1, list_B = filter (\<lambda>e. \<not> bit (h (fst e)) ld) xs\<rparr>"
  define B1 where "B1 = \<lparr>size_B = bucket_size t, depth_B = ld + 1, list_B = filter (\<lambda>e. bit (h (fst e)) ld) xs\<rparr>"
  define t2 where "t2 = t1\<lparr>heap := heap t1 @ [B0, B1],
                     dir := repoint (2 ^ ld) (length (heap t1)) (length (heap t1) + 1) (h key mod 2 ^ ld) (dir t1)\<rparr>"
  have sh: "ht_shape h t" and gd30: "?gd \<le> 30" using inv by (simp_all add: ht_inv_def)
  have len: "length (dir t) = 2 ^ ?gd" using sh by (simp add: ht_shape_def)
  have pos: "h key mod 2 ^ ?gd < length (dir t)" using len by simp
  from bucket_at_shape[OF sh pos] a have da: "dir t ! (h key mod 2 ^ ?gd) = Some a"
    and ok: "bucket_ok h t (h key mod 2 ^ ?gd) a" by auto
  have ldgd: "ld \<le> ?gd" and xsp: "distinct (map fst xs)" "length xs \<le> bucket_size t"
    using ok by (simp_all add: bucket_ok_def ld_def xs_def)
  have heap1: "heap t1 = heap t" and bs1: "bucket_size t1 = bucket_size t" by (simp_all add: t1_def)
  have sh1: "ht_shape h t1" using sh ht_shape_double[OF sh] by (simp add: t1_def)
  have look1: "ht_lookup h t1 k = ht_lookup h t k" for k
    using ht_lookup_double[OF sh] by (simp add: t1_def)
  have ld1: "ld < global_depth t1" using ldgd by (auto simp: t1_def)
  have gd1: "?gd \<le> global_depth t1" by (simp add: t1_def)
  have len1: "length (dir t1) = 2 ^ global_depth t1" using sh1 by (simp add: ht_shape_def)
  let ?pos1 = "h key mod 2 ^ global_depth t1"
  have pos1: "?pos1 < length (dir t1)" using len1 by simp
  have "bucket_at t1 ?pos1 = Some a"
    using look1 a sh1 pos1
  proof -
    have "dir t1 ! ?pos1 = Some a"
    proof (cases "ld = ?gd")
      case True
      have "?pos1 mod 2 ^ ?gd = h key mod 2 ^ ?gd" using mod_mod_pow[OF gd1] by simp
      moreover have "?pos1 < 2 * length (dir t)" using pos1 True by (simp add: t1_def)
      ultimately show ?thesis using nth_append_self[of ?pos1 "dir t"] True da len by (simp add: t1_def)
    next
      case False
      then show ?thesis using da by (simp add: t1_def)
    qed
    then show ?thesis using bucket_at_shape[OF sh1 pos1] by auto
  qed
  then have da1: "dir t1 ! ?pos1 = Some a" using bucket_at_shape[OF sh1 pos1] by auto
  have hk: "?pos1 mod 2 ^ ld = h key mod 2 ^ ld" using ld1 by (simp add: mod_mod_pow)
  have sp: "ht_shape h t2 \<and> (\<forall>k. ht_lookup h t2 k = ht_lookup h t1 k)"
    by (rule ht_shape_split[OF sh1 pos1 da1 _ _ ld1 hk, where xs = xs and Blo = B0 and Bhi = B1])
       (simp_all add: heap1 bs1 ld_def xs_def B0_def B1_def t2_def)
  have bs: "redistribute h (2 ^ ld) xs (Bucket_new (bucket_size t) (ld + 1), Bucket_new (bucket_size t) (ld + 1))
      = (B0, B1)"
    using redistribute_new[OF xsp, of h ld "ld + 1"] by (simp add: B0_def B1_def)
  have gd2: "global_depth t2 = global_depth t1" by (simp add: t2_def)
  from st have nb: "num_buckets t < 2 ^ 31 - 1" and ldb: "ld < 31"
    using split_step_num_buckets[OF st] by (auto simp: split_step_def Let_def ld_def split: if_splits)
  have t': "t' = t2\<lparr>num_buckets := num_buckets t + 1\<rparr>"
    and rest: "global_depth t1 < 31" "bucket_at (t2\<lparr>num_buckets := num_buckets t + 1\<rparr>) ?pos1 = Some a'"
    using st nb ldb
    unfolding split_step_def Let_def ld_def[symmetric] xs_def[symmetric] bs and_low_mask
    by (auto simp: t2_def t1_def heap1 IndexOf_Some bucket_at_def split: option.splits if_splits)
  show ?thesis using sp rest look1 by (simp add: t' ht_inv_def gd2 bucket_at_def t2_def bs1)
qed


subsection \<open>The operations\<close>

lemma split_loop_inv:
  "ht_inv h t \<Longrightarrow> bucket_at t (h key mod 2 ^ global_depth t) = Some a \<Longrightarrow>
   split_loop h key t a = Some (t', a') \<Longrightarrow>
   ht_inv h t' \<and> bucket_at t' (h key mod 2 ^ global_depth t') = Some a' \<and>
   \<not> IsFull (heap t' ! a') \<and> (\<forall>k. ht_lookup h t' k = ht_lookup h t k) \<and>
   num_buckets t \<le> num_buckets t' \<and> bucket_size t' = bucket_size t"
proof (induction h key t a rule: split_loop.induct)
  case (1 h key t a)
  show ?case
  proof (cases "IsFull (heap t ! a)")
    case False
    then show ?thesis using "1.prems" by (simp add: split_loop.simps)
  next
    case True
    from "1.prems"(3) True obtain t1 a1 where
      st: "split_step h key t a = Some (t1, a1)" and lp: "split_loop h key t1 a1 = Some (t', a')"
      by (subst (asm) split_loop.simps) (auto split: option.splits)
    note s = split_step_inv[OF "1.prems"(1,2) st]
    from "1.IH"[OF True st refl _ _ lp] s
    have "ht_inv h t' \<and> bucket_at t' (h key mod 2 ^ global_depth t') = Some a' \<and>
       \<not> IsFull (heap t' ! a') \<and> (\<forall>k. ht_lookup h t' k = ht_lookup h t1 k) \<and>
       num_buckets t1 \<le> num_buckets t' \<and> bucket_size t' = bucket_size t1"
      by simp
    then show ?thesis using s by simp
  qed
qed

text \<open>Replacing the entries of the bucket a key maps to.\<close>

lemma ht_shape_set_items:
  fixes t :: "('k, 'v) ExtendibleHashTable"
  assumes sh: "ht_shape h t" and a: "bucket_at t (h key mod 2 ^ global_depth t) = Some a"
    and ys: "length ys \<le> bucket_size t" "distinct (map fst ys)"
      "fst ` set ys \<subseteq> insert key (fst ` set (list_B (heap t ! a)))"
    and t': "t' = t\<lparr>heap := (heap t)[a := (heap t ! a)\<lparr>list_B := ys\<rparr>]\<rparr>"
  shows "ht_shape h t' \<and>
    (\<forall>k. ht_lookup h t' k =
       (if bucket_at t (h k mod 2 ^ global_depth t) = Some a then find_items ys k else ht_lookup h t k))"
proof -
  let ?pos = "h key mod 2 ^ global_depth t"
  have len: "length (dir t) = 2 ^ global_depth t" using sh by (simp add: ht_shape_def)
  have pos: "?pos < length (dir t)" using len by simp
  from bucket_at_shape[OF sh pos] a have da: "dir t ! ?pos = Some a" and ok: "bucket_ok h t ?pos a"
    by auto
  have al: "a < length (heap t)" using ok by (simp add: bucket_ok_def)
  have heap_a: "heap t' ! a = (heap t ! a)\<lparr>list_B := ys\<rparr>" using al by (simp add: t')
  have heap_o: "heap t' ! b = heap t ! b" if "b \<noteq> a" for b using that by (simp add: t')
  have same: "dir t' = dir t" "global_depth t' = global_depth t" "bucket_size t' = bucket_size t"
    "length (heap t') = length (heap t)" by (simp_all add: t')
  let ?d = "depth_B (heap t ! a)"
  have dgd: "?d \<le> global_depth t" using ok by (simp add: bucket_ok_def)
  have keyd: "h key mod 2 ^ ?d = ?pos mod 2 ^ ?d" using mod_mod_pow[OF dgd, of "h key"] by simp
  have slot: "\<exists>b. dir t' ! i = Some b \<and> bucket_ok h t' i b" if i: "i < length (dir t)" for i
  proof -
    from ht_shape_slot[OF sh i] obtain b where b: "dir t ! i = Some b" "bucket_ok h t i b" by blast
    have "bucket_ok h t' i b"
    proof (cases "b = a")
      case False
      then show ?thesis using b(2) by (simp add: bucket_ok_def same heap_o)
    next
      case True
      have oki: "bucket_ok h t i a" using b(2) True by simp
      have im: "i mod 2 ^ ?d = ?pos mod 2 ^ ?d" using ok i b(1) True by (simp add: bucket_ok_def)
      have "\<forall>e\<in>set ys. h (fst e) mod 2 ^ ?d = i mod 2 ^ ?d"
      proof
        fix e assume e: "e \<in> set ys"
        then have "fst e = key \<or> fst e \<in> fst ` set (list_B (heap t ! a))" using ys(3) by auto
        then show "h (fst e) mod 2 ^ ?d = i mod 2 ^ ?d"
          using keyd im oki by (auto simp: bucket_ok_def)
      qed
      then show ?thesis using oki ys(1,2) True by (simp add: bucket_ok_def same heap_a)
    qed
    then show ?thesis using b(1) by (simp add: same)
  qed
  have shape: "ht_shape h t'" unfolding ht_shape_def using len slot by (simp add: same)
  have look: "ht_lookup h t' k =
       (if bucket_at t (h k mod 2 ^ global_depth t) = Some a then find_items ys k else ht_lookup h t k)" for k
  proof -
    have i: "h k mod 2 ^ global_depth t < length (dir t)" using len by simp
    from bucket_at_shape[OF sh i] obtain b where b: "bucket_at t (h k mod 2 ^ global_depth t) = Some b" by blast
    then have b': "bucket_at t' (h k mod 2 ^ global_depth t) = Some b"
      by (auto simp: bucket_at_def same split: option.splits if_splits)
    show ?thesis using b b' heap_a heap_o[of b] by (cases "b = a") (simp_all add: ht_lookup_def same)
  qed
  show ?thesis using shape look by simp
qed

lemma Find_lookup:
  assumes inv: "ht_inv h t"
  shows "Find h t k = Returns (ht_lookup h t k) t"
proof -
  have sh: "ht_shape h t" and gd: "global_depth t < 31" using inv by (simp_all add: ht_inv_def)
  have i: "h k mod 2 ^ global_depth t < length (dir t)" using sh by (simp add: ht_shape_def)
  from bucket_at_shape[OF sh i] obtain b where b: "bucket_at t (h k mod 2 ^ global_depth t) = Some b" by blast
  show ?thesis using gd b
    by (simp add: Find_def IndexOf_def and_low_mask_Suc ht_lookup_def Bucket_Find_def)
qed

lemma ht_bucket_props:
  assumes sh: "ht_shape h t" and a: "bucket_at t (h key mod 2 ^ global_depth t) = Some a"
  shows "length (list_B (heap t ! a)) \<le> bucket_size t" "distinct (map fst (list_B (heap t ! a)))"
    "size_B (heap t ! a) = bucket_size t" "a < length (heap t)"
proof -
  have pos: "h key mod 2 ^ global_depth t < length (dir t)" using sh by (simp add: ht_shape_def)
  from bucket_at_shape[OF sh pos] a have ok: "bucket_ok h t (h key mod 2 ^ global_depth t) a" by auto
  then show "length (list_B (heap t ! a)) \<le> bucket_size t" "distinct (map fst (list_B (heap t ! a)))"
    "size_B (heap t ! a) = bucket_size t" "a < length (heap t)"
    by (simp_all add: bucket_ok_def)
qed

lemma Bucket_Insert_ok:
  assumes ok: "fst (Bucket_Insert b key v)"
    and b: "length (list_B b) \<le> size_B b" "distinct (map fst (list_B b))"
  shows "\<exists>ys. snd (Bucket_Insert b key v) = b\<lparr>list_B := ys\<rparr> \<and> length ys \<le> size_B b \<and>
           distinct (map fst ys) \<and> fst ` set ys \<subseteq> insert key (fst ` set (list_B b)) \<and>
           (\<forall>k. find_items ys k = (if k = key then Some v else find_items (list_B b) k))"
proof (cases "key \<in> fst ` set (list_B b)")
  case True
  let ?ys = "snd (overwrite_items (list_B b) key v)"
  have "map fst ?ys = map fst (list_B b)" by (rule overwrite_items_keys)
  then have "length ?ys = length (list_B b)" "distinct (map fst ?ys)" "fst ` set ?ys = fst ` set (list_B b)"
    using b(2) by (metis length_map, simp, metis list.set_map)
  then show ?thesis using True b(1) overwrite_items_map_of[OF True, of v]
    by (intro exI[of _ ?ys]) (auto simp: Bucket_Insert_present find_items_map_of)
next
  case False
  then have nf: "\<not> IsFull b" using ok by (auto simp: Bucket_Insert_def overwrite_items_fst split: if_splits)
  then have lt: "length (list_B b) < size_B b" using b(1) by (simp add: IsFull_def)
  have nk: "map_of (list_B b) key = None" using False by (simp add: map_of_eq_None_iff)
  have f: "find_items (list_B b @ [(key, v)]) k = (if k = key then Some v else find_items (list_B b) k)" for k
    using nk by (cases "map_of (list_B b) k") (auto simp: find_items_map_of map_add_def)
  have d: "distinct (map fst (list_B b @ [(key, v)]))" using False b(2) by simp
  have sb: "fst ` set (list_B b @ [(key, v)]) \<subseteq> insert key (fst ` set (list_B b))" by auto
  have l: "length (list_B b @ [(key, v)]) \<le> size_B b" using lt by simp
  show ?thesis
    using f d sb l Bucket_Insert_absent[OF False nf, of v]
    by (intro exI[of _ "list_B b @ [(key, v)]"]) simp
qed

lemma Insert_inv:
  fixes t :: "('k, 'v) ExtendibleHashTable"
  assumes inv: "ht_inv h t" and ins: "Insert h t key v = Returns x t'"
  shows "ht_inv h t' \<and> (\<forall>k. ht_lookup h t' k = (if k = key then Some v else ht_lookup h t k)) \<and>
         num_buckets t \<le> num_buckets t' \<and> bucket_size t' = bucket_size t"
proof -
  have sh: "ht_shape h t" and gd: "global_depth t < 31" using inv by (simp_all add: ht_inv_def)
  have i: "h key mod 2 ^ global_depth t < length (dir t)" using sh by (simp add: ht_shape_def)
  from bucket_at_shape[OF sh i] obtain a where a: "bucket_at t (h key mod 2 ^ global_depth t) = Some a" by blast
  have fin: "ht_inv h t2 \<and> (\<forall>k. ht_lookup h t2 k = (if k = key then Some v else ht_lookup h t1 k)) \<and>
       num_buckets t2 = num_buckets t1 \<and> bucket_size t2 = bucket_size t1"
    if inv1: "ht_inv h t1" and a1: "bucket_at t1 (h key mod 2 ^ global_depth t1) = Some a1"
      and ok: "fst (Bucket_Insert (heap t1 ! a1) key v)"
      and t2: "t2 = t1\<lparr>heap := (heap t1)[a1 := snd (Bucket_Insert (heap t1 ! a1) key v)]\<rparr>"
    for t1 t2 :: "('k, 'v) ExtendibleHashTable" and a1
  proof -
    have sh1: "ht_shape h t1" using inv1 by (simp add: ht_inv_def)
    note bp = ht_bucket_props[OF sh1 a1]
    from Bucket_Insert_ok[OF ok, unfolded bp(3), OF bp(1,2)] obtain ys where
      ys: "snd (Bucket_Insert (heap t1 ! a1) key v) = (heap t1 ! a1)\<lparr>list_B := ys\<rparr>"
        "length ys \<le> bucket_size t1" "distinct (map fst ys)"
        "fst ` set ys \<subseteq> insert key (fst ` set (list_B (heap t1 ! a1)))"
        "\<And>k. find_items ys k = (if k = key then Some v else find_items (list_B (heap t1 ! a1)) k)"
      by blast
    have t2': "t2 = t1\<lparr>heap := (heap t1)[a1 := (heap t1 ! a1)\<lparr>list_B := ys\<rparr>]\<rparr>" by (simp add: t2 ys(1))
    note r = ht_shape_set_items[OF sh1 a1 ys(2,3,4) t2']
    have look: "ht_lookup h t2 k = (if k = key then Some v else ht_lookup h t1 k)" for k
    proof (cases "bucket_at t1 (h k mod 2 ^ global_depth t1) = Some a1")
      case True
      then show ?thesis using r ys(5)[of k] by (simp add: ht_lookup_def)
    next
      case False
      then have "k \<noteq> key" using a1 by auto
      then show ?thesis using r False by simp
    qed
    show ?thesis using r look inv1 by (simp add: ht_inv_def t2')
  qed
  show ?thesis
  proof (cases "fst (Bucket_Insert (heap t ! a) key v)")
    case True
    then have "t' = t\<lparr>heap := (heap t)[a := snd (Bucket_Insert (heap t ! a) key v)]\<rparr>"
      using ins a gd by (simp add: Insert_def IndexOf_def and_low_mask_Suc)
    from fin[OF inv a True this] show ?thesis by simp
  next
    case False
    then obtain t1 a1 where lp: "split_loop h key t a = Some (t1, a1)"
      and t': "t' = t1\<lparr>heap := (heap t1)[a1 := snd (Bucket_Insert (heap t1 ! a1) key v)]\<rparr>"
      using ins a gd by (auto simp: Insert_def IndexOf_def and_low_mask_Suc split: option.splits)
    note l = split_loop_inv[OF inv a lp]
    have "fst (Bucket_Insert (heap t1 ! a1) key v)"
      using l by (simp add: Bucket_Insert_def)
    from fin[OF _ _ this t'] l show ?thesis by simp
  qed
qed

lemma Remove_ht_inv:
  fixes t :: "('k, 'v) ExtendibleHashTable"
  assumes inv: "ht_inv h t" and rm: "Remove_ht h t key = Returns x t'"
  shows "ht_inv h t' \<and> (\<forall>k. ht_lookup h t' k = (if k = key then None else ht_lookup h t k)) \<and>
         num_buckets t' = num_buckets t \<and> bucket_size t' = bucket_size t"
proof -
  have sh: "ht_shape h t" and gd: "global_depth t < 31" using inv by (simp_all add: ht_inv_def)
  have i: "h key mod 2 ^ global_depth t < length (dir t)" using sh by (simp add: ht_shape_def)
  from bucket_at_shape[OF sh i] obtain a where a: "bucket_at t (h key mod 2 ^ global_depth t) = Some a" by blast
  note bp = ht_bucket_props[OF sh a]
  let ?ys = "snd (remove_items (list_B (heap t ! a)) key)"
  have t': "t' = t\<lparr>heap := (heap t)[a := (heap t ! a)\<lparr>list_B := ?ys\<rparr>]\<rparr>"
    using rm a gd by (simp add: Remove_ht_def IndexOf_def and_low_mask_Suc Bucket_Remove_def)
  have ys: "length ?ys \<le> bucket_size t" "distinct (map fst ?ys)"
    "fst ` set ?ys \<subseteq> insert key (fst ` set (list_B (heap t ! a)))"
    using bp(1,2) remove_items_length[of "list_B (heap t ! a)" key]
      remove_items_subset[of "list_B (heap t ! a)" key]
    by (auto simp: remove_items_distinct)
  note r = ht_shape_set_items[OF sh a ys t']
  have look: "ht_lookup h t' k = (if k = key then None else ht_lookup h t k)" for k
  proof (cases "bucket_at t (h k mod 2 ^ global_depth t) = Some a")
    case True
    then show ?thesis using r remove_items_map_of[OF bp(2), of key]
      by (simp add: ht_lookup_def find_items_map_of)
  next
    case False
    then have "k \<noteq> key" using a by auto
    then show ?thesis using r False by simp
  qed
  show ?thesis using r look inv by (simp add: ht_inv_def t')
qed

lemma ht_inv_new: "ht_inv h (ExtendibleHashTable_new bsz)"
  by (simp add: ht_inv_def ht_shape_def bucket_ok_def ExtendibleHashTable_new_def Bucket_new_def)

lemma ht_lookup_new: "ht_lookup h (ExtendibleHashTable_new bsz) k = None"
  by (simp add: ht_lookup_def bucket_at_def ExtendibleHashTable_new_def Bucket_new_def)

lemma ht_step_cases:
  assumes inv: "ht_inv h t" and st: "ht_step h t op = Some t'"
  shows "ht_inv h t' \<and> num_buckets t \<le> num_buckets t' \<and> bucket_size t' = bucket_size t \<and>
    (\<forall>k. ht_lookup h t' k =
       (case op of HtInsert k' v \<Rightarrow> if k = k' then Some v else ht_lookup h t k
        | HtRemove k' \<Rightarrow> if k = k' then None else ht_lookup h t k
        | HtFind k' \<Rightarrow> ht_lookup h t k))"
proof (cases op)
  case (HtInsert k' v)
  then obtain x where "Insert h t k' v = Returns x t'"
    using st by (auto simp: ht_step_def split: outcome.splits)
  from Insert_inv[OF inv this] show ?thesis by (auto simp: HtInsert)
next
  case (HtRemove k')
  then obtain x where "Remove_ht h t k' = Returns x t'"
    using st by (auto simp: ht_step_def split: outcome.splits)
  from Remove_ht_inv[OF inv this] show ?thesis by (auto simp: HtRemove)
next
  case (HtFind k')
  then have "t' = t" using st Find_lookup[OF inv, of k'] by (simp add: ht_step_def)
  then show ?thesis using inv by (simp add: HtFind)
qed

lemma ht_run_snoc:
  "ht_run h t (ops @ [op]) = (case ht_run h t ops of None \<Rightarrow> None | Some t' \<Rightarrow> ht_step h t' op)"
  by (induction ops arbitrary: t) (auto split: option.splits)

lemma ht_run_inv:
  "ht_inv h t0 \<Longrightarrow> (\<forall>k. ht_lookup h t0 k = None) \<Longrightarrow> ht_run h t0 ops = Some t \<Longrightarrow>
     ht_inv h t \<and> bucket_size t = bucket_size t0 \<and> num_buckets t0 \<le> num_buckets t \<and>
     (\<forall>k. ht_lookup h t k = ht_model ops k)"
proof (induction ops arbitrary: t rule: rev_induct)
  case Nil
  then show ?case by (simp add: ht_model_def)
next
  case (snoc op ops)
  from snoc.prems(3) obtain t1 where r: "ht_run h t0 ops = Some t1" and s: "ht_step h t1 op = Some t"
    by (auto simp: ht_run_snoc split: option.splits)
  note ih = snoc.IH[OF snoc.prems(1,2) r]
  from ih have inv1: "ht_inv h t1" by simp
  note c = ht_step_cases[OF inv1 s]
  have "ht_lookup h t k = ht_model (ops @ [op]) k" for k
    using c ih by (cases op) (auto simp: ht_model_def)
  then show ?case using c ih by simp
qed


lemmas ht_eval = ht_example_ops_def ht_step_def Insert_def IndexOf_def bucket_at_def
  Bucket_Insert_def IsFull_def Find_def Bucket_Find_def Remove_ht_def Bucket_Remove_def
  ExtendibleHashTable_new_def Bucket_new_def std_hash_int_def split_loop.simps split_step_def
  repoint.simps

section \<open>Single operations of the buffer pool\<close>

lemma Find_state: "Find h t k = Returns v t' \<Longrightarrow> t' = t"
  by (auto simp: Find_def split: option.splits)

lemma SetEvictable_Returns:
  "\<not> f > static_cast_int (replacer_size r) \<Longrightarrow>
   \<exists>r'. SetEvictable r f b = Returns () r' \<and> evictable (frame_map r' f) = b
      \<and> count (frame_map r' f) = count (frame_map r f)
      \<and> current_timestamp r' = current_timestamp r
      \<and> hist_list r' = hist_list r \<and> cache_list r' = cache_list r"
  by (auto simp: SetEvictable_def Let_def)

lemma with_replacer_Returns:
  "with_replacer s m k = Returns y s' \<longleftrightarrow> (\<exists>x r. m = Returns x r \<and> k x (s\<lparr>replacer := r\<rparr>) = Returns y s')"
  by (cases m) (auto simp: with_replacer_def)

lemma with_page_table_Returns:
  "with_page_table s m k = Returns y s' \<longleftrightarrow> (\<exists>x t. m = Returns x t \<and> k x (s\<lparr>page_table := t\<rparr>) = Returns y s')"
  by (cases m) (auto simp: with_page_table_def)

lemma acquire_frame_evict:
  assumes fl: "free_list s = []" and ev: "Evict (replacer s) = Returns (Some f) r'"
    and aq: "acquire_frame h s = Returns v s1"
  shows "v = Some f \<and> frame_ok s f \<and> pages s1 = pages s \<and> next_page_id s1 = next_page_id s \<and>
         free_list s1 = [] \<and> replacer s1 = r' \<and> pool_size s1 = pool_size s \<and>
         disk_manager s1 =
           (if is_dirty (pages s ! nat f)
            then WritePage (disk_manager s) (page_id (pages s ! nat f)) (data (pages s ! nat f))
            else disk_manager s) \<and>
         (\<exists>b. Remove_ht h (page_table s) (page_id (pages s ! nat f)) = Returns b (page_table s1))"
  using aq fl ev
  by (auto simp: acquire_frame_def with_replacer_def with_page_table_Returns Let_def frame_ok_def
           split: if_splits)

lemma fetch_tail_fields:
  "fetch_tail s f = Returns y s' \<Longrightarrow>
     y = Some f \<and> disk_manager s' = disk_manager s \<and> pages s' = pages s \<and> page_table s' = page_table s
     \<and> free_list s' = free_list s \<and> next_page_id s' = next_page_id s \<and> pool_size s' = pool_size s"
  by (auto simp: fetch_tail_def with_replacer_Returns)


lemma RecordAccess_effect':
  "RecordAccess r f = Returns x r' \<Longrightarrow>
     count (frame_map r' f) = inc64 (count (frame_map r f)) \<and>
     current_timestamp r' = inc64 (current_timestamp r) \<and>
     \<not> f > static_cast_int (replacer_size r')"
  using RecordAccess_effect[of r f x r'] by simp


lemmas bpm_eval = NewPgImp_def acquire_frame_def frame_ok_def set_page_def with_replacer_def
  with_page_table_def Insert_def IndexOf_def bucket_at_def Bucket_Insert_def IsFull_def
  Find_def Bucket_Find_def Remove_ht_def Bucket_Remove_def ResetMemory_def
  BufferPoolManagerInstance_new_def ExtendibleHashTable_new_def Bucket_new_def Page_new_def
  UnpinPgImp_def FetchPgImp_def fetch_tail_def std_hash_int_def DiskManager_empty_def
  Evict_def first_evictable_def evict_frame_def WritePage_def ReadPage_def INVALID_PAGE_ID_def
  DeletePgImp_def FlushPgImp_def

lemma bpm_one_dirty_eq:
  "bpm_one_dirty =
    \<lparr>pool_size = 1,
     pages = [\<lparr>page_id = 0, pin_count = 0, is_dirty = True, data = zeroed\<rparr>],
     page_table = \<lparr>global_depth = 0, bucket_size = 2, num_buckets = 1, dir = [Some 0],
                    heap = [\<lparr>size_B = 2, depth_B = 0, list_B = [(0, 0)]\<rparr>]\<rparr>,
     replacer = \<lparr>replacer_size = 1, replacer_k = 2,
                  frame_map = (\<lambda>_. FrameInfo_default True)
                      (0 := \<lparr>count = 1, kth = 0, evictable = True, it = HistNode (1, 0)\<rparr>),
                  frame_time = [[1], []], hist_list = [(1, 0)], cache_list = [],
                  current_timestamp = 1, curr_size = 1\<rparr>,
     free_list = [], next_page_id = 1, disk_manager = DiskManager_empty\<rparr>"
  by (simp add: bpm_one_dirty_def bpm_eval replacer_eval upt_rec)


section \<open>The buffer pool keeps its invariant\<close>

lemma bpm_invD:
  assumes "bpm_inv h s"
  shows "length (pages s) < 2 ^ 31" "replacer_size (replacer s) = length (pages s)"
    "ht_inv h (page_table s)"
    "\<And>pid f. ht_lookup h (page_table s) pid = Some f \<Longrightarrow>
        frame_ok s f \<and> page_id (pages s ! nat f) = pid \<and> f \<notin> set (free_list s)"
    "distinct (free_list s)"
    "\<And>f. f \<in> set (free_list s) \<Longrightarrow> frame_ok s f \<and> pin_count (pages s ! nat f) = 0"
    "\<And>f. frame_ok s f \<Longrightarrow> 0 \<le> pin_count (pages s ! nat f)"
    "\<And>f. frame_ok s f \<Longrightarrow> 0 < pin_count (pages s ! nat f) \<Longrightarrow> \<not> evictable (frame_map (replacer s) f)"
  using assms by (simp_all add: bpm_inv_def)

lemma frame_ok_len: "length (pages s') = length (pages s) \<Longrightarrow> frame_ok s' f = frame_ok s f"
  by (simp add: frame_ok_def)

text \<open>Operations that leave the page table and the free list as they are.\<close>

lemma bpm_inv_same_table:
  assumes inv: "bpm_inv h s"
    and ht: "ht_inv h (page_table s')" "\<And>p. ht_lookup h (page_table s') p = ht_lookup h (page_table s) p"
    and fl: "free_list s' = free_list s"
    and len: "length (pages s') = length (pages s)"
    and rs: "replacer_size (replacer s') = replacer_size (replacer s)"
    and pg: "\<And>g. frame_ok s g \<Longrightarrow>
        page_id (pages s' ! nat g) = page_id (pages s ! nat g) \<and>
        data (pages s' ! nat g) = data (pages s ! nat g) \<and>
        0 \<le> pin_count (pages s' ! nat g) \<and>
        (g \<in> set (free_list s) \<longrightarrow> pin_count (pages s' ! nat g) = 0) \<and>
        (0 < pin_count (pages s' ! nat g) \<longrightarrow> \<not> evictable (frame_map (replacer s') g))"
  shows "bpm_inv h s'" and "\<And>g. frame_ok s g \<Longrightarrow> 0 < pin_count (pages s ! nat g) \<Longrightarrow> kept s s' g"
proof -
  note d = bpm_invD[OF inv]
  note ok = frame_ok_len[OF len]
  have 1: "length (pages s') < 2 ^ 31 \<and> replacer_size (replacer s') = length (pages s')"
    using d(1,2) len rs by simp
  have 2: "\<forall>pid f. ht_lookup h (page_table s') pid = Some f \<longrightarrow>
        frame_ok s' f \<and> page_id (pages s' ! nat f) = pid \<and> f \<notin> set (free_list s')"
    using d(4) pg by (simp add: ht(2) fl ok)
  have 3: "distinct (free_list s')" using d(5) fl by simp
  have 4: "\<forall>f\<in>set (free_list s'). frame_ok s' f \<and> pin_count (pages s' ! nat f) = 0"
    using d(6) pg by (simp add: fl ok)
  have 5: "\<forall>f. frame_ok s' f \<longrightarrow>
        0 \<le> pin_count (pages s' ! nat f) \<and>
        (0 < pin_count (pages s' ! nat f) \<longrightarrow> \<not> evictable (frame_map (replacer s') f))"
    using pg by (simp add: ok)
  show "bpm_inv h s'" unfolding bpm_inv_def using 1 ht(1) 2 3 4 5 by blast
  show "kept s s' g" if "frame_ok s g" "0 < pin_count (pages s ! nat g)" for g
    using that pg[OF that(1)] d(6)[of g] by (auto simp: kept_def ok fl)
qed

text \<open>A frame taken from the free list or from the replacer receives a page.\<close>

lemma bpm_inv_install:
  assumes inv: "bpm_inv h s"
    and f: "frame_ok s f" "pin_count (pages s ! nat f) = 0" "f \<notin> set (free_list s')"
    and fl: "set (free_list s') \<subseteq> set (free_list s)" "distinct (free_list s')"
    and len: "length (pages s') = length (pages s)"
    and rs: "replacer_size (replacer s') = replacer_size (replacer s)"
    and oth: "\<And>g. frame_ok s g \<Longrightarrow> g \<noteq> f \<Longrightarrow> pages s' ! nat g = pages s ! nat g"
    and new: "page_id (pages s' ! nat f) = pid" "pin_count (pages s' ! nat f) = 1"
    and ht: "ht_inv h (page_table s')"
    and pt: "\<And>p. p \<noteq> pid \<Longrightarrow> ht_lookup h (page_table s') p = None \<or>
               (ht_lookup h (page_table s') p = ht_lookup h (page_table s) p \<and>
                ht_lookup h (page_table s) p \<noteq> Some f)"
            "ht_lookup h (page_table s') pid = Some f"
    and fg: "\<And>g. g \<noteq> f \<Longrightarrow> evictable (frame_map (replacer s') g) = evictable (frame_map (replacer s) g)"
            "\<not> evictable (frame_map (replacer s') f)"
  shows "bpm_inv h s'"
    and "\<And>g. frame_ok s g \<Longrightarrow> 0 < pin_count (pages s ! nat g) \<Longrightarrow>
            kept s s' g \<and> g \<noteq> f \<and> pin_count (pages s' ! nat g) = pin_count (pages s ! nat g)"
proof -
  note d = bpm_invD[OF inv]
  note ok = frame_ok_len[OF len]
  have 1: "length (pages s') < 2 ^ 31 \<and> replacer_size (replacer s') = length (pages s')"
    using d(1,2) len rs by simp
  have 2: "frame_ok s' g \<and> page_id (pages s' ! nat g) = p \<and> g \<notin> set (free_list s')"
    if "ht_lookup h (page_table s') p = Some g" for p g
  proof (cases "p = pid")
    case True
    then have "g = f" using that pt(2) by simp
    then show ?thesis using True f new by (simp add: ok)
  next
    case False
    from pt(1)[OF False] that have a: "ht_lookup h (page_table s) p = Some g" "g \<noteq> f" by auto
    from d(4)[OF a(1)] oth[of g] a(2) fl(1) show ?thesis by (auto simp: ok)
  qed
  have 4: "\<forall>g\<in>set (free_list s'). frame_ok s' g \<and> pin_count (pages s' ! nat g) = 0"
  proof
    fix g assume g: "g \<in> set (free_list s')"
    then have "g \<in> set (free_list s)" "g \<noteq> f" using fl(1) f(3) by auto
    then show "frame_ok s' g \<and> pin_count (pages s' ! nat g) = 0"
      using d(6)[of g] oth[of g] by (simp add: ok)
  qed
  have 5: "0 \<le> pin_count (pages s' ! nat g) \<and>
        (0 < pin_count (pages s' ! nat g) \<longrightarrow> \<not> evictable (frame_map (replacer s') g))"
    if "frame_ok s' g" for g
  proof (cases "g = f")
    case True
    then show ?thesis using new fg(2) by simp
  next
    case False
    then show ?thesis using that d(7)[of g] d(8)[of g] oth[of g] fg(1)[of g] by (simp add: ok)
  qed
  show "bpm_inv h s'" unfolding bpm_inv_def using 1 ht 2 fl(2) 4 5 by blast
  show "kept s s' g \<and> g \<noteq> f \<and> pin_count (pages s' ! nat g) = pin_count (pages s ! nat g)"
    if "frame_ok s g" "0 < pin_count (pages s ! nat g)" for g
  proof -
    have "g \<noteq> f" using that(2) f(2) by auto
    moreover have "g \<notin> set (free_list s)" using d(6)[of g] that(2) by auto
    ultimately show ?thesis using that(1) oth[of g] fl(1) by (auto simp: kept_def ok)
  qed
qed

text \<open>A resident frame with pin count 0 is returned to the free list.\<close>

lemma bpm_inv_delete:
  assumes inv: "bpm_inv h s"
    and f: "ht_lookup h (page_table s) pid = Some f" "pin_count (pages s ! nat f) \<le> 0"
    and fl: "free_list s' = free_list s @ [f]"
    and len: "length (pages s') = length (pages s)"
    and rs: "replacer_size (replacer s') = replacer_size (replacer s)"
    and oth: "\<And>g. frame_ok s g \<Longrightarrow> g \<noteq> f \<Longrightarrow> pages s' ! nat g = pages s ! nat g"
    and new: "pin_count (pages s' ! nat f) = 0"
    and ht: "ht_inv h (page_table s')"
    and pt: "\<And>p. ht_lookup h (page_table s') p = (if p = pid then None else ht_lookup h (page_table s) p)"
    and fg: "\<And>g. g \<noteq> f \<Longrightarrow> evictable (frame_map (replacer s') g) = evictable (frame_map (replacer s) g)"
  shows "bpm_inv h s'"
    and "\<And>g. frame_ok s g \<Longrightarrow> 0 < pin_count (pages s ! nat g) \<Longrightarrow>
            kept s s' g \<and> g \<noteq> f \<and> pin_count (pages s' ! nat g) = pin_count (pages s ! nat g)"
proof -
  note d = bpm_invD[OF inv]
  note ok = frame_ok_len[OF len]
  note df = d(4)[OF f(1)]
  have 1: "length (pages s') < 2 ^ 31 \<and> replacer_size (replacer s') = length (pages s')"
    using d(1,2) len rs by simp
  have 2: "frame_ok s' g \<and> page_id (pages s' ! nat g) = p \<and> g \<notin> set (free_list s')"
    if "ht_lookup h (page_table s') p = Some g" for p g
  proof -
    have a: "p \<noteq> pid" "ht_lookup h (page_table s) p = Some g" using that pt[of p] by (auto split: if_splits)
    have "g \<noteq> f" using d(4)[OF a(2)] df a(1) by auto
    then show ?thesis using d(4)[OF a(2)] oth[of g] by (simp add: ok fl)
  qed
  have 3: "distinct (free_list s')" using d(5) df by (simp add: fl)
  have 4: "\<forall>g\<in>set (free_list s'). frame_ok s' g \<and> pin_count (pages s' ! nat g) = 0"
  proof
    fix g assume g: "g \<in> set (free_list s')"
    show "frame_ok s' g \<and> pin_count (pages s' ! nat g) = 0"
    proof (cases "g = f")
      case True
      then show ?thesis using df new by (simp add: ok)
    next
      case False
      then have "g \<in> set (free_list s)" using g by (simp add: fl)
      then show ?thesis using d(6)[of g] oth[of g] False by (simp add: ok)
    qed
  qed
  have 5: "0 \<le> pin_count (pages s' ! nat g) \<and>
        (0 < pin_count (pages s' ! nat g) \<longrightarrow> \<not> evictable (frame_map (replacer s') g))"
    if "frame_ok s' g" for g
  proof (cases "g = f")
    case True
    then show ?thesis using new by simp
  next
    case False
    then show ?thesis using that d(7)[of g] d(8)[of g] oth[of g] fg[of g] by (simp add: ok)
  qed
  show "bpm_inv h s'" unfolding bpm_inv_def using 1 ht 2 3 4 5 by blast
  show "kept s s' g \<and> g \<noteq> f \<and> pin_count (pages s' ! nat g) = pin_count (pages s ! nat g)"
    if "frame_ok s g" "0 < pin_count (pages s ! nat g)" for g
  proof -
    have "g \<noteq> f" using that(2) f(2) by auto
    moreover have "g \<notin> set (free_list s)" using d(6)[of g] that(2) by auto
    ultimately show ?thesis using that(1) oth[of g] by (auto simp: kept_def ok fl)
  qed
qed

lemma Evict_flags:
  assumes "Evict r = Returns v r'"
  shows "\<forall>g. evictable (frame_map r' g) = evictable (frame_map r g)"
    "replacer_size r' = replacer_size r" "\<And>f. v = Some f \<Longrightarrow> evictable (frame_map r f)"
    "v = None \<Longrightarrow> r' = r"
  using Evict_cases[OF assms] by (auto simp: evict_frame_def dest: first_evictable_Some split: if_splits)

lemma Remove_flags:
  assumes "Remove r f = Returns x r'"
  shows "\<forall>g. evictable (frame_map r' g) = evictable (frame_map r g)"
    "replacer_size r' = replacer_size r"
  using Remove_cases[OF assms] by (auto split: if_splits)

lemma Remove_Throws_flag: "Remove r f = Throws e r' \<Longrightarrow> \<not> evictable (frame_map r f)"
  by (auto simp: Remove_def Let_def remove_frame_def split: if_splits list_iter.splits)

lemma SetEvictable_Throws_iff:
  "SetEvictable r f b = Throws e r' \<Longrightarrow> f > static_cast_int (replacer_size r)"
  by (auto simp: SetEvictable_def Let_def split: if_splits)

lemma SetEvictable_flags:
  assumes "SetEvictable r f b = Returns x r'"
  shows "\<And>g. evictable (frame_map r' g) = (if g = f then b else evictable (frame_map r g))"
    "replacer_size r' = replacer_size r"
  using SetEvictable_explicit[OF assms] SetEvictable_fields[OF assms] by auto

lemma RecordAccess_flags':
  assumes "RecordAccess r f = Returns x r'"
  shows "\<And>g. evictable (frame_map r' g) = evictable (frame_map r g)"
    "replacer_size r' = replacer_size r"
  using RecordAccess_flags[OF assms] RecordAccess_effect[OF assms] by auto

lemma Find_no_Throws: "Find h t k \<noteq> Throws e t'"
  by (auto simp: Find_def split: option.splits)

lemma Remove_ht_no_Throws: "Remove_ht h t k \<noteq> Throws e t'"
  by (auto simp: Remove_ht_def split: option.splits)

lemma Insert_no_Throws: "Insert h t k v \<noteq> Throws e t'"
  by (auto simp: Insert_def split: option.splits if_splits)

lemma with_replacer_Throws:
  "with_replacer s m k = Throws e s' \<longleftrightarrow>
     (\<exists>r. m = Throws e r \<and> s' = s\<lparr>replacer := r\<rparr>) \<or>
     (\<exists>x r. m = Returns x r \<and> k x (s\<lparr>replacer := r\<rparr>) = Throws e s')"
  by (cases m) (auto simp: with_replacer_def)

lemma with_page_table_Throws:
  "with_page_table s m k = Throws e s' \<longleftrightarrow>
     (\<exists>t. m = Throws e t \<and> s' = s\<lparr>page_table := t\<rparr>) \<or>
     (\<exists>x t. m = Returns x t \<and> k x (s\<lparr>page_table := t\<rparr>) = Throws e s')"
  by (cases m) (auto simp: with_page_table_def)

lemma frame_in_replacer_range:
  assumes "bpm_inv h s" "frame_ok s f"
  shows "\<not> f > static_cast_int (replacer_size (replacer s))"
proof -
  note d = bpm_invD[OF assms(1)]
  have "static_cast_int (replacer_size (replacer s)) = int (length (pages s))"
    using d(1,2) by (simp add: static_cast_int_small)
  then show ?thesis using assms(2) unfolding frame_ok_def by linarith
qed

lemma nat_frame_neq: "frame_ok s f \<Longrightarrow> frame_ok s g \<Longrightarrow> g \<noteq> f \<Longrightarrow> nat g \<noteq> nat f"
  by (simp add: frame_ok_def nat_eq_in_range)

lemma acquire_frame_no_Throws: "acquire_frame h s \<noteq> Throws e s1"
  by (auto simp: acquire_frame_def with_replacer_Throws with_page_table_Throws Evict_Throws
        Remove_ht_no_Throws Let_def split: if_splits option.splits)

lemma acquire_frame_None:
  assumes aq: "acquire_frame h s = Returns None s1"
  shows "s1 = s"
proof -
  have fl: "free_list s = []" using aq by (auto simp: acquire_frame_def split: if_splits)
  show ?thesis
  proof (cases "Evict (replacer s)")
    case (Returns x r)
    show ?thesis
    proof (cases x)
      case None
      then have "r = replacer s" using Evict_flags(4)[OF Returns] by simp
      then show ?thesis using aq fl Returns None by (simp add: acquire_frame_def with_replacer_def)
    next
      case (Some f)
      then show ?thesis using aq fl Returns
        by (auto simp: acquire_frame_def with_replacer_def with_page_table_Returns Let_def
              split: if_splits)
    qed
  next
    case (Throws e r)
    then show ?thesis using aq fl by (simp add: acquire_frame_def with_replacer_def)
  next
    case Undefined
    then show ?thesis using aq fl by (simp add: acquire_frame_def with_replacer_def)
  qed
qed

lemma acquire_frame_Some:
  assumes inv: "bpm_inv h s" and aq: "acquire_frame h s = Returns (Some f) s1"
  shows "frame_ok s f" "pin_count (pages s ! nat f) = 0" "pages s1 = pages s"
    "ht_inv h (page_table s1)"
    "\<And>p. ht_lookup h (page_table s1) p = None \<or>
          (ht_lookup h (page_table s1) p = ht_lookup h (page_table s) p \<and>
           ht_lookup h (page_table s) p \<noteq> Some f)"
    "set (free_list s1) \<subseteq> set (free_list s)" "distinct (free_list s1)" "f \<notin> set (free_list s1)"
    "\<And>g. evictable (frame_map (replacer s1) g) = evictable (frame_map (replacer s) g)"
    "replacer_size (replacer s1) = replacer_size (replacer s)"
    "next_page_id s1 = next_page_id s"
proof -
  note d = bpm_invD[OF inv]
  have "frame_ok s f \<and> pin_count (pages s ! nat f) = 0 \<and> pages s1 = pages s \<and>
    ht_inv h (page_table s1) \<and>
    (\<forall>p. ht_lookup h (page_table s1) p = None \<or>
          (ht_lookup h (page_table s1) p = ht_lookup h (page_table s) p \<and>
           ht_lookup h (page_table s) p \<noteq> Some f)) \<and>
    set (free_list s1) \<subseteq> set (free_list s) \<and> distinct (free_list s1) \<and> f \<notin> set (free_list s1) \<and>
    (\<forall>g. evictable (frame_map (replacer s1) g) = evictable (frame_map (replacer s) g)) \<and>
    replacer_size (replacer s1) = replacer_size (replacer s) \<and>
    next_page_id s1 = next_page_id s"
  proof (cases "free_list s = []")
    case False
    then obtain f0 fs where fl: "free_list s = f0 # fs" by (cases "free_list s") auto
    from aq fl have e: "f = f0" "frame_ok s f0" "s1 = s\<lparr>free_list := fs\<rparr>"
      by (auto simp: acquire_frame_def split: if_splits)
    have pin: "pin_count (pages s ! nat f) = 0" using d(6)[of f] fl e(1) by simp
    have np: "ht_lookup h (page_table s) p \<noteq> Some f" for p using d(4)[of p f] fl e(1) by auto
    show ?thesis using e pin np d(3,5) fl by auto
  next
    case True
    from aq True obtain r' where ev: "Evict (replacer s) = Returns (Some f) r'"
      by (auto simp: acquire_frame_def with_replacer_Returns with_page_table_Returns Let_def
            split: if_splits option.splits)
    note a = acquire_frame_evict[OF True ev aq]
    note fl = Evict_flags[OF ev]
    have ok: "frame_ok s f" using a by simp
    have pin: "pin_count (pages s ! nat f) = 0" using d(7)[OF ok] d(8)[OF ok] fl(3) by force
    from a obtain b where rm: "Remove_ht h (page_table s) (page_id (pages s ! nat f)) = Returns b (page_table s1)"
      by blast
    note R = Remove_ht_inv[OF d(3) rm]
    have pt: "ht_lookup h (page_table s1) p = None \<or>
          (ht_lookup h (page_table s1) p = ht_lookup h (page_table s) p \<and>
           ht_lookup h (page_table s) p \<noteq> Some f)" for p
      using R d(4)[of p f] by auto
    show ?thesis using a ok pin R pt fl(1,2) by simp
  qed
  then show "frame_ok s f" "pin_count (pages s ! nat f) = 0" "pages s1 = pages s"
    "ht_inv h (page_table s1)"
    "\<And>p. ht_lookup h (page_table s1) p = None \<or>
          (ht_lookup h (page_table s1) p = ht_lookup h (page_table s) p \<and>
           ht_lookup h (page_table s) p \<noteq> Some f)"
    "set (free_list s1) \<subseteq> set (free_list s)" "distinct (free_list s1)" "f \<notin> set (free_list s1)"
    "\<And>g. evictable (frame_map (replacer s1) g) = evictable (frame_map (replacer s) g)"
    "replacer_size (replacer s1) = replacer_size (replacer s)"
    "next_page_id s1 = next_page_id s"
    by blast+
qed

lemma pin_frame:
  assumes r: "\<not> f > static_cast_int (replacer_size (replacer s))"
    and out: "with_replacer s (RecordAccess (replacer s) f)
               (\<lambda>_ s1. with_replacer s1 (SetEvictable (replacer s1) f False) (\<lambda>_. K)) = out"
    and nu: "out \<noteq> Undefined"
  shows "\<exists>r'. out = K (s\<lparr>replacer := r'\<rparr>) \<and>
           (\<forall>g. evictable (frame_map r' g) = (g \<noteq> f \<and> evictable (frame_map (replacer s) g))) \<and>
           replacer_size r' = replacer_size (replacer s)"
proof (cases "RecordAccess (replacer s) f")
  case (Returns y r3)
  note ra = RecordAccess_flags'[OF Returns]
  show ?thesis
  proof (cases "SetEvictable r3 f False")
    case se: (Returns z r4)
    note sf = SetEvictable_flags[OF se]
    have "out = K (s\<lparr>replacer := r4\<rparr>)"
      using out Returns se by (simp add: with_replacer_def)
    then show ?thesis using ra sf by (intro exI[of _ r4]) auto
  next
    case (Throws e r4)
    then show ?thesis using SetEvictable_Throws_iff[OF Throws] ra(2) r by simp
  next
    case Undefined
    then show ?thesis using out nu Returns by (simp add: with_replacer_def)
  qed
next
  case (Throws e r3)
  then show ?thesis using r by (simp add: RecordAccess_Throws)
next
  case Undefined
  then show ?thesis using out nu by (simp add: with_replacer_def)
qed

lemma insert_entry:
  assumes ht: "ht_inv h (page_table s)"
    and out: "with_page_table s (Insert h (page_table s) pid f) (\<lambda>_. K) = out"
    and nu: "out \<noteq> Undefined"
  shows "\<exists>t. out = K (s\<lparr>page_table := t\<rparr>) \<and> ht_inv h t \<and>
           (\<forall>p. ht_lookup h t p = (if p = pid then Some f else ht_lookup h (page_table s) p))"
proof (cases "Insert h (page_table s) pid f")
  case (Returns y t)
  have "out = K (s\<lparr>page_table := t\<rparr>)" using out Returns by (simp add: with_page_table_def)
  then show ?thesis using Insert_inv[OF ht Returns] by auto
next
  case (Throws e t)
  then show ?thesis by (simp add: Insert_no_Throws)
next
  case Undefined
  then show ?thesis using out nu by (simp add: with_page_table_def)
qed

lemma find_entry:
  assumes ht: "ht_inv h (page_table s)"
  shows "with_page_table s (Find h (page_table s) pid) K = K (ht_lookup h (page_table s) pid) s"
  by (simp add: Find_lookup[OF ht] with_page_table_def)

lemma kept_refl:
  assumes "bpm_inv h s" "frame_ok s g" "0 < pin_count (pages s ! nat g)"
  shows "kept s s g"
  using assms bpm_invD(6)[OF assms(1), of g] by (auto simp: kept_def)

lemma NewPgImp_safe:
  assumes inv: "bpm_inv h s" and st: "state_after (NewPgImp h s) = Some s'"
  shows "bpm_inv h s' \<and>
    (\<forall>g. frame_ok s g \<and> 0 < pin_count (pages s ! nat g) \<longrightarrow>
        kept s s' g \<and> pin_count (pages s' ! nat g) = pin_count (pages s ! nat g) \<and>
        (\<forall>pid. NewPgImp h s \<noteq> Returns (Some (pid, g)) s'))"
proof -
  note d = bpm_invD[OF inv]
  have nu: "NewPgImp h s \<noteq> Undefined" using st by (auto simp: state_after_def)
  show ?thesis
  proof (cases "acquire_frame h s")
    case (Returns v s1)
    show ?thesis
    proof (cases v)
      case None
      then have "NewPgImp h s = Returns None s" using Returns acquire_frame_None[of h s s1]
        by (simp add: NewPgImp_def)
      then have "s' = s" using st by (simp add: state_after_def)
      then show ?thesis using inv kept_refl[OF inv] \<open>NewPgImp h s = Returns None s\<close> by simp
    next
      case (Some f)
      then have aq: "acquire_frame h s = Returns (Some f) s1" using Returns by simp
      note A = acquire_frame_Some[OF inv aq]
      have np: "\<not> next_page_id s1 \<ge> 2 ^ 31 - 1" using nu aq by (auto simp: NewPgImp_def)
      define pid where "pid = next_page_id s1"
      define P where "P = (ResetMemory (pages s1 ! nat f))\<lparr>page_id := pid, is_dirty := False, pin_count := 1\<rparr>"
      define s2 where "s2 = set_page (s1\<lparr>next_page_id := pid + 1\<rparr>) f P"
      define K where "K = (\<lambda>s4. with_page_table s4 (Insert h (page_table s4) pid f)
               (\<lambda>_ s5. Returns (Some (pid, f)) s5))"
      have eq: "NewPgImp h s = with_replacer s2 (RecordAccess (replacer s2) f)
               (\<lambda>_ s3. with_replacer s3 (SetEvictable (replacer s3) f False) (\<lambda>_. K))"
        using np by (simp add: NewPgImp_def aq Let_def pid_def P_def s2_def K_def)
      have s2f: "replacer s2 = replacer s1" "page_table s2 = page_table s1" "free_list s2 = free_list s1"
        "pages s2 = (pages s)[nat f := P]"
        by (simp_all add: s2_def set_page_def A(3))
      have rng: "\<not> f > static_cast_int (replacer_size (replacer s2))"
        using frame_in_replacer_range[OF inv A(1)] A(10) by (simp add: s2f)
      from pin_frame[OF rng eq[symmetric] nu] obtain r' where
        r': "NewPgImp h s = K (s2\<lparr>replacer := r'\<rparr>)"
          "\<And>g. evictable (frame_map r' g) = (g \<noteq> f \<and> evictable (frame_map (replacer s2) g))"
          "replacer_size r' = replacer_size (replacer s2)"
        by blast
      have ht4: "ht_inv h (page_table (s2\<lparr>replacer := r'\<rparr>))" using A(4) by (simp add: s2f)
      from insert_entry[OF ht4, of pid f "Returns (Some (pid, f))" "NewPgImp h s"] r'(1) nu
      obtain t where
        t: "NewPgImp h s = Returns (Some (pid, f)) (s2\<lparr>replacer := r', page_table := t\<rparr>)"
          "ht_inv h t"
          "\<And>p. ht_lookup h t p = (if p = pid then Some f else ht_lookup h (page_table s1) p)"
        by (auto simp: K_def s2f)
      have s': "s' = s2\<lparr>replacer := r', page_table := t\<rparr>" using st t(1) by (simp add: state_after_def)
      have nf: "nat f < length (pages s)" using A(1) by (simp add: frame_ok_def)
      have F1: "f \<notin> set (free_list s')" and F2: "set (free_list s') \<subseteq> set (free_list s)"
        and F3: "distinct (free_list s')"
        using A(6,7,8) by (simp_all add: s' s2f)
      have F4: "length (pages s') = length (pages s)" by (simp add: s' s2f)
      have F5: "replacer_size (replacer s') = replacer_size (replacer s)"
        using r'(3) A(10) by (simp add: s' s2f)
      have F6: "pages s' ! nat g = pages s ! nat g" if "frame_ok s g" "g \<noteq> f" for g
        using nat_frame_neq[OF A(1) that] by (simp add: s' s2f)
      have F7: "page_id (pages s' ! nat f) = pid" and F8: "pin_count (pages s' ! nat f) = 1"
        using nf by (simp_all add: s' s2f P_def)
      have F9: "ht_inv h (page_table s')" using t(2) by (simp add: s')
      have F10: "ht_lookup h (page_table s') p = None \<or>
               (ht_lookup h (page_table s') p = ht_lookup h (page_table s) p \<and>
                ht_lookup h (page_table s) p \<noteq> Some f)" if "p \<noteq> pid" for p
        using that A(5)[of p] t(3)[of p] by (simp add: s')
      have F11: "ht_lookup h (page_table s') pid = Some f" using t(3)[of pid] by (simp add: s')
      have F12: "evictable (frame_map (replacer s') g) = evictable (frame_map (replacer s) g)" if "g \<noteq> f" for g
        using that r'(2)[of g] A(9)[of g] by (simp add: s' s2f)
      have F13: "\<not> evictable (frame_map (replacer s') f)" using r'(2)[of f] by (simp add: s')
      have I: "bpm_inv h s'"
        by (rule bpm_inv_install(1)[OF inv A(1,2) F1 F2 F3 F4 F5 _ F7 F8 F9 _ F11 _ F13])
           (use F6 F10 F12 in auto)
      have S: "kept s s' g \<and> g \<noteq> f \<and> pin_count (pages s' ! nat g) = pin_count (pages s ! nat g)"
        if "frame_ok s g" "0 < pin_count (pages s ! nat g)" for g
        by (rule bpm_inv_install(2)[OF inv A(1,2) F1 F2 F3 F4 F5 _ F7 F8 F9 _ F11 _ F13 that])
           (use F6 F10 F12 in auto)
      show ?thesis using I S t(1) by auto
    qed
  next
    case (Throws e s1)
    then show ?thesis by (simp add: acquire_frame_no_Throws)
  next
    case Undefined
    then show ?thesis using nu by (simp add: NewPgImp_def)
  qed
qed

lemma fetch_tail_pin:
  assumes r: "\<not> f > static_cast_int (replacer_size (replacer s))"
    and nu: "fetch_tail s f \<noteq> Undefined"
  shows "\<exists>r'. fetch_tail s f = Returns (Some f) (s\<lparr>replacer := r'\<rparr>) \<and>
           (\<forall>g. evictable (frame_map r' g) = (g \<noteq> f \<and> evictable (frame_map (replacer s) g))) \<and>
           replacer_size r' = replacer_size (replacer s)"
proof -
  have "with_replacer s (RecordAccess (replacer s) f)
               (\<lambda>_ s1. with_replacer s1 (SetEvictable (replacer s1) f False) (\<lambda>_. Returns (Some f)))
         = fetch_tail s f"
    by (simp add: fetch_tail_def)
  from pin_frame[OF r this nu] show ?thesis .
qed

lemma FetchPgImp_safe:
  assumes inv: "bpm_inv h s" and st: "state_after (FetchPgImp h s pid) = Some s'"
  shows "bpm_inv h s' \<and>
    (\<forall>g. frame_ok s g \<and> 0 < pin_count (pages s ! nat g) \<longrightarrow>
        kept s s' g \<and> pin_count (pages s ! nat g) \<le> pin_count (pages s' ! nat g) \<and>
        (FetchPgImp h s pid = Returns (Some g) s' \<longrightarrow> ht_lookup h (page_table s) pid = Some g))"
proof -
  note d = bpm_invD[OF inv]
  have nu: "FetchPgImp h s pid \<noteq> Undefined" using st by (auto simp: state_after_def)
  show ?thesis
  proof (cases "ht_lookup h (page_table s) pid")
    case (Some f)
    note df = d(4)[OF Some]
    have nf: "nat f < length (pages s)" using df by (simp add: frame_ok_def)
    define s0 where "s0 = set_page s f ((pages s ! nat f)\<lparr>pin_count := pin_count (pages s ! nat f) + 1\<rparr>)"
    have eq: "FetchPgImp h s pid = fetch_tail s0 f" and pc: "pin_count (pages s ! nat f) < 2 ^ 31 - 1"
      using nu df by (auto simp: FetchPgImp_def find_entry[OF d(3)] Some s0_def split: if_splits)
    have s0f: "replacer s0 = replacer s" "page_table s0 = page_table s" "free_list s0 = free_list s"
      "pages s0 = (pages s)[nat f := (pages s ! nat f)\<lparr>pin_count := pin_count (pages s ! nat f) + 1\<rparr>]"
      by (simp_all add: s0_def set_page_def)
    have rng: "\<not> f > static_cast_int (replacer_size (replacer s0))"
      using frame_in_replacer_range[OF inv] df by (simp add: s0f)
    from fetch_tail_pin[OF rng] nu eq obtain r' where
      r': "FetchPgImp h s pid = Returns (Some f) (s0\<lparr>replacer := r'\<rparr>)"
        "\<And>g. evictable (frame_map r' g) = (g \<noteq> f \<and> evictable (frame_map (replacer s0) g))"
        "replacer_size r' = replacer_size (replacer s0)"
      by auto
    have s': "s' = s0\<lparr>replacer := r'\<rparr>" using st r'(1) by (simp add: state_after_def)
    have pgf: "pages s' ! nat f = (pages s ! nat f)\<lparr>pin_count := pin_count (pages s ! nat f) + 1\<rparr>"
      using nf by (simp add: s' s0f)
    have pgo: "pages s' ! nat g = pages s ! nat g" if "frame_ok s g" "g \<noteq> f" for g
      using nat_frame_neq[OF df[THEN conjunct1] that] by (simp add: s' s0f)
    have pg: "page_id (pages s' ! nat g) = page_id (pages s ! nat g) \<and>
        data (pages s' ! nat g) = data (pages s ! nat g) \<and>
        0 \<le> pin_count (pages s' ! nat g) \<and>
        (g \<in> set (free_list s) \<longrightarrow> pin_count (pages s' ! nat g) = 0) \<and>
        (0 < pin_count (pages s' ! nat g) \<longrightarrow> \<not> evictable (frame_map (replacer s') g))"
      if "frame_ok s g" for g
    proof (cases "g = f")
      case True
      then show ?thesis using pgf df d(7)[of f] r'(2)[of f] by (simp add: s')
    next
      case False
      then show ?thesis using pgo[OF that False] d(6)[of g] d(7)[OF that] d(8)[OF that] r'(2)[of g]
        by (auto simp: s' s0f)
    qed
    have I: "bpm_inv h s'"
      by (rule bpm_inv_same_table(1)[OF inv, where s' = s'])
         (use d(3) r'(3) pg in \<open>auto simp: s' s0f\<close>)
    have K: "kept s s' g" if "frame_ok s g" "0 < pin_count (pages s ! nat g)" for g
      by (rule bpm_inv_same_table(2)[OF inv _ _ _ _ _ _ that, where s' = s'])
         (use d(3) r'(3) pg in \<open>auto simp: s' s0f\<close>)
    have P: "pin_count (pages s ! nat g) \<le> pin_count (pages s' ! nat g)" if "frame_ok s g" for g
      using pgf pgo[OF that] by (cases "g = f") auto
    show ?thesis using I K P r'(1) Some by auto
  next
    case None
    have eq0: "FetchPgImp h s pid =
       (case acquire_frame h s of
              Undefined \<Rightarrow> Undefined
            | Throws e s1 \<Rightarrow> Throws e s1
            | Returns None s1 \<Rightarrow> Returns None s1
            | Returns (Some f) s1 \<Rightarrow>
                let s2 = set_page s1 f
                           ((ResetMemory (pages s1 ! nat f))\<lparr>page_id := pid, is_dirty := False, pin_count := 1\<rparr>)
                in with_page_table s2 (Insert h (page_table s2) pid f) (\<lambda>_ s3.
                     let rd = ReadPage (disk_manager s3) pid;
                         s4 = set_page (s3\<lparr>disk_manager := snd rd\<rparr>) f ((pages s3 ! nat f)\<lparr>data := fst rd\<rparr>)
                     in fetch_tail s4 f))"
      by (simp add: FetchPgImp_def find_entry[OF d(3)] None)
    show ?thesis
    proof (cases "acquire_frame h s")
      case (Returns v s1)
      show ?thesis
      proof (cases v)
        case N: None
        then have e: "FetchPgImp h s pid = Returns None s" using Returns acquire_frame_None[of h s s1]
          by (simp add: eq0)
        then have "s' = s" using st by (simp add: state_after_def)
        then show ?thesis using inv kept_refl[OF inv] e by simp
      next
        case (Some f)
        then have aq: "acquire_frame h s = Returns (Some f) s1" using Returns by simp
        note A = acquire_frame_Some[OF inv aq]
        have nf: "nat f < length (pages s)" using A(1) by (simp add: frame_ok_def)
        define P where "P = (ResetMemory (pages s1 ! nat f))\<lparr>page_id := pid, is_dirty := False, pin_count := 1\<rparr>"
        define s2 where "s2 = set_page s1 f P"
        define K where "K = (\<lambda>s3. let rd = ReadPage (disk_manager s3) pid;
                         s4 = set_page (s3\<lparr>disk_manager := snd rd\<rparr>) f ((pages s3 ! nat f)\<lparr>data := fst rd\<rparr>)
                     in fetch_tail s4 f)"
        have eq: "FetchPgImp h s pid = with_page_table s2 (Insert h (page_table s2) pid f) (\<lambda>_. K)"
          by (simp add: eq0 aq Let_def P_def s2_def K_def)
        have s2f: "replacer s2 = replacer s1" "page_table s2 = page_table s1" "free_list s2 = free_list s1"
          "pages s2 = (pages s)[nat f := P]"
          by (simp_all add: s2_def set_page_def A(3))
        have ht2: "ht_inv h (page_table s2)" using A(4) by (simp add: s2f)
        from insert_entry[OF ht2 eq[symmetric] nu] obtain t where
          t: "FetchPgImp h s pid = K (s2\<lparr>page_table := t\<rparr>)" "ht_inv h t"
            "\<And>p. ht_lookup h t p = (if p = pid then Some f else ht_lookup h (page_table s1) p)"
          by (auto simp: s2f)
        define Q where "Q = P\<lparr>data := fst (ReadPage (disk_manager s2) pid)\<rparr>"
        define s4 where "s4 = set_page (s2\<lparr>page_table := t, disk_manager := snd (ReadPage (disk_manager s2) pid)\<rparr>) f Q"
        have eq4: "FetchPgImp h s pid = fetch_tail s4 f"
          using nf by (simp add: t(1) K_def Let_def s4_def Q_def s2f)
        have s4f: "replacer s4 = replacer s1" "page_table s4 = t" "free_list s4 = free_list s1"
          "pages s4 = (pages s)[nat f := Q]"
          by (simp_all add: s4_def set_page_def s2f)
        have rng: "\<not> f > static_cast_int (replacer_size (replacer s4))"
          using frame_in_replacer_range[OF inv A(1)] A(10) by (simp add: s4f)
        from fetch_tail_pin[OF rng] nu eq4 obtain r' where
          r': "FetchPgImp h s pid = Returns (Some f) (s4\<lparr>replacer := r'\<rparr>)"
            "\<And>g. evictable (frame_map r' g) = (g \<noteq> f \<and> evictable (frame_map (replacer s4) g))"
            "replacer_size r' = replacer_size (replacer s4)"
          by auto
        have s': "s' = s4\<lparr>replacer := r'\<rparr>" using st r'(1) by (simp add: state_after_def)
        have F1: "f \<notin> set (free_list s')" and F2: "set (free_list s') \<subseteq> set (free_list s)"
          and F3: "distinct (free_list s')"
          using A(6,7,8) by (simp_all add: s' s4f)
        have F4: "length (pages s') = length (pages s)" by (simp add: s' s4f)
        have F5: "replacer_size (replacer s') = replacer_size (replacer s)"
          using r'(3) A(10) by (simp add: s' s4f)
        have F6: "pages s' ! nat g = pages s ! nat g" if "frame_ok s g" "g \<noteq> f" for g
          using nat_frame_neq[OF A(1) that] by (simp add: s' s4f)
        have F7: "page_id (pages s' ! nat f) = pid" and F8: "pin_count (pages s' ! nat f) = 1"
          using nf by (simp_all add: s' s4f Q_def P_def)
        have F9: "ht_inv h (page_table s')" using t(2) by (simp add: s' s4f)
        have F10: "ht_lookup h (page_table s') p = None \<or>
               (ht_lookup h (page_table s') p = ht_lookup h (page_table s) p \<and>
                ht_lookup h (page_table s) p \<noteq> Some f)" if "p \<noteq> pid" for p
          using that A(5)[of p] t(3)[of p] by (simp add: s' s4f)
        have F11: "ht_lookup h (page_table s') pid = Some f" using t(3)[of pid] by (simp add: s' s4f)
        have F12: "evictable (frame_map (replacer s') g) = evictable (frame_map (replacer s) g)" if "g \<noteq> f" for g
          using that r'(2)[of g] A(9)[of g] by (simp add: s' s4f)
        have F13: "\<not> evictable (frame_map (replacer s') f)" using r'(2)[of f] by (simp add: s')
        have I: "bpm_inv h s'"
          by (rule bpm_inv_install(1)[OF inv A(1,2) F1 F2 F3 F4 F5 _ F7 F8 F9 _ F11 _ F13])
             (use F6 F10 F12 in auto)
        have S: "kept s s' g \<and> g \<noteq> f \<and> pin_count (pages s' ! nat g) = pin_count (pages s ! nat g)"
          if "frame_ok s g" "0 < pin_count (pages s ! nat g)" for g
          by (rule bpm_inv_install(2)[OF inv A(1,2) F1 F2 F3 F4 F5 _ F7 F8 F9 _ F11 _ F13 that])
             (use F6 F10 F12 in auto)
        show ?thesis using I S r'(1) by auto
      qed
    next
      case (Throws e s1)
      then show ?thesis by (simp add: acquire_frame_no_Throws)
    next
      case Undefined
      then show ?thesis using nu by (simp add: eq0)
    qed
  qed
qed

lemma UnpinPgImp_safe:
  assumes inv: "bpm_inv h s" and st: "state_after (UnpinPgImp h s pid dirty) = Some s'"
  shows "bpm_inv h s' \<and>
    (\<forall>g. frame_ok s g \<and> 0 < pin_count (pages s ! nat g) \<longrightarrow>
        kept s s' g \<and>
        (0 < pin_count (pages s' ! nat g) \<or>
         (pid = page_id (pages s ! nat g) \<and> pin_count (pages s ! nat g) = 1)))"
proof -
  note d = bpm_invD[OF inv]
  have nu: "UnpinPgImp h s pid dirty \<noteq> Undefined" using st by (auto simp: state_after_def)
  have same: ?thesis if "s' = s" using that inv kept_refl[OF inv] by simp
  show ?thesis
  proof (cases "ht_lookup h (page_table s) pid")
    case None
    then have "s' = s" using st by (simp add: UnpinPgImp_def find_entry[OF d(3)] state_after_def)
    then show ?thesis by (rule same)
  next
    case (Some f)
    note df = d(4)[OF Some]
    have okf: "frame_ok s f" using df by simp
    have nf: "nat f < length (pages s)" using df by (simp add: frame_ok_def)
    show ?thesis
    proof (cases "pin_count (pages s ! nat f) = 0")
      case True
      then have "s' = s" using st df
        by (simp add: UnpinPgImp_def find_entry[OF d(3)] Some state_after_def)
      then show ?thesis by (rule same)
    next
      case False
      then have pos: "0 < pin_count (pages s ! nat f)" using d(7)[OF okf] by simp
      define n where "n = pin_count (pages s ! nat f) - 1"
      define s1 where "s1 = set_page s f ((pages s ! nat f)\<lparr>pin_count := n\<rparr>)"
      define mark where "mark = (\<lambda>s2. Returns True
                           (if dirty then set_page s2 f ((pages s2 ! nat f)\<lparr>is_dirty := True\<rparr>) else s2))"
      have s1f: "replacer s1 = replacer s" "page_table s1 = page_table s" "free_list s1 = free_list s"
        "pages s1 = (pages s)[nat f := (pages s ! nat f)\<lparr>pin_count := n\<rparr>]"
        by (simp_all add: s1_def set_page_def)
      have eq: "UnpinPgImp h s pid dirty =
          (if n = 0 then with_replacer s1 (SetEvictable (replacer s1) f True) (\<lambda>_. mark) else mark s1)"
        using df False pos nf
        by (simp add: UnpinPgImp_def find_entry[OF d(3)] Some Let_def s1_def n_def mark_def set_page_def)
      have "\<exists>r'. UnpinPgImp h s pid dirty = mark (s1\<lparr>replacer := r'\<rparr>) \<and>
              replacer_size r' = replacer_size (replacer s) \<and>
              (\<forall>g. evictable (frame_map r' g) =
                     (if g = f \<and> n = 0 then True else evictable (frame_map (replacer s) g)))"
      proof (cases "n = 0")
        case T: True
        show ?thesis
        proof (cases "SetEvictable (replacer s1) f True")
          case (Returns z r')
          note sf = SetEvictable_flags[OF Returns]
          have "UnpinPgImp h s pid dirty = mark (s1\<lparr>replacer := r'\<rparr>)"
            using eq T Returns by (simp add: with_replacer_def)
          then show ?thesis using sf T by (intro exI[of _ r']) (simp add: s1f)
        next
          case (Throws e r')
          then show ?thesis using SetEvictable_Throws_iff[OF Throws] frame_in_replacer_range[OF inv okf]
            by (simp add: s1f)
        next
          case Undefined
          then show ?thesis using nu eq T by (simp add: with_replacer_def)
        qed
      next
        case F: False
        have "s1\<lparr>replacer := replacer s\<rparr> = s1" by (simp add: s1_def set_page_def)
        then show ?thesis using eq F by (intro exI[of _ "replacer s"]) simp
      qed
      then obtain r' where
        r': "UnpinPgImp h s pid dirty = mark (s1\<lparr>replacer := r'\<rparr>)"
          "replacer_size r' = replacer_size (replacer s)"
          "\<And>g. evictable (frame_map r' g) =
                     (if g = f \<and> n = 0 then True else evictable (frame_map (replacer s) g))"
        by blast
      have s': "s' = (if dirty then set_page (s1\<lparr>replacer := r'\<rparr>) f
                          ((pages (s1\<lparr>replacer := r'\<rparr>) ! nat f)\<lparr>is_dirty := True\<rparr>)
                      else s1\<lparr>replacer := r'\<rparr>)"
        using st r'(1) by (simp add: state_after_def mark_def)
      have fld: "replacer s' = r'" "page_table s' = page_table s" "free_list s' = free_list s"
        "length (pages s') = length (pages s)"
        "page_id (pages s' ! nat f) = page_id (pages s ! nat f)"
        "data (pages s' ! nat f) = data (pages s ! nat f)"
        "pin_count (pages s' ! nat f) = n"
        using nf by (simp_all add: s' s1f set_page_def)
      have pgo: "pages s' ! nat g = pages s ! nat g" if "frame_ok s g" "g \<noteq> f" for g
        using nat_frame_neq[OF okf that] by (simp add: s' s1f set_page_def)
      have pg: "page_id (pages s' ! nat g) = page_id (pages s ! nat g) \<and>
          data (pages s' ! nat g) = data (pages s ! nat g) \<and>
          0 \<le> pin_count (pages s' ! nat g) \<and>
          (g \<in> set (free_list s) \<longrightarrow> pin_count (pages s' ! nat g) = 0) \<and>
          (0 < pin_count (pages s' ! nat g) \<longrightarrow> \<not> evictable (frame_map (replacer s') g))"
        if "frame_ok s g" for g
      proof (cases "g = f")
        case True
        then show ?thesis using fld df pos d(8)[OF okf pos] r'(3)[of f] by (simp add: n_def)
      next
        case False
        then show ?thesis using pgo[OF that False] d(6)[of g] d(7)[OF that] d(8)[OF that] r'(3)[of g]
          by (auto simp: fld)
      qed
      have I: "bpm_inv h s'"
        by (rule bpm_inv_same_table(1)[OF inv, where s' = s'])
           (use d(3) r'(2) pg in \<open>auto simp: fld\<close>)
      have K: "kept s s' g" if "frame_ok s g" "0 < pin_count (pages s ! nat g)" for g
        by (rule bpm_inv_same_table(2)[OF inv _ _ _ _ _ _ that, where s' = s'])
           (use d(3) r'(2) pg in \<open>auto simp: fld\<close>)
      have P: "0 < pin_count (pages s' ! nat g) \<or>
         (pid = page_id (pages s ! nat g) \<and> pin_count (pages s ! nat g) = 1)"
        if "frame_ok s g" "0 < pin_count (pages s ! nat g)" for g
      proof (cases "g = f")
        case True
        then show ?thesis using fld(7) df that(2) by (auto simp: n_def)
      next
        case False
        then show ?thesis using pgo[OF that(1) False] that(2) by simp
      qed
      show ?thesis using I K P by blast
    qed
  qed
qed

lemma FlushPgImp_safe:
  assumes inv: "bpm_inv h s" and st: "state_after (FlushPgImp h s pid) = Some s'"
  shows "bpm_inv h s' \<and>
    (\<forall>g. frame_ok s g \<and> 0 < pin_count (pages s ! nat g) \<longrightarrow>
        kept s s' g \<and> pin_count (pages s' ! nat g) = pin_count (pages s ! nat g))"
proof -
  note d = bpm_invD[OF inv]
  have same: ?thesis if "s' = s" using that inv kept_refl[OF inv] by simp
  show ?thesis
  proof (cases "ht_lookup h (page_table s) pid")
    case None
    then have "s' = s" using st by (simp add: FlushPgImp_def find_entry[OF d(3)] state_after_def)
    then show ?thesis by (rule same)
  next
    case (Some f)
    note df = d(4)[OF Some]
    have okf: "frame_ok s f" using df by simp
    have nf: "nat f < length (pages s)" using df by (simp add: frame_ok_def)
    show ?thesis
    proof (cases "pid = INVALID_PAGE_ID")
      case True
      then have "s' = s" using st Some by (simp add: FlushPgImp_def find_entry[OF d(3)] state_after_def)
      then show ?thesis by (rule same)
    next
      case False
      have s': "s' = set_page (s\<lparr>disk_manager := WritePage (disk_manager s) pid (data (pages s ! nat f))\<rparr>)
                     f ((pages s ! nat f)\<lparr>is_dirty := False\<rparr>)"
        using st False okf by (simp add: FlushPgImp_def find_entry[OF d(3)] Some state_after_def)
      have fld: "replacer s' = replacer s" "page_table s' = page_table s" "free_list s' = free_list s"
        "length (pages s') = length (pages s)"
        by (simp_all add: s' set_page_def)
      have pg: "page_id (pages s' ! nat g) = page_id (pages s ! nat g) \<and>
          data (pages s' ! nat g) = data (pages s ! nat g) \<and>
          pin_count (pages s' ! nat g) = pin_count (pages s ! nat g)" for g
        using nf by (cases "nat g = nat f") (simp_all add: s' set_page_def)
      have I: "bpm_inv h s'"
        by (rule bpm_inv_same_table(1)[OF inv, where s' = s'])
           (use d(3,6,7,8) pg in \<open>auto simp: fld\<close>)
      have K: "kept s s' g" if "frame_ok s g" "0 < pin_count (pages s ! nat g)" for g
        by (rule bpm_inv_same_table(2)[OF inv _ _ _ _ _ _ that, where s' = s'])
           (use d(3,6,7,8) pg in \<open>auto simp: fld\<close>)
      show ?thesis using I K pg by blast
    qed
  qed
qed

lemma flush_frames_fields:
  "replacer (flush_frames fs s) = replacer s \<and> page_table (flush_frames fs s) = page_table s \<and>
   free_list (flush_frames fs s) = free_list s \<and>
   length (pages (flush_frames fs s)) = length (pages s) \<and>
   (\<forall>j. page_id (pages (flush_frames fs s) ! j) = page_id (pages s ! j) \<and>
        data (pages (flush_frames fs s) ! j) = data (pages s ! j) \<and>
        pin_count (pages (flush_frames fs s) ! j) = pin_count (pages s ! j))"
proof (induction fs arbitrary: s)
  case Nil
  then show ?case by simp
next
  case (Cons i fs)
  let ?s1 = "set_page (s\<lparr>disk_manager := WritePage (disk_manager s) (page_id (pages s ! i)) (data (pages s ! i))\<rparr>)
               (int i) ((pages s ! i)\<lparr>is_dirty := False\<rparr>)"
  have 1: "replacer ?s1 = replacer s \<and> page_table ?s1 = page_table s \<and>
       free_list ?s1 = free_list s \<and> length (pages ?s1) = length (pages s)"
    by (simp add: set_page_def)
  have 2: "page_id (pages ?s1 ! j) = page_id (pages s ! j) \<and>
        data (pages ?s1 ! j) = data (pages s ! j) \<and>
        pin_count (pages ?s1 ! j) = pin_count (pages s ! j)" for j
    by (cases "i < length (pages s)") (simp_all add: set_page_def nth_list_update list_update_beyond)
  show ?case
  proof (cases "page_id (pages s ! i) \<noteq> INVALID_PAGE_ID")
    case True
    then have "flush_frames (i # fs) s = flush_frames fs ?s1" by simp
    then show ?thesis using Cons.IH[of ?s1] 1 2 by simp
  next
    case False
    then have "flush_frames (i # fs) s = flush_frames fs s" by simp
    then show ?thesis using Cons.IH[of s] by simp
  qed
qed

lemma FlushAllPgsImp_safe:
  assumes inv: "bpm_inv h s" and st: "state_after (FlushAllPgsImp s) = Some s'"
  shows "bpm_inv h s' \<and>
    (\<forall>g. frame_ok s g \<and> 0 < pin_count (pages s ! nat g) \<longrightarrow>
        kept s s' g \<and> pin_count (pages s' ! nat g) = pin_count (pages s ! nat g))"
proof -
  note d = bpm_invD[OF inv]
  from st obtain fs where s': "s' = flush_frames fs s"
    by (auto simp: FlushAllPgsImp_def state_after_def split: if_splits)
  note fld = flush_frames_fields[of fs s, folded s']
  have I: "bpm_inv h s'"
    by (rule bpm_inv_same_table(1)[OF inv, where s' = s'])
       (use d(3,6,7,8) fld in \<open>auto\<close>)
  have K: "kept s s' g" if "frame_ok s g" "0 < pin_count (pages s ! nat g)" for g
    by (rule bpm_inv_same_table(2)[OF inv _ _ _ _ _ _ that, where s' = s'])
       (use d(3,6,7,8) fld in \<open>auto\<close>)
  show ?thesis using I K fld by blast
qed

lemma DeletePgImp_safe:
  assumes inv: "bpm_inv h s" and st: "state_after (DeletePgImp h s pid) = Some s'"
  shows "bpm_inv h s' \<and>
    (\<forall>g. frame_ok s g \<and> 0 < pin_count (pages s ! nat g) \<longrightarrow>
        kept s s' g \<and> pin_count (pages s' ! nat g) = pin_count (pages s ! nat g))"
proof -
  note d = bpm_invD[OF inv]
  have nu: "DeletePgImp h s pid \<noteq> Undefined" using st by (auto simp: state_after_def)
  have same: ?thesis if "s' = s" using that inv kept_refl[OF inv] by simp
  show ?thesis
  proof (cases "ht_lookup h (page_table s) pid")
    case None
    then have "s' = s" using st by (simp add: DeletePgImp_def find_entry[OF d(3)] state_after_def)
    then show ?thesis by (rule same)
  next
    case (Some f)
    note df = d(4)[OF Some]
    have okf: "frame_ok s f" using df by simp
    have nf: "nat f < length (pages s)" using df by (simp add: frame_ok_def)
    show ?thesis
    proof (cases "0 < pin_count (pages s ! nat f)")
      case True
      then have "s' = s" using st df
        by (simp add: DeletePgImp_def find_entry[OF d(3)] Some state_after_def)
      then show ?thesis by (rule same)
    next
      case False
      then have pin: "pin_count (pages s ! nat f) \<le> 0" by simp
      define s1 where "s1 = (if is_dirty (pages s ! nat f)
                       then set_page (s\<lparr>disk_manager := WritePage (disk_manager s)
                                (page_id (pages s ! nat f)) (data (pages s ! nat f))\<rparr>)
                              f ((pages s ! nat f)\<lparr>is_dirty := False\<rparr>)
                       else s)"
      define K where "K = (\<lambda>s3. with_page_table s3 (Remove_ht h (page_table s3) pid) (\<lambda>_ s4.
                Returns True
                  ((set_page s4 f (ResetMemory (pages s4 ! nat f)))\<lparr>free_list := free_list s4 @ [f]\<rparr>)))"
      have eq: "DeletePgImp h s pid =
          with_replacer s1 (SetEvictable (replacer s1) f True) (\<lambda>_ s2.
                with_replacer s2 (Remove (replacer s2) f) (\<lambda>_. K))"
        using df False
        by (simp add: DeletePgImp_def find_entry[OF d(3)] Some Let_def s1_def K_def)
      have s1f: "replacer s1 = replacer s" "page_table s1 = page_table s" "free_list s1 = free_list s"
        "length (pages s1) = length (pages s)"
        "pin_count (pages s1 ! nat f) = pin_count (pages s ! nat f)"
        using nf by (simp_all add: s1_def set_page_def)
      have s1o: "pages s1 ! nat g = pages s ! nat g" if "frame_ok s g" "g \<noteq> f" for g
        using nat_frame_neq[OF okf that] by (simp add: s1_def set_page_def)
      have "\<exists>r3. DeletePgImp h s pid = K (s1\<lparr>replacer := r3\<rparr>) \<and>
              replacer_size r3 = replacer_size (replacer s) \<and>
              (\<forall>g. g \<noteq> f \<longrightarrow> evictable (frame_map r3 g) = evictable (frame_map (replacer s) g))"
      proof (cases "SetEvictable (replacer s1) f True")
        case (Returns z r2)
        note sf = SetEvictable_flags[OF Returns]
        show ?thesis
        proof (cases "Remove r2 f")
          case rm: (Returns y r3)
          note rf = Remove_flags[OF rm]
          have "DeletePgImp h s pid = K (s1\<lparr>replacer := r3\<rparr>)"
            using eq Returns rm by (simp add: with_replacer_def)
          then show ?thesis using sf rf by (intro exI[of _ r3]) (simp add: s1f)
        next
          case (Throws e r3)
          then show ?thesis using Remove_Throws_flag[OF Throws] sf(1)[of f] by simp
        next
          case Undefined
          then show ?thesis using nu eq Returns by (simp add: with_replacer_def)
        qed
      next
        case (Throws e r2)
        then show ?thesis using SetEvictable_Throws_iff[OF Throws] frame_in_replacer_range[OF inv okf]
          by (simp add: s1f)
      next
        case Undefined
        then show ?thesis using nu eq by (simp add: with_replacer_def)
      qed
      then obtain r3 where
        r3: "DeletePgImp h s pid = K (s1\<lparr>replacer := r3\<rparr>)"
          "replacer_size r3 = replacer_size (replacer s)"
          "\<And>g. g \<noteq> f \<Longrightarrow> evictable (frame_map r3 g) = evictable (frame_map (replacer s) g)"
        by blast
      define s3 where "s3 = s1\<lparr>replacer := r3\<rparr>"
      have "\<exists>t. DeletePgImp h s pid =
                Returns True ((set_page (s3\<lparr>page_table := t\<rparr>) f (ResetMemory (pages s3 ! nat f)))
                                \<lparr>free_list := free_list s3 @ [f]\<rparr>) \<and>
              ht_inv h t \<and>
              (\<forall>p. ht_lookup h t p = (if p = pid then None else ht_lookup h (page_table s) p))"
      proof (cases "Remove_ht h (page_table s) pid")
        case (Returns b t)
        note R = Remove_ht_inv[OF d(3) Returns]
        have "DeletePgImp h s pid =
                Returns True ((set_page (s3\<lparr>page_table := t\<rparr>) f (ResetMemory (pages s3 ! nat f)))
                                \<lparr>free_list := free_list s3 @ [f]\<rparr>)"
          using r3(1) Returns by (simp add: K_def s3_def with_page_table_def s1f)
        then show ?thesis using R by (intro exI[of _ t]) simp
      next
        case (Throws e t)
        then show ?thesis by (simp add: Remove_ht_no_Throws)
      next
        case Undefined
        then show ?thesis using nu r3(1) by (simp add: K_def with_page_table_def s1f)
      qed
      then obtain t where
        t: "DeletePgImp h s pid =
                Returns True ((set_page (s3\<lparr>page_table := t\<rparr>) f (ResetMemory (pages s3 ! nat f)))
                                \<lparr>free_list := free_list s3 @ [f]\<rparr>)"
          "ht_inv h t"
          "\<And>p. ht_lookup h t p = (if p = pid then None else ht_lookup h (page_table s) p)"
        by blast
      have s': "s' = (set_page (s3\<lparr>page_table := t\<rparr>) f (ResetMemory (pages s3 ! nat f)))
                                \<lparr>free_list := free_list s3 @ [f]\<rparr>"
        using st t(1) by (simp add: state_after_def)
      have fld: "replacer s' = r3" "page_table s' = t" "free_list s' = free_list s @ [f]"
        "length (pages s') = length (pages s)"
        "pin_count (pages s' ! nat f) = pin_count (pages s ! nat f)"
        using nf by (simp_all add: s' s3_def s1f set_page_def ResetMemory_def)
      have F1: "pages s' ! nat g = pages s ! nat g" if "frame_ok s g" "g \<noteq> f" for g
        using nat_frame_neq[OF okf that] s1o[OF that] by (simp add: s' s3_def set_page_def)
      have F2: "pin_count (pages s' ! nat f) = 0" using fld(5) pin d(7)[OF okf] by simp
      have F3: "replacer_size (replacer s') = replacer_size (replacer s)" using r3(2) by (simp add: fld)
      have F4: "ht_inv h (page_table s')" using t(2) by (simp add: fld)
      have F5: "ht_lookup h (page_table s') p = (if p = pid then None else ht_lookup h (page_table s) p)" for p
        using t(3)[of p] by (simp add: fld)
      have F6: "evictable (frame_map (replacer s') g) = evictable (frame_map (replacer s) g)" if "g \<noteq> f" for g
        using r3(3)[OF that] by (simp add: fld)
      have I: "bpm_inv h s'"
        by (rule bpm_inv_delete(1)[OF inv Some pin fld(3,4) F3 _ F2 F4 F5])
           (use F1 F6 in auto)
      have S: "kept s s' g \<and> g \<noteq> f \<and> pin_count (pages s' ! nat g) = pin_count (pages s ! nat g)"
        if "frame_ok s g" "0 < pin_count (pages s ! nat g)" for g
        by (rule bpm_inv_delete(2)[OF inv Some pin fld(3,4) F3 _ F2 F4 F5 _ that])
           (use F1 F6 in auto)
      show ?thesis using I S by blast
    qed
  qed
qed

lemma bpm_step_safe:
  assumes inv: "bpm_inv h s" and st: "bpm_step h op s = Some s'"
  shows "bpm_inv h s' \<and>
    (\<forall>g. frame_ok s g \<and> 0 < pin_count (pages s ! nat g) \<longrightarrow>
        kept s s' g \<and>
        (0 < pin_count (pages s' ! nat g) \<or>
         (\<exists>dirty. op = OpUnpinPg (page_id (pages s ! nat g)) dirty \<and> pin_count (pages s ! nat g) = 1)))"
proof (cases op)
  case OpNewPg
  then show ?thesis using NewPgImp_safe[OF inv, of s'] st by (simp add: bpm_step_def)
next
  case (OpFetchPg pid)
  then have "state_after (FetchPgImp h s pid) = Some s'" using st by (simp add: bpm_step_def)
  from FetchPgImp_safe[OF inv this] show ?thesis by force
next
  case (OpUnpinPg pid dirty)
  then have "state_after (UnpinPgImp h s pid dirty) = Some s'" using st by (simp add: bpm_step_def)
  from UnpinPgImp_safe[OF inv this] show ?thesis using OpUnpinPg by auto
next
  case (OpFlushPg pid)
  then show ?thesis using FlushPgImp_safe[OF inv, of pid s'] st by (simp add: bpm_step_def)
next
  case OpFlushAllPgs
  then show ?thesis using FlushAllPgsImp_safe[OF inv, of s'] st by (simp add: bpm_step_def)
next
  case (OpDeletePg pid)
  then show ?thesis using DeletePgImp_safe[OF inv, of pid s'] st by (simp add: bpm_step_def)
qed

lemma bpm_run_inv:
  "bpm_inv h s \<Longrightarrow> bpm_run h ops s = Some s' \<Longrightarrow> bpm_inv h s'"
proof (induction ops arbitrary: s)
  case Nil
  then show ?case by simp
next
  case (Cons op ops)
  from Cons.prems(2) obtain s1 where s1: "bpm_step h op s = Some s1" "bpm_run h ops s1 = Some s'"
    by (auto split: option.splits)
  from Cons.IH[OF bpm_step_safe[OF Cons.prems(1) s1(1), THEN conjunct1] s1(2)] show ?case .
qed

lemma bpm_inv_new:
  assumes "psize < 2 ^ 31"
  shows "bpm_inv h (BufferPoolManagerInstance_new d bsz psize dm k)"
proof -
  let ?s = "BufferPoolManagerInstance_new d bsz psize dm k"
  have fl: "free_list ?s = map int [0..<psize]"
    using assms by (simp add: BufferPoolManagerInstance_new_def static_cast_int_small)
  have pg: "pages ?s = replicate psize Page_new" by (simp add: BufferPoolManagerInstance_new_def)
  have 1: "length (pages ?s) < 2 ^ 31 \<and> replacer_size (replacer ?s) = length (pages ?s)"
    using assms by (simp add: BufferPoolManagerInstance_new_def LRUKReplacer_new_def)
  have 2: "ht_inv h (page_table ?s)" by (simp add: BufferPoolManagerInstance_new_def ht_inv_new)
  have 3: "\<forall>pid f. ht_lookup h (page_table ?s) pid = Some f \<longrightarrow>
        frame_ok ?s f \<and> page_id (pages ?s ! nat f) = pid \<and> f \<notin> set (free_list ?s)"
    by (simp add: BufferPoolManagerInstance_new_def ht_lookup_new)
  have 4: "distinct (free_list ?s)" by (simp add: fl distinct_map)
  have 5: "\<forall>f\<in>set (free_list ?s). frame_ok ?s f \<and> pin_count (pages ?s ! nat f) = 0"
    by (auto simp: fl pg frame_ok_def Page_new_def)
  have 6: "\<forall>f. frame_ok ?s f \<longrightarrow>
        0 \<le> pin_count (pages ?s ! nat f) \<and>
        (0 < pin_count (pages ?s ! nat f) \<longrightarrow> \<not> evictable (frame_map (replacer ?s) f))"
    by (auto simp: pg frame_ok_def Page_new_def)
  show ?thesis unfolding bpm_inv_def using 1 2 3 4 5 6 by blast
qed

lemma kept_trans: "kept s s1 f \<Longrightarrow> kept s1 s2 f \<Longrightarrow> kept s s2 f"
  by (simp add: kept_def)

lemma bpm_run_kept:
  "bpm_inv h s \<Longrightarrow> frame_ok s f \<Longrightarrow> 0 < pin_count (pages s ! nat f) \<Longrightarrow>
   bpm_run h ops s = Some s' \<Longrightarrow> stays_pinned h ops s f \<Longrightarrow> kept s s' f"
proof (induction ops arbitrary: s)
  case Nil
  then show ?case using kept_refl[of h s f] by simp
next
  case (Cons op ops)
  from Cons.prems(4) obtain s1 where s1: "bpm_step h op s = Some s1" "bpm_run h ops s1 = Some s'"
    by (auto split: option.splits)
  note S = bpm_step_safe[OF Cons.prems(1) s1(1)]
  have k: "kept s s1 f" using S Cons.prems(2,3) by simp
  have p: "0 < pin_count (pages s1 ! nat f)" "stays_pinned h ops s1 f"
    using Cons.prems(5) s1(1) by simp_all
  have ok: "frame_ok s1 f" using k by (simp add: kept_def)
  from Cons.IH[OF S[THEN conjunct1] ok p(1) s1(2) p(2)] k show ?case by (rule kept_trans[rotated])
qed

lemmas bpm_run_eval = bpm_example_def bpm_example_ops_def bpm_step_def state_after_def bpm_eval
  replacer_eval upt_rec

lemma bpm_example_run:
  "bpm_run std_hash_int bpm_example_ops (BufferPoolManagerInstance_new True 2 2 DiskManager_empty 2)
     = Some bpm_example"
  by (simp add: bpm_run_eval)


section \<open>The replacer at K = 1\<close>

text \<open>
  Claim C6 says that a frame with at least K recorded accesses is in the cache list, for
  every K \<ge> 1.  \<^verbatim>\<open>RecordAccess\<close> tests \<^verbatim>\<open>new_count == 1\<close> before
  \<^verbatim>\<open>new_count == k_\<close>, so with K = 1 the first access of frame 0 leaves it with count
  \<open>1 \<ge> K\<close> in the history list and not in the cache list, and the next access erases
  from the cache list through an iterator of the history list.
\<close>

theorem C6_K1_frame_with_K_accesses_in_history:
  "is_Returns (RecordAccess (LRUKReplacer_new d 7 1) 0)
   \<and> count (frame_map (ret_state (RecordAccess (LRUKReplacer_new d 7 1) 0)) 0) = 1
   \<and> replacer_k (ret_state (RecordAccess (LRUKReplacer_new d 7 1) 0)) = 1
   \<and> hist_list (ret_state (RecordAccess (LRUKReplacer_new d 7 1) 0)) = [(1, 0)]
   \<and> cache_list (ret_state (RecordAccess (LRUKReplacer_new d 7 1) 0)) = []
   \<and> RecordAccess (ret_state (RecordAccess (LRUKReplacer_new d 7 1) 0)) 0 = Undefined"
  by (simp add: replacer_eval)

text \<open>
  Claim C8 says that \<^verbatim>\<open>Remove\<close> of an evictable frame with recorded accesses removes it
  from whichever list it occupies.  With K = 1, frame 0 after one access is in the history
  list with count \<open>1 \<ge> K\<close>, and \<^verbatim>\<open>Remove\<close> takes the branch
  \<^verbatim>\<open>cache_list_.erase(del_frame.it_)\<close> with an iterator of the history list: the call is
  undefined instead of removing the frame.
\<close>

theorem C8_K1_Remove_erases_from_wrong_list:
  "is_Returns (RecordAccess (LRUKReplacer_new d 7 1) 0)
   \<and> is_Returns (SetEvictable (ret_state (RecordAccess (LRUKReplacer_new d 7 1) 0)) 0 True)
   \<and> hist_list (ret_state (SetEvictable (ret_state (RecordAccess (LRUKReplacer_new d 7 1) 0)) 0 True))
       = [(1, 0)]
   \<and> Remove (ret_state (SetEvictable (ret_state (RecordAccess (LRUKReplacer_new d 7 1) 0)) 0 True)) 0
       = Undefined"
  by (simp add: replacer_eval)

section \<open>Frame ids accepted by \<^verbatim>\<open>RecordAccess\<close>\<close>

text \<open>
  Claim C7, as amended.  The guard of \<^verbatim>\<open>RecordAccess\<close> is
  \<^verbatim>\<open>frame_id > replacer_size_\<close>, and the constructor sizes \<^verbatim>\<open>frame_time_\<close> to
  \<^verbatim>\<open>num_frames + 1\<close>, so the frame id equal to the pool size is accepted.  In a state that
  satisfies the invariant, with K \<ge> 2, a pool size that fits an \<^verbatim>\<open>int\<close> and a
  timestamp counter that has not reached its maximum: \<^verbatim>\<open>RecordAccess\<close> throws
  (an invalid-argument error, leaving the state as it was) exactly when the frame id is
  greater than the pool size, it throws nothing else, and for every frame id from 0 to
  the pool size inclusive it returns with the access recorded (the count and the
  timestamp counter incremented, the frame tracked).
\<close>

theorem C7_record_access_rejects_beyond_pool_size:
  assumes inv: "replacer_inv r" and K: "2 \<le> replacer_k r"
    and sz: "replacer_size r < 2 ^ 31" and ts: "current_timestamp r < 2 ^ 64 - 1"
  shows "(RecordAccess r f = Throws InvalidArgument r \<longleftrightarrow> f > int (replacer_size r)) \<and>
         (\<forall>e r'. RecordAccess r f = Throws e r' \<longrightarrow> e = InvalidArgument \<and> r' = r) \<and>
         (0 \<le> f \<and> f \<le> int (replacer_size r) \<longrightarrow>
            (\<exists>r'. RecordAccess r f = Returns () r' \<and>
                  count (frame_map r' f) = count (frame_map r f) + 1 \<and>
                  current_timestamp r' = current_timestamp r + 1 \<and>
                  f \<in> tracked r'))"
proof -
  have A: "RecordAccess r f = Throws InvalidArgument r \<longleftrightarrow> f > int (replacer_size r)"
    by (simp add: RecordAccess_Throws static_cast_int_small[OF sz])
  have B: "\<forall>e r'. RecordAccess r f = Throws e r' \<longrightarrow> e = InvalidArgument \<and> r' = r"
    by (simp add: RecordAccess_Throws)
  have C: "\<exists>r'. RecordAccess r f = Returns () r' \<and>
                  count (frame_map r' f) = count (frame_map r f) + 1 \<and>
                  current_timestamp r' = current_timestamp r + 1 \<and>
                  f \<in> tracked r'" if f: "0 \<le> f \<and> f \<le> int (replacer_size r)"
  proof -
  have len: "length (frame_time r) = replacer_size r + 1" using inv by (simp add: replacer_inv_def)
  have inr: "in_frame_time r f" using f by (auto simp: in_frame_time_def len)
  have le: "\<not> f > static_cast_int (replacer_size r)" using f by (simp add: static_cast_int_small[OF sz])
  from RecordAccess_returns[OF inv K ts le inr] obtain r' where r': "RecordAccess r f = Returns () r'"
    by blast
  have nw: "count (frame_map r f) < 2 ^ 64 - 1"
    using inv ts by (auto simp: replacer_inv_def intro: le_less_trans)
  have inv': "replacer_inv r'" by (rule RecordAccess_inv[OF inv ts r'])
  have c': "count (frame_map r' f) = count (frame_map r f) + 1"
    using RecordAccess_effect[OF r'] by (simp add: inc64_eq[OF nw])
  then have "f \<in> tracked r'" using inv' by (simp add: replacer_inv_def)
  then show ?thesis
    using r' c' RecordAccess_effect[OF r'] by (simp add: inc64_eq[OF ts])
  qed
  show ?thesis using A B C by blast
qed

text \<open>Witness for C7: a replacer for 7 frames with K = 2, frame ids 8 and 7.\<close>

theorem C7_witness:
  "replacer_inv (LRUKReplacer_new True 7 2) \<and> (8::int) > int (replacer_size (LRUKReplacer_new True 7 2))
   \<and> RecordAccess (LRUKReplacer_new True 7 2) 8 = Throws InvalidArgument (LRUKReplacer_new True 7 2)
   \<and> is_Returns (RecordAccess (LRUKReplacer_new True 7 2) 7)
   \<and> count (frame_map (ret_state (RecordAccess (LRUKReplacer_new True 7 2) 7)) 7) = 1
   \<and> 7 \<in> tracked (ret_state (RecordAccess (LRUKReplacer_new True 7 2) 7))"
  using C7_record_access_rejects_beyond_pool_size[of "LRUKReplacer_new True 7 2" 8]
    C7_record_access_rejects_beyond_pool_size[of "LRUKReplacer_new True 7 2" 7]
    replacer_inv_new[of True 7 2]
  by (auto simp: LRUKReplacer_new_def FrameInfo_default_def)

text \<open>
  Counterexample to C7 as stated: frame id 7 is not below the pool size 7, and the access
  is recorded without an error (whatever the initial evictable flag).
\<close>

theorem C7_counterexample:
  "(7::int) \<ge> int (replacer_size (LRUKReplacer_new True 7 2))
   \<and> is_Returns (RecordAccess (LRUKReplacer_new True 7 2) 7)
   \<and> count (frame_map (ret_state (RecordAccess (LRUKReplacer_new True 7 2) 7)) 7) = 1
   \<and> hist_list (ret_state (RecordAccess (LRUKReplacer_new True 7 2) 7)) = [(1, 7)]
   \<and> is_Returns (RecordAccess (LRUKReplacer_new False 7 2) 7)"
  by (simp add: replacer_eval)

section \<open>Write-back of a dirty victim\<close>

text \<open>
  Claim C2.  When the free list is empty and the replacer yields the victim frame \<open>f\<close>,
  a \<^verbatim>\<open>NewPgImp\<close> that returns hands out frame \<open>f\<close> with the fresh page id, and the
  calls it made to the disk are exactly one \<^verbatim>\<open>WritePage\<close> with the victim's page id and
  the bytes the frame held before it was reset if the victim was dirty, and none if it was
  clean; afterwards the frame holds the new page with zeroed bytes.  A \<^verbatim>\<open>FetchPgImp\<close>
  that misses the page table and returns makes the same write-back call (or none),
  followed only by the \<^verbatim>\<open>ReadPage\<close> of the requested page.
\<close>

theorem C2_dirty_victim_written_back_once:
  assumes fl: "free_list s = []" and ev: "Evict (replacer s) = Returns (Some f) r'"
  shows "(NewPgImp h s = Returns x s' \<longrightarrow>
            x = Some (next_page_id s, f) \<and>
            disk_log (disk_manager s') =
              disk_log (disk_manager s) @
                (if is_dirty (pages s ! nat f)
                 then [WritePageCall (page_id (pages s ! nat f)) (data (pages s ! nat f))] else []) \<and>
            pages s' ! nat f = \<lparr>page_id = next_page_id s, pin_count = 1, is_dirty = False, data = zeroed\<rparr>) \<and>
         (Find h (page_table s) pid = Returns None t \<longrightarrow> FetchPgImp h s pid = Returns y s'' \<longrightarrow>
            y = Some f \<and>
            disk_log (disk_manager s'') =
              disk_log (disk_manager s) @
                (if is_dirty (pages s ! nat f)
                 then [WritePageCall (page_id (pages s ! nat f)) (data (pages s ! nat f))] else []) @
                [ReadPageCall pid])"
proof -
  let ?wb = "if is_dirty (pages s ! nat f)
                 then [WritePageCall (page_id (pages s ! nat f)) (data (pages s ! nat f))] else []"
  have A: "x = Some (next_page_id s, f) \<and>
            disk_log (disk_manager s') = disk_log (disk_manager s) @ ?wb \<and>
            pages s' ! nat f = \<lparr>page_id = next_page_id s, pin_count = 1, is_dirty = False, data = zeroed\<rparr>"
    if n: "NewPgImp h s = Returns x s'"
  proof -
  from n obtain s1 where aq: "acquire_frame h s = Returns (Some f) s1"
    using acquire_frame_evict[OF fl ev]
    by (auto simp: NewPgImp_def split: outcome.splits option.splits)
  note a = acquire_frame_evict[OF fl ev aq]
  from a have ok: "0 \<le> f" "nat f < length (pages s)" by (auto simp: frame_ok_def)
  show ?thesis
    using n a ok
    by (auto simp: NewPgImp_def aq Let_def with_replacer_Returns with_page_table_Returns set_page_def
          WritePage_def ResetMemory_def split: if_splits)
  qed
  have B: "y = Some f \<and>
            disk_log (disk_manager s'') = disk_log (disk_manager s) @ ?wb @ [ReadPageCall pid]"
    if miss: "Find h (page_table s) pid = Returns None t" and ft: "FetchPgImp h s pid = Returns y s''"
  proof -
  have t: "t = page_table s" using miss by (rule Find_state)
  have s0: "s\<lparr>page_table := page_table s\<rparr> = s" by simp
  from ft obtain s1 where aq: "acquire_frame h s = Returns (Some f) s1"
    using acquire_frame_evict[OF fl ev] miss
    by (auto simp: FetchPgImp_def with_page_table_def t s0 split: outcome.splits option.splits)
  note a = acquire_frame_evict[OF fl ev aq]
  show ?thesis
    using ft miss a
    by (auto simp: FetchPgImp_def with_page_table_def t s0 aq Let_def with_page_table_Returns
          set_page_def WritePage_def ReadPage_def dest!: fetch_tail_fields split: if_splits outcome.splits)
  qed
  show ?thesis using A B by blast
qed



text \<open>
  Witness for C2: in the one-frame pool the victim is frame 0 holding the dirty page 0;
  both operations return and the disk sees the single write of page 0.
\<close>

theorem C2_witness:
  "free_list bpm_one_dirty = []
   \<and> Evict (replacer bpm_one_dirty) = Returns (Some 0) (ret_state (Evict (replacer bpm_one_dirty)))
   \<and> is_dirty (pages bpm_one_dirty ! 0)
   \<and> is_Returns (NewPgImp std_hash_int bpm_one_dirty)
   \<and> ret_val (NewPgImp std_hash_int bpm_one_dirty) = Some (1, 0)
   \<and> disk_log (disk_manager (ret_state (NewPgImp std_hash_int bpm_one_dirty))) = [WritePageCall 0 zeroed]
   \<and> Find std_hash_int (page_table bpm_one_dirty) 5 = Returns None (page_table bpm_one_dirty)
   \<and> is_Returns (FetchPgImp std_hash_int bpm_one_dirty 5)
   \<and> disk_log (disk_manager (ret_state (FetchPgImp std_hash_int bpm_one_dirty 5)))
        = [WritePageCall 0 zeroed, ReadPageCall 5]"
proof -
  have fl: "free_list bpm_one_dirty = []" by (simp add: bpm_one_dirty_eq)
  have ev: "Evict (replacer bpm_one_dirty) = Returns (Some 0) (ret_state (Evict (replacer bpm_one_dirty)))"
    by (simp add: bpm_one_dirty_eq bpm_eval replacer_eval)
  have n: "is_Returns (NewPgImp std_hash_int bpm_one_dirty)"
    by (simp add: bpm_one_dirty_eq bpm_eval replacer_eval)
  have miss: "Find std_hash_int (page_table bpm_one_dirty) 5 = Returns None (page_table bpm_one_dirty)"
    by (simp add: bpm_one_dirty_eq bpm_eval)
  have ft: "is_Returns (FetchPgImp std_hash_int bpm_one_dirty 5)"
    by (simp add: bpm_one_dirty_eq bpm_eval replacer_eval)
  have d: "is_dirty (pages bpm_one_dirty ! 0)" "page_id (pages bpm_one_dirty ! 0) = 0"
    "data (pages bpm_one_dirty ! 0) = zeroed" "disk_log (disk_manager bpm_one_dirty) = []"
    "next_page_id bpm_one_dirty = 1"
    by (simp_all add: bpm_one_dirty_eq DiskManager_empty_def)
  from n obtain x s' where n': "NewPgImp std_hash_int bpm_one_dirty = Returns x s'"
    by (cases "NewPgImp std_hash_int bpm_one_dirty") auto
  from ft obtain y s'' where ft': "FetchPgImp std_hash_int bpm_one_dirty 5 = Returns y s''"
    by (cases "FetchPgImp std_hash_int bpm_one_dirty 5") auto
  show ?thesis
    using C2_dirty_victim_written_back_once[OF fl ev, of std_hash_int x s' 5 "page_table bpm_one_dirty" y s'']
      fl ev n miss ft d n' ft'
    by simp
qed



section \<open>A directory hit in \<^verbatim>\<open>FetchPgImp\<close>\<close>

text \<open>
  A hit whose \<^verbatim>\<open>RecordAccess\<close> returns.  When the page table finds the page in frame \<open>f\<close>
  and the replacer's \<^verbatim>\<open>RecordAccess\<close> for \<open>f\<close> returns, \<^verbatim>\<open>FetchPgImp\<close> returns \<open>f\<close> with the
  pin count incremented and the replacer left as \<^verbatim>\<open>RecordAccess\<close> followed by
  \<^verbatim>\<open>SetEvictable(f, false)\<close> leave it (the same two calls that end a miss): the frame
  has one more recorded access, the timestamp counter has advanced, and the frame is not
  evictable, whatever its flag and pin count were before.
\<close>

lemma fetch_hit_records_access:
  assumes hit: "Find h (page_table s) pid = Returns (Some f) t"
    and ok: "frame_ok s f" "pin_count (pages s ! nat f) < 2 ^ 31 - 1"
    and ra: "RecordAccess (replacer s) f = Returns () r1"
  shows "\<exists>r2. SetEvictable r1 f False = Returns () r2
       \<and> FetchPgImp h s pid =
           Returns (Some f)
             (s\<lparr>pages := (pages s)[nat f := (pages s ! nat f)\<lparr>pin_count := pin_count (pages s ! nat f) + 1\<rparr>],
                replacer := r2\<rparr>)
       \<and> \<not> evictable (frame_map r2 f)
       \<and> count (frame_map r2 f) = inc64 (count (frame_map (replacer s) f))
       \<and> current_timestamp r2 = inc64 (current_timestamp (replacer s))
       \<and> hist_list r2 = hist_list r1 \<and> cache_list r2 = cache_list r1"
proof -
  have t: "t = page_table s" using hit by (rule Find_state)
  from RecordAccess_effect'[OF ra] have le: "\<not> f > static_cast_int (replacer_size r1)" by simp
  from SetEvictable_Returns[OF le, of False] obtain r2 where
    r2: "SetEvictable r1 f False = Returns () r2" "evictable (frame_map r2 f) = False"
        "count (frame_map r2 f) = count (frame_map r1 f)" "current_timestamp r2 = current_timestamp r1"
        "hist_list r2 = hist_list r1" "cache_list r2 = cache_list r1"
    by blast
  have "FetchPgImp h s pid =
           Returns (Some f)
             (s\<lparr>pages := (pages s)[nat f := (pages s ! nat f)\<lparr>pin_count := pin_count (pages s ! nat f) + 1\<rparr>],
                replacer := r2\<rparr>)"
    using hit ok ra r2(1)
    by (simp add: FetchPgImp_def with_page_table_def t fetch_tail_def with_replacer_def set_page_def frame_ok_def)
  then show ?thesis using r2 RecordAccess_effect'[OF ra] by simp
qed


text \<open>
  An example with K = 2: page 0 of the one-frame pool is resident with pin count 0 and
  evictable; fetching it pins it, records a second access and clears the flag.
\<close>

lemma fetch_hit_example:
  "Find std_hash_int (page_table bpm_one_dirty) 0 = Returns (Some 0) (page_table bpm_one_dirty)
   \<and> pin_count (pages bpm_one_dirty ! 0) = 0
   \<and> evictable (frame_map (replacer bpm_one_dirty) 0)
   \<and> is_Returns (RecordAccess (replacer bpm_one_dirty) 0)
   \<and> is_Returns (FetchPgImp std_hash_int bpm_one_dirty 0)
   \<and> pin_count (pages (ret_state (FetchPgImp std_hash_int bpm_one_dirty 0)) ! 0) = 1
   \<and> \<not> evictable (frame_map (replacer (ret_state (FetchPgImp std_hash_int bpm_one_dirty 0))) 0)
   \<and> count (frame_map (replacer (ret_state (FetchPgImp std_hash_int bpm_one_dirty 0))) 0) = 2
   \<and> current_timestamp (replacer (ret_state (FetchPgImp std_hash_int bpm_one_dirty 0))) = 2"
proof -
  have hit: "Find std_hash_int (page_table bpm_one_dirty) 0 = Returns (Some 0) (page_table bpm_one_dirty)"
    by (simp add: bpm_one_dirty_eq bpm_eval)
  have ok: "frame_ok bpm_one_dirty 0" "pin_count (pages bpm_one_dirty ! nat 0) < 2 ^ 31 - 1"
    by (simp_all add: bpm_one_dirty_eq frame_ok_def)
  have ra: "RecordAccess (replacer bpm_one_dirty) 0 = Returns () (ret_state (RecordAccess (replacer bpm_one_dirty) 0))"
    by (simp add: bpm_one_dirty_eq replacer_eval)
  have v: "pin_count (pages bpm_one_dirty ! 0) = 0" "evictable (frame_map (replacer bpm_one_dirty) 0)"
    "count (frame_map (replacer bpm_one_dirty) 0) = 1" "current_timestamp (replacer bpm_one_dirty) = 1"
    "pages bpm_one_dirty = [\<lparr>page_id = 0, pin_count = 0, is_dirty = True, data = zeroed\<rparr>]"
    by (simp_all add: bpm_one_dirty_eq)
  have ra': "is_Returns (RecordAccess (replacer bpm_one_dirty) 0)"
    by (simp add: bpm_one_dirty_eq replacer_eval)
  show ?thesis
    using fetch_hit_records_access[OF hit ok ra] hit v ra'
    by (auto simp: inc64_def)
qed


text \<open>
  Claim C10 says that a \<^verbatim>\<open>FetchPgImp\<close> that hits the page table records a fresh access
  for the frame and marks it non-evictable, for every replacer the pool can be built
  with.  With K = 1 it does not: the resident frame already has one recorded access, so
  the \<^verbatim>\<open>RecordAccess\<close> of the hit takes the branch \<^verbatim>\<open>new_count > k_\<close> and erases from the
  cache list through an iterator of the history list.  In a pool of one frame with K = 1,
  after \<^verbatim>\<open>NewPgImp\<close> has made page 0 resident in frame 0, \<^verbatim>\<open>FetchPgImp(0)\<close> finds the page
  and is undefined, whether the page is still pinned or has been unpinned and is
  evictable.
\<close>

theorem C10_K1_fetch_hit_is_undefined:
  "is_Returns (NewPgImp h (BufferPoolManagerInstance_new d 2 1 DiskManager_empty 1))
   \<and> ret_val (NewPgImp h (BufferPoolManagerInstance_new d 2 1 DiskManager_empty 1)) = Some (0, 0)
   \<and> replacer_k (replacer (ret_state (NewPgImp h (BufferPoolManagerInstance_new d 2 1 DiskManager_empty 1)))) = 1
   \<and> Find h (page_table (ret_state (NewPgImp h (BufferPoolManagerInstance_new d 2 1 DiskManager_empty 1)))) 0
       = Returns (Some 0)
           (page_table (ret_state (NewPgImp h (BufferPoolManagerInstance_new d 2 1 DiskManager_empty 1))))
   \<and> RecordAccess (replacer (ret_state (NewPgImp h (BufferPoolManagerInstance_new d 2 1 DiskManager_empty 1)))) 0
       = Undefined
   \<and> FetchPgImp h (ret_state (NewPgImp h (BufferPoolManagerInstance_new d 2 1 DiskManager_empty 1))) 0
       = Undefined
   \<and> is_Returns (UnpinPgImp h (ret_state (NewPgImp h (BufferPoolManagerInstance_new d 2 1 DiskManager_empty 1))) 0 False)
   \<and> pin_count (pages (ret_state (UnpinPgImp h
         (ret_state (NewPgImp h (BufferPoolManagerInstance_new d 2 1 DiskManager_empty 1))) 0 False)) ! 0) = 0
   \<and> evictable (frame_map (replacer (ret_state (UnpinPgImp h
         (ret_state (NewPgImp h (BufferPoolManagerInstance_new d 2 1 DiskManager_empty 1))) 0 False))) 0)
   \<and> FetchPgImp h (ret_state (UnpinPgImp h
         (ret_state (NewPgImp h (BufferPoolManagerInstance_new d 2 1 DiskManager_empty 1))) 0 False)) 0
       = Undefined"
  by (cases d) (simp_all add: bpm_eval replacer_eval upt_rec)


text \<open>
  Witness for C10, with the hash of \<^verbatim>\<open>int\<close> keys and records that start evictable: the
  fetch finds page 0 in frame 0 and is undefined.
\<close>

theorem C10_K1_witness:
  "Find std_hash_int
     (page_table (ret_state (NewPgImp std_hash_int (BufferPoolManagerInstance_new True 2 1 DiskManager_empty 1)))) 0
     = Returns (Some 0)
         (page_table (ret_state (NewPgImp std_hash_int (BufferPoolManagerInstance_new True 2 1 DiskManager_empty 1))))
   \<and> RecordAccess
       (replacer (ret_state (NewPgImp std_hash_int (BufferPoolManagerInstance_new True 2 1 DiskManager_empty 1)))) 0
     = Undefined
   \<and> FetchPgImp std_hash_int
       (ret_state (NewPgImp std_hash_int (BufferPoolManagerInstance_new True 2 1 DiskManager_empty 1))) 0
     = Undefined"
  using C10_K1_fetch_hit_is_undefined[of std_hash_int True] by simp

section \<open>What \<^verbatim>\<open>Size\<close> counts\<close>

text \<open>
  Claim C5, as amended.  \<^verbatim>\<open>RecordAccess\<close> increments \<^verbatim>\<open>curr_size_\<close> on the first access of
  a frame (line 79).  For a replacer whose fresh records are flagged evictable, after any
  run of fewer than \<open>2^64 - 1\<close> operations in which \<^verbatim>\<open>SetEvictable\<close> is only applied to
  frames with recorded accesses: \<^verbatim>\<open>Size\<close> equals the number of tracked frames flagged
  evictable, and a \<^verbatim>\<open>RecordAccess\<close> that returns increments \<^verbatim>\<open>Size\<close> by one when the
  frame had no recorded access and leaves it unchanged otherwise.
\<close>

theorem C5_size_counts_evictable_tracked_frames:
  assumes run: "replacer_run ops (LRUKReplacer_new True n k) = Some r"
    and prot: "flags_tracked_only ops (LRUKReplacer_new True n k)"
    and len: "length ops < 2 ^ 64 - 1" and n: "n + 1 < 2 ^ 64"
  shows "Size r = evictable_count r \<and>
         (\<forall>f x r'. RecordAccess r f = Returns x r' \<longrightarrow>
            Size r' = (if count (frame_map r f) = 0 then Size r + 1 else Size r))"
proof -
  have ts0: "current_timestamp (LRUKReplacer_new True n k) + length ops \<le> 2 ^ 64 - 1"
    using len by (simp add: LRUKReplacer_new_def)
  from replacer_run_size_inv[OF size_inv_new[OF n] ts0 prot run]
  have si: "size_inv r" and ts: "current_timestamp r < 2 ^ 64 - 1"
    using len by (simp_all add: LRUKReplacer_new_def)
  have A: "Size r = evictable_count r" using si by (simp add: Size_def size_inv_def)
  have B: "Size r' = (if count (frame_map r f) = 0 then Size r + 1 else Size r)"
    if "RecordAccess r f = Returns x r'" for f x r'
    using size_inv_RecordAccess[OF si ts that] by (simp add: Size_def)
  show ?thesis using A B by blast
qed


text \<open>
  Witness for C5: after \<^verbatim>\<open>RecordAccess(1); SetEvictable(1, false); RecordAccess(2)\<close> the
  size is 1, the number of tracked evictable frames, and \<^verbatim>\<open>RecordAccess(3)\<close> makes it 2.
\<close>

theorem C5_witness:
  "replacer_run replacer_example_ops (LRUKReplacer_new True 7 2) \<noteq> None
   \<and> flags_tracked_only replacer_example_ops (LRUKReplacer_new True 7 2)
   \<and> Size (the (replacer_run replacer_example_ops (LRUKReplacer_new True 7 2))) = 1
   \<and> evictable_count (the (replacer_run replacer_example_ops (LRUKReplacer_new True 7 2))) = 1
   \<and> is_Returns (RecordAccess (the (replacer_run replacer_example_ops (LRUKReplacer_new True 7 2))) 3)
   \<and> Size (ret_state (RecordAccess (the (replacer_run replacer_example_ops (LRUKReplacer_new True 7 2))) 3)) = 2"
proof -
  let ?r = "the (replacer_run replacer_example_ops (LRUKReplacer_new True 7 2))"
  have run: "replacer_run replacer_example_ops (LRUKReplacer_new True 7 2) = Some ?r"
    by (simp add: replacer_run_eval)
  have prot: "flags_tracked_only replacer_example_ops (LRUKReplacer_new True 7 2)"
    by (simp add: replacer_run_eval)
  have len: "length replacer_example_ops < 2 ^ 64 - 1" by (simp add: replacer_example_ops_def)
  have ra: "is_Returns (RecordAccess ?r 3)"
    by (simp add: replacer_run_eval)
  then obtain x r' where r': "RecordAccess ?r 3 = Returns x r'"
    by (cases "RecordAccess ?r 3") auto
  have c: "count (frame_map ?r 3) = 0" "Size ?r = 1"
    by (simp_all add: replacer_run_eval)
  have n: "(7::nat) + 1 < 2 ^ 64" by simp
  note T = C5_size_counts_evictable_tracked_frames[OF run prot len n]
  have 1: "evictable_count ?r = 1" using T c by simp
  have 2: "Size r' = 2" using T r' c by auto
  have 3: "replacer_run replacer_example_ops (LRUKReplacer_new True 7 2) \<noteq> None"
    using run by blast
  show ?thesis using 1 2 3 prot ra c(2) by (simp add: r')
qed


text \<open>
  Counterexample to C5 as stated: \<^verbatim>\<open>RecordAccess(1)\<close> on a new replacer changes
  \<^verbatim>\<open>Size\<close> from 0 to 1, whatever the initial evictable flag.
\<close>

theorem C5_counterexample:
  "Size (LRUKReplacer_new True 7 2) = 0
   \<and> is_Returns (RecordAccess (LRUKReplacer_new True 7 2) 1)
   \<and> Size (ret_state (RecordAccess (LRUKReplacer_new True 7 2) 1)) = 1
   \<and> Size (LRUKReplacer_new False 7 2) = 0
   \<and> is_Returns (RecordAccess (LRUKReplacer_new False 7 2) 1)
   \<and> Size (ret_state (RecordAccess (LRUKReplacer_new False 7 2) 1)) = 1"
  by (simp add: replacer_eval Size_def)

section \<open>Directory and bucket invariants of the hash table\<close>

text \<open>
  Claim C9.  After every sequence of \<^verbatim>\<open>Insert\<close>, \<^verbatim>\<open>Find\<close> and \<^verbatim>\<open>Remove\<close> calls that return,
  started on a new table, every directory slot \<open>i\<close> holds the address of an existing bucket
  (it is not null); every key in that bucket has the low \<^verbatim>\<open>depth_\<close> bits of its hash equal
  to the low \<^verbatim>\<open>depth_\<close> bits of \<open>i\<close>, so all keys of a bucket agree on these bits; and the
  bucket holds at most \<^verbatim>\<open>bucket_size_\<close> entries.  The statement covers every number of
  passes of the split loop of \<^verbatim>\<open>Insert\<close>.
\<close>

theorem C9_directory_and_bucket_invariants:
  assumes run: "ht_run h (ExtendibleHashTable_new bsz) ops = Some t"
  shows "length (dir t) = 2 ^ global_depth t \<and>
    (\<forall>i<length (dir t). \<exists>a. dir t ! i = Some a \<and> a < length (heap t) \<and>
        (\<forall>e\<in>set (list_B (heap t ! a)).
            h (fst e) mod 2 ^ depth_B (heap t ! a) = i mod 2 ^ depth_B (heap t ! a)) \<and>
        length (list_B (heap t ! a)) \<le> bucket_size t) \<and> bucket_size t = bsz"
proof -
  have e: "\<forall>k. ht_lookup h (ExtendibleHashTable_new bsz :: ('a, 'b) ExtendibleHashTable) k = None"
    by (simp add: ht_lookup_new)
  from ht_run_inv[OF ht_inv_new e run] have inv: "ht_inv h t" and bs: "bucket_size t = bsz"
    by (simp_all add: ExtendibleHashTable_new_def)
  then have sh: "ht_shape h t" by (simp add: ht_inv_def)
  have "\<exists>a. dir t ! i = Some a \<and> a < length (heap t) \<and>
        (\<forall>e\<in>set (list_B (heap t ! a)).
            h (fst e) mod 2 ^ depth_B (heap t ! a) = i mod 2 ^ depth_B (heap t ! a)) \<and>
        length (list_B (heap t ! a)) \<le> bucket_size t" if "i < length (dir t)" for i
    using ht_shape_slot[OF sh that] by (auto simp: bucket_ok_def)
  then show ?thesis using sh bs by (simp add: ht_shape_def)
qed

text \<open>
  Witness for C9: inserting 0, 4 and 8 into a table with buckets of two entries splits
  three times (the bucket count goes from 1 to 4, the global depth from 0 to 3); slot 0
  then holds a bucket of depth 3 with the keys 0 and 8, and slot 4 one with the key 4.
\<close>

theorem C9_witness:
  "ht_run std_hash_int (ExtendibleHashTable_new 2) ht_example_ops \<noteq> None
   \<and> GetGlobalDepth (the (ht_run std_hash_int (ExtendibleHashTable_new 2) ht_example_ops)) = 3
   \<and> GetNumBuckets (the (ht_run std_hash_int (ExtendibleHashTable_new 2) ht_example_ops)) = 4
   \<and> length (dir (the (ht_run std_hash_int (ExtendibleHashTable_new 2) ht_example_ops))) = 8
   \<and> dir (the (ht_run std_hash_int (ExtendibleHashTable_new 2) ht_example_ops)) ! 0 = Some 5
   \<and> heap (the (ht_run std_hash_int (ExtendibleHashTable_new 2) ht_example_ops)) ! 5
       = \<lparr>size_B = 2, depth_B = 3, list_B = [(0, 10), (8, 18)]\<rparr>
   \<and> dir (the (ht_run std_hash_int (ExtendibleHashTable_new 2) ht_example_ops)) ! 4 = Some 6
   \<and> heap (the (ht_run std_hash_int (ExtendibleHashTable_new 2) ht_example_ops)) ! 6
       = \<lparr>size_B = 2, depth_B = 3, list_B = [(4, 14)]\<rparr>
   \<and> bucket_size (the (ht_run std_hash_int (ExtendibleHashTable_new 2) ht_example_ops)) = 2"
proof -
  let ?t = "the (ht_run std_hash_int (ExtendibleHashTable_new 2) ht_example_ops)"
  have ne: "ht_run std_hash_int (ExtendibleHashTable_new 2) ht_example_ops \<noteq> None"
    by (simp add: ht_eval)
  then have run: "ht_run std_hash_int (ExtendibleHashTable_new 2) ht_example_ops = Some ?t"
    by simp
  have v: "GetGlobalDepth ?t = 3" "GetNumBuckets ?t = 4"
    "dir ?t ! 0 = Some 5" "dir ?t ! 4 = Some 6"
    "heap ?t ! 5 = \<lparr>size_B = 2, depth_B = 3, list_B = [(0, 10), (8, 18)]\<rparr>"
    "heap ?t ! 6 = \<lparr>size_B = 2, depth_B = 3, list_B = [(4, 14)]\<rparr>"
    by (simp_all add: ht_eval GetGlobalDepth_def GetNumBuckets_def)
  note T = C9_directory_and_bucket_invariants[OF run]
  have l: "length (dir ?t) = 8" using T v(1) by (simp add: GetGlobalDepth_def)
  have b: "bucket_size ?t = 2" using T by simp
  show ?thesis using ne v l b by simp
qed

section \<open>The extendible hash law\<close>

text \<open>
  Claim C3.  After every sequence of operations that return, started on a new table,
  \<^verbatim>\<open>Find(k)\<close> returns, for every key \<open>k\<close>, what the last operation on \<open>k\<close> left: the value of
  the most recent \<^verbatim>\<open>Insert(k, v)\<close> when no \<^verbatim>\<open>Remove(k)\<close> followed it (so a second
  \<^verbatim>\<open>Insert\<close> of a present key overwrites the value), and nothing otherwise; \<^verbatim>\<open>Find\<close> leaves
  the table unchanged.  Every further operation that returns leaves the bucket count
  reported by \<^verbatim>\<open>GetNumBuckets\<close> at least as large as it was.
\<close>

theorem C3_find_returns_latest_insert:
  assumes run: "ht_run h (ExtendibleHashTable_new bsz) ops = Some t"
  shows "(\<forall>k. Find h t k = Returns (ht_model ops k) t) \<and>
         (\<forall>op t'. ht_step h t op = Some t' \<longrightarrow> GetNumBuckets t \<le> GetNumBuckets t')"
proof -
  have e: "\<forall>k. ht_lookup h (ExtendibleHashTable_new bsz :: ('a, 'b) ExtendibleHashTable) k = None"
    by (simp add: ht_lookup_new)
  from ht_run_inv[OF ht_inv_new e run] have inv: "ht_inv h t" and l: "\<And>k. ht_lookup h t k = ht_model ops k"
    by simp_all
  show ?thesis using Find_lookup[OF inv] l ht_step_cases[OF inv] by (simp add: GetNumBuckets_def)
qed

text \<open>
  Witness for C3: after the three insertions of the example, a second \<^verbatim>\<open>Insert\<close> of key 4,
  a \<^verbatim>\<open>Remove\<close> of key 0 and an \<^verbatim>\<open>Insert\<close> of key 12, \<^verbatim>\<open>Find\<close> returns the overwriting
  value 24 for key 4, the value 18 for key 8 and nothing for the removed key 0; the
  insertion of key 20 then splits the bucket of 4 and 12 and raises the bucket count from
  4 to 5.
\<close>

theorem C3_witness:
  "ht_run std_hash_int (ExtendibleHashTable_new 2) (ht_example_ops @ [HtInsert 4 24, HtRemove 0, HtInsert 12 112]) \<noteq> None
   \<and> ret_val (Find std_hash_int
        (the (ht_run std_hash_int (ExtendibleHashTable_new 2) (ht_example_ops @ [HtInsert 4 24, HtRemove 0, HtInsert 12 112]))) 4)
       = Some 24
   \<and> ret_val (Find std_hash_int
        (the (ht_run std_hash_int (ExtendibleHashTable_new 2) (ht_example_ops @ [HtInsert 4 24, HtRemove 0, HtInsert 12 112]))) 8)
       = Some 18
   \<and> ret_val (Find std_hash_int
        (the (ht_run std_hash_int (ExtendibleHashTable_new 2) (ht_example_ops @ [HtInsert 4 24, HtRemove 0, HtInsert 12 112]))) 0)
       = None
   \<and> GetNumBuckets
        (the (ht_run std_hash_int (ExtendibleHashTable_new 2) (ht_example_ops @ [HtInsert 4 24, HtRemove 0, HtInsert 12 112]))) = 4
   \<and> ht_step std_hash_int
        (the (ht_run std_hash_int (ExtendibleHashTable_new 2) (ht_example_ops @ [HtInsert 4 24, HtRemove 0, HtInsert 12 112])))
        (HtInsert 20 120) \<noteq> None
   \<and> GetNumBuckets (the (ht_step std_hash_int
        (the (ht_run std_hash_int (ExtendibleHashTable_new 2) (ht_example_ops @ [HtInsert 4 24, HtRemove 0, HtInsert 12 112])))
        (HtInsert 20 120))) = 5
   \<and> GetNumBuckets
        (the (ht_run std_hash_int (ExtendibleHashTable_new 2) (ht_example_ops @ [HtInsert 4 24, HtRemove 0, HtInsert 12 112])))
       \<le> GetNumBuckets (the (ht_step std_hash_int
        (the (ht_run std_hash_int (ExtendibleHashTable_new 2) (ht_example_ops @ [HtInsert 4 24, HtRemove 0, HtInsert 12 112])))
        (HtInsert 20 120)))"
proof -
  let ?ops = "ht_example_ops @ [HtInsert 4 24, HtRemove 0, HtInsert 12 112]"
  let ?t = "the (ht_run std_hash_int (ExtendibleHashTable_new 2) ?ops)"
  have ne: "ht_run std_hash_int (ExtendibleHashTable_new 2) ?ops \<noteq> None"
    by (simp add: ht_eval)
  then have run: "ht_run std_hash_int (ExtendibleHashTable_new 2) ?ops = Some ?t"
    by simp
  have m: "ht_model ?ops 4 = Some 24" "ht_model ?ops 8 = Some 18" "ht_model ?ops 0 = None"
    by (simp_all add: ht_model_def ht_example_ops_def)
  have st: "ht_step std_hash_int ?t (HtInsert 20 120) \<noteq> None"
    by (simp add: ht_eval)
  have n: "GetNumBuckets ?t = 4"
    "GetNumBuckets (the (ht_step std_hash_int ?t (HtInsert 20 120))) = 5"
    by (simp_all add: ht_eval GetNumBuckets_def)
  note T = C3_find_returns_latest_insert[OF run]
  have f: "ret_val (Find std_hash_int ?t 4) = Some 24" "ret_val (Find std_hash_int ?t 8) = Some 18"
    "ret_val (Find std_hash_int ?t 0) = None"
    using T m by simp_all
  have mono: "GetNumBuckets ?t \<le> GetNumBuckets (the (ht_step std_hash_int ?t (HtInsert 20 120)))"
    using T st by auto
  show ?thesis using ne f n st mono by simp
qed

section \<open>The LRU-K ordering law\<close>

text \<open>
  The law for the runs that are defined.  Let the replacer be in a state reached from a
  new one by operations none of which is undefined (fewer than \<open>2^64\<close> of them, so the
  timestamp counter has not wrapped), and let \<open>g f\<close> be the timestamps of the accesses
  recorded for frame \<open>f\<close> since it was last evicted or removed, most recent first; the
  tracked frames are those with a non-empty log, and the length of the log is the frame's
  count.  If \<open>K \<ge> 1\<close>, some frame is tracked and every tracked frame has at least \<open>K\<close>
  recorded accesses and is evictable, \<^verbatim>\<open>Evict\<close> returns a tracked frame whose K-th most
  recent timestamp is the smallest.  If some evictable frame has fewer than \<open>K\<close> recorded
  accesses, \<^verbatim>\<open>Evict\<close> returns an evictable frame with fewer than \<open>K\<close> accesses, the one
  whose first access is the oldest among them.  Timestamps of different frames are
  different, so the frame is unique in both cases.  With K = 1 no defined run accesses a
  tracked frame a second time (see below), so for K = 1 this covers only the runs in which
  every frame is accessed once between two removals.
\<close>

lemma evict_follows_lru_k_order:
  assumes run: "replacer_run ops (LRUKReplacer_new d n K) = Some r"
    and len: "length ops < 2 ^ 64"
    and g: "g = access_log ops (LRUKReplacer_new d n K) (\<lambda>f. [])"
  shows "(\<forall>f. sorted_wrt (>) (g f) \<and> length (g f) = count (frame_map r f)) \<and>
    (\<forall>f f'. f \<noteq> f' \<longrightarrow> set (g f) \<inter> set (g f') = {}) \<and>
    (1 \<le> K \<and> (\<exists>f. g f \<noteq> []) \<and> (\<forall>f. g f \<noteq> [] \<longrightarrow> K \<le> length (g f) \<and> evictable (frame_map r f)) \<longrightarrow>
       (\<exists>v r'. Evict r = Returns (Some v) r' \<and> g v \<noteq> [] \<and>
          (\<forall>f. g f \<noteq> [] \<longrightarrow> g v ! (K - 1) \<le> g f ! (K - 1)))) \<and>
    ((\<exists>f. g f \<noteq> [] \<and> length (g f) < K \<and> evictable (frame_map r f)) \<longrightarrow>
       (\<exists>v r'. Evict r = Returns (Some v) r' \<and> g v \<noteq> [] \<and> length (g v) < K \<and>
          evictable (frame_map r v) \<and>
          (\<forall>f. g f \<noteq> [] \<and> length (g f) < K \<and> evictable (frame_map r f) \<longrightarrow> last (g v) \<le> last (g f))))"
proof -
  have ts: "current_timestamp (LRUKReplacer_new d n K) + length ops \<le> 2 ^ 64 - 1"
    using len by (simp add: LRUKReplacer_new_def)
  from log_run_inv[OF log_inv_new ts run]
  have li: "log_inv r g" and k: "replacer_k r = K"
    by (simp_all add: g LRUKReplacer_new_def)
  note d = log_invD[OF li]
  have 1: "\<forall>f. sorted_wrt (>) (g f) \<and> length (g f) = count (frame_map r f)"
    using d(2,3) by (simp add: log_ok_def)
  have 2: "\<forall>f f'. f \<noteq> f' \<longrightarrow> set (g f) \<inter> set (g f') = {}"
    using d(2) by (simp add: log_ok_def)
  have 3: "\<exists>v r'. Evict r = Returns (Some v) r' \<and> g v \<noteq> [] \<and>
          (\<forall>f. g f \<noteq> [] \<longrightarrow> g v ! (K - 1) \<le> g f ! (K - 1))"
    if "1 \<le> K" "\<exists>f. g f \<noteq> []" "\<forall>f. g f \<noteq> [] \<longrightarrow> K \<le> length (g f) \<and> evictable (frame_map r f)"
  proof -
    from that(2) obtain f0 where f0: "g f0 \<noteq> []" by blast
    show ?thesis using Evict_order_cached[OF li _ f0] that(1,3) by (simp add: k)
  qed
  have 4: "\<exists>v r'. Evict r = Returns (Some v) r' \<and> g v \<noteq> [] \<and> length (g v) < K \<and>
          evictable (frame_map r v) \<and>
          (\<forall>f. g f \<noteq> [] \<and> length (g f) < K \<and> evictable (frame_map r f) \<longrightarrow> last (g v) \<le> last (g f))"
    if "\<exists>f. g f \<noteq> [] \<and> length (g f) < K \<and> evictable (frame_map r f)"
  proof -
    from that obtain f0 where f0: "g f0 \<noteq> []" "length (g f0) < K" "evictable (frame_map r f0)" by blast
    show ?thesis using Evict_order_history[OF li f0(1) _ f0(3)] f0(2) by (simp add: k)
  qed
  show ?thesis using 1 2 3 4 by blast
qed


text \<open>
  An example with K = 2.  After the five accesses of the example both tracked frames
  have two or more accesses; frame 1 was seen first and used last, but its second most
  recent access (4) is younger than that of frame 2 (2), and \<^verbatim>\<open>Evict\<close> returns frame 2.
  After two more accesses, to the new frames 3 and 4, \<^verbatim>\<open>Evict\<close> returns frame 3, the
  older of the two frames with a single access.
\<close>

lemma evict_order_example:
  "replacer_run lruk_example_ops (LRUKReplacer_new True 7 2) \<noteq> None
   \<and> access_log lruk_example_ops (LRUKReplacer_new True 7 2) (\<lambda>f. []) 1 = [5, 4, 1]
   \<and> access_log lruk_example_ops (LRUKReplacer_new True 7 2) (\<lambda>f. []) 2 = [3, 2]
   \<and> is_Returns (Evict (the (replacer_run lruk_example_ops (LRUKReplacer_new True 7 2))))
   \<and> ret_val (Evict (the (replacer_run lruk_example_ops (LRUKReplacer_new True 7 2)))) = Some 2
   \<and> replacer_run (lruk_example_ops @ [OpRecordAccess 3, OpRecordAccess 4]) (LRUKReplacer_new True 7 2) \<noteq> None
   \<and> access_log (lruk_example_ops @ [OpRecordAccess 3, OpRecordAccess 4]) (LRUKReplacer_new True 7 2) (\<lambda>f. []) 3 = [6]
   \<and> access_log (lruk_example_ops @ [OpRecordAccess 3, OpRecordAccess 4]) (LRUKReplacer_new True 7 2) (\<lambda>f. []) 4 = [7]
   \<and> is_Returns (Evict (the (replacer_run (lruk_example_ops @ [OpRecordAccess 3, OpRecordAccess 4]) (LRUKReplacer_new True 7 2))))
   \<and> ret_val (Evict (the (replacer_run (lruk_example_ops @ [OpRecordAccess 3, OpRecordAccess 4]) (LRUKReplacer_new True 7 2)))) = Some 3"
proof -
  let ?new = "LRUKReplacer_new True 7 2"
  let ?a = "lruk_example_ops"
  let ?b = "lruk_example_ops @ [OpRecordAccess 3, OpRecordAccess 4]"
  let ?ra = "the (replacer_run ?a ?new)"
  let ?rb = "the (replacer_run ?b ?new)"
  let ?ga = "access_log ?a ?new (\<lambda>f. [])"
  let ?gb = "access_log ?b ?new (\<lambda>f. [])"
  have ne: "replacer_run ?a ?new \<noteq> None" "replacer_run ?b ?new \<noteq> None"
    by (simp_all add: lruk_eval)
  then have run: "replacer_run ?a ?new = Some ?ra" "replacer_run ?b ?new = Some ?rb"
    by simp_all
  have len: "length ?a < 2 ^ 64" "length ?b < 2 ^ 64" by (simp_all add: lruk_example_ops_def)
  have ga: "?ga f = (if f = 1 then [5, 4, 1] else if f = 2 then [3, 2] else [])" for f
    by (simp add: lruk_eval)
  have gb: "?gb f = (if f = 1 then [5, 4, 1] else if f = 2 then [3, 2] else if f = 3 then [6]
                      else if f = 4 then [7] else [])" for f
    by (simp add: lruk_eval)
  have eva: "evictable (frame_map ?ra f)" for f by (simp add: lruk_eval)
  have evb: "evictable (frame_map ?rb 3)" by (simp add: lruk_eval)
  have va: "ret_val (Evict ?ra) = Some 2" by (simp add: lruk_eval)
  have vb: "ret_val (Evict ?rb) = Some 3" by (simp add: lruk_eval)
  note A = evict_follows_lru_k_order[OF run(1) len(1) refl]
  note B = evict_follows_lru_k_order[OF run(2) len(2) refl]
  have ha: "(1::nat) \<le> 2 \<and> (\<exists>f. ?ga f \<noteq> []) \<and>
      (\<forall>f. ?ga f \<noteq> [] \<longrightarrow> 2 \<le> length (?ga f) \<and> evictable (frame_map ?ra f))"
    using eva by (auto simp: ga)
  have hb: "\<exists>f. ?gb f \<noteq> [] \<and> length (?gb f) < 2 \<and> evictable (frame_map ?rb f)"
    using evb by (intro exI[of _ 3]) (simp add: gb)
  from A ha obtain v r' where "Evict ?ra = Returns (Some v) r'" by blast
  then have ia: "is_Returns (Evict ?ra)" by simp
  from B hb obtain v r' where "Evict ?rb = Returns (Some v) r'" by blast
  then have ib: "is_Returns (Evict ?rb)" by simp
  show ?thesis using ne ga[of 1] ga[of 2] gb[of 3] gb[of 4] ia ib va vb by simp
qed


text \<open>
  Claim C4 states the ordering law for every K, and with K = 1 it is the LRU order: when
  every tracked frame is evictable, \<^verbatim>\<open>Evict\<close> returns the frame whose most recent access
  is the oldest.  With K = 1 the replacer cannot follow it.  After the first accesses of
  the frames 0 and 1 both have \<open>K\<close> recorded accesses and sit in the history list; the
  second access of frame 1 takes the branch \<^verbatim>\<open>new_count > k_\<close> of \<^verbatim>\<open>RecordAccess\<close> and
  erases from the cache list through an iterator of the history list, which is undefined.
  So the run \<^verbatim>\<open>RecordAccess\<close> 0, 1, 1, 0 followed by \<^verbatim>\<open>Evict\<close>, after which the law asks
  for frame 1 (last used at 3, frame 0 at 4), is not defined.
\<close>

theorem C4_K1_second_access_is_undefined:
  "replacer_run [OpRecordAccess 0, OpRecordAccess 1] (LRUKReplacer_new d 7 1) \<noteq> None
   \<and> replacer_k (the (replacer_run [OpRecordAccess 0, OpRecordAccess 1] (LRUKReplacer_new d 7 1))) = 1
   \<and> count (frame_map (the (replacer_run [OpRecordAccess 0, OpRecordAccess 1] (LRUKReplacer_new d 7 1))) 0) = 1
   \<and> count (frame_map (the (replacer_run [OpRecordAccess 0, OpRecordAccess 1] (LRUKReplacer_new d 7 1))) 1) = 1
   \<and> hist_list (the (replacer_run [OpRecordAccess 0, OpRecordAccess 1] (LRUKReplacer_new d 7 1)))
       = [(2, 1), (1, 0)]
   \<and> cache_list (the (replacer_run [OpRecordAccess 0, OpRecordAccess 1] (LRUKReplacer_new d 7 1))) = []
   \<and> RecordAccess (the (replacer_run [OpRecordAccess 0, OpRecordAccess 1] (LRUKReplacer_new d 7 1))) 1
       = Undefined
   \<and> replacer_run [OpRecordAccess 0, OpRecordAccess 1, OpRecordAccess 1, OpRecordAccess 0, OpEvict]
         (LRUKReplacer_new d 7 1) = None"
  by (simp add: state_after_def replacer_eval)

section \<open>Pin safety\<close>

text \<open>
  Claim C1.  Let the pool be in a state reached from a new pool (of fewer than \<open>2^31\<close>
  frames) by operations none of which is undefined, and let \<open>f\<close> be a frame of the pool with
  a positive pin count.  Then \<^verbatim>\<open>Evict\<close> on the pool's replacer does not return \<open>f\<close>;
  \<^verbatim>\<open>NewPgImp\<close> does not hand out \<open>f\<close>; \<^verbatim>\<open>FetchPgImp\<close> returns \<open>f\<close> only for the page that
  \<open>f\<close> holds, found in the page table; and every operation leaves \<open>f\<close> with the same page
  id and the same bytes, outside the free list, and with a positive pin count unless the
  operation is the \<^verbatim>\<open>UnpinPgImp\<close> of that page that brings the pin count from 1 to 0.
  Hence along every further run during which the pin count of \<open>f\<close> stays positive, \<open>f\<close>
  keeps its page id and its bytes and stays outside the free list.
\<close>

theorem C1_pinned_frame_is_not_evicted_or_reassigned:
  assumes run: "bpm_run h ops (BufferPoolManagerInstance_new d bsz psize dm k) = Some s"
    and ps: "psize < 2 ^ 31"
    and f: "frame_ok s f" and pin: "0 < pin_count (pages s ! nat f)"
  shows "(\<forall>v r'. Evict (replacer s) = Returns v r' \<longrightarrow> v \<noteq> Some f) \<and>
    (\<forall>x s'. NewPgImp h s = Returns x s' \<longrightarrow> (\<forall>pid. x \<noteq> Some (pid, f))) \<and>
    (\<forall>pid s'. FetchPgImp h s pid = Returns (Some f) s' \<longrightarrow>
        page_id (pages s ! nat f) = pid \<and> Find h (page_table s) pid = Returns (Some f) (page_table s)) \<and>
    (\<forall>op s'. bpm_step h op s = Some s' \<longrightarrow>
        frame_ok s' f \<and> page_id (pages s' ! nat f) = page_id (pages s ! nat f) \<and>
        data (pages s' ! nat f) = data (pages s ! nat f) \<and> f \<notin> set (free_list s') \<and>
        (0 < pin_count (pages s' ! nat f) \<or>
         (\<exists>dirty. op = OpUnpinPg (page_id (pages s ! nat f)) dirty \<and> pin_count (pages s ! nat f) = 1))) \<and>
    (\<forall>ops' s'. bpm_run h ops' s = Some s' \<and> stays_pinned h ops' s f \<longrightarrow>
        frame_ok s' f \<and> page_id (pages s' ! nat f) = page_id (pages s ! nat f) \<and>
        data (pages s' ! nat f) = data (pages s ! nat f) \<and> f \<notin> set (free_list s'))"
proof -
  have inv: "bpm_inv h s" using bpm_run_inv[OF bpm_inv_new[OF ps] run] .
  note d = bpm_invD[OF inv]
  have 1: "v \<noteq> Some f" if "Evict (replacer s) = Returns v r'" for v r'
    using Evict_flags(3)[OF that, of f] d(8)[OF f pin] by auto
  have 2: "x \<noteq> Some (pid, f)" if "NewPgImp h s = Returns x s'" for x s' pid
  proof -
    have "state_after (NewPgImp h s) = Some s'" using that by (simp add: state_after_def)
    from NewPgImp_safe[OF inv this] f pin that show ?thesis by auto
  qed
  have 3: "page_id (pages s ! nat f) = pid \<and> Find h (page_table s) pid = Returns (Some f) (page_table s)"
    if "FetchPgImp h s pid = Returns (Some f) s'" for pid s'
  proof -
    have "state_after (FetchPgImp h s pid) = Some s'" using that by (simp add: state_after_def)
    from FetchPgImp_safe[OF inv this] f pin that
    have l: "ht_lookup h (page_table s) pid = Some f" by auto
    then show ?thesis using d(4)[OF l] Find_lookup[OF d(3), of pid] by simp
  qed
  have 4: "frame_ok s' f \<and> page_id (pages s' ! nat f) = page_id (pages s ! nat f) \<and>
        data (pages s' ! nat f) = data (pages s ! nat f) \<and> f \<notin> set (free_list s') \<and>
        (0 < pin_count (pages s' ! nat f) \<or>
         (\<exists>dirty. op = OpUnpinPg (page_id (pages s ! nat f)) dirty \<and> pin_count (pages s ! nat f) = 1))"
    if "bpm_step h op s = Some s'" for op s'
    using bpm_step_safe[OF inv that] f pin by (simp add: kept_def)
  have 5: "frame_ok s' f \<and> page_id (pages s' ! nat f) = page_id (pages s ! nat f) \<and>
        data (pages s' ! nat f) = data (pages s ! nat f) \<and> f \<notin> set (free_list s')"
    if "bpm_run h ops' s = Some s'" "stays_pinned h ops' s f" for ops' s'
    using bpm_run_kept[OF inv f pin that] by (simp add: kept_def)
  show ?thesis using 1 2 3 4 5 by blast
qed


text \<open>
  Witness for C1: in the example pool frame 1 is pinned and frame 0 is not.  \<^verbatim>\<open>Evict\<close>
  names frame 0, and \<^verbatim>\<open>NewPgImp\<close>, with an empty free list, gives page 2 to frame 0;
  frame 1 keeps page 1 and its pin.  It still holds page 1 after a \<^verbatim>\<open>NewPgImp\<close>, a
  \<^verbatim>\<open>FetchPgImp(1)\<close> that pins it a second time and a \<^verbatim>\<open>DeletePgImp(1)\<close> that is refused.
\<close>

theorem C1_witness:
  "bpm_run std_hash_int bpm_example_ops (BufferPoolManagerInstance_new True 2 2 DiskManager_empty 2)
     = Some bpm_example
   \<and> frame_ok bpm_example 1
   \<and> pin_count (pages bpm_example ! 1) = 1
   \<and> page_id (pages bpm_example ! 1) = 1
   \<and> pin_count (pages bpm_example ! 0) = 0
   \<and> ret_val (Evict (replacer bpm_example)) = Some 0
   \<and> ret_val (NewPgImp std_hash_int bpm_example) = Some (2, 0)
   \<and> bpm_step std_hash_int OpNewPg bpm_example \<noteq> None
   \<and> page_id (pages (the (bpm_step std_hash_int OpNewPg bpm_example)) ! 1) = 1
   \<and> page_id (pages (the (bpm_step std_hash_int OpNewPg bpm_example)) ! 0) = 2
   \<and> 0 < pin_count (pages (the (bpm_step std_hash_int OpNewPg bpm_example)) ! 1)
   \<and> 1 \<notin> set (free_list (the (bpm_step std_hash_int OpNewPg bpm_example)))
   \<and> bpm_run std_hash_int [OpNewPg, OpFetchPg 1, OpDeletePg 1] bpm_example \<noteq> None
   \<and> stays_pinned std_hash_int [OpNewPg, OpFetchPg 1, OpDeletePg 1] bpm_example 1
   \<and> page_id (pages (the (bpm_run std_hash_int [OpNewPg, OpFetchPg 1, OpDeletePg 1] bpm_example)) ! 1) = 1
   \<and> pin_count (pages (the (bpm_run std_hash_int [OpNewPg, OpFetchPg 1, OpDeletePg 1] bpm_example)) ! 1) = 2"
proof -
  let ?ops = "[OpNewPg, OpFetchPg 1, OpDeletePg 1]"
  let ?s2 = "the (bpm_run std_hash_int ?ops bpm_example)"
  let ?s' = "the (bpm_step std_hash_int OpNewPg bpm_example)"
  have ps: "(2::nat) < 2 ^ 31" by simp
  have v: "frame_ok bpm_example 1" "pin_count (pages bpm_example ! 1) = 1"
    "page_id (pages bpm_example ! 1) = 1" "pin_count (pages bpm_example ! 0) = 0"
    "ret_val (Evict (replacer bpm_example)) = Some 0"
    by (simp_all add: bpm_run_eval)
  have n: "ret_val (NewPgImp std_hash_int bpm_example) = Some (2, 0)"
    by (simp add: bpm_run_eval)
  have st: "bpm_step std_hash_int OpNewPg bpm_example \<noteq> None"
    by (simp add: bpm_run_eval)
  then have st': "bpm_step std_hash_int OpNewPg bpm_example = Some ?s'" by simp
  have p0: "page_id (pages ?s' ! 0) = 2" by (simp add: bpm_run_eval)
  have pin: "0 < pin_count (pages bpm_example ! nat 1)" using v(2) by simp
  note T = C1_pinned_frame_is_not_evicted_or_reassigned[OF bpm_example_run ps v(1) pin]
  from T st' have k: "page_id (pages ?s' ! nat 1) = page_id (pages bpm_example ! nat 1)"
    "1 \<notin> set (free_list ?s')" "0 < pin_count (pages ?s' ! nat 1)"
    by auto
  have r2: "bpm_run std_hash_int ?ops bpm_example \<noteq> None"
    by (simp add: bpm_run_eval)
  then have r2': "bpm_run std_hash_int ?ops bpm_example = Some ?s2" by simp
  have sp: "stays_pinned std_hash_int ?ops bpm_example 1"
    by (simp add: bpm_run_eval)
  have p2: "pin_count (pages ?s2 ! 1) = 2" by (simp add: bpm_run_eval)
  from T r2' sp have k2: "page_id (pages ?s2 ! nat 1) = page_id (pages bpm_example ! nat 1)"
    by blast
  show ?thesis using bpm_example_run v n st p0 k r2 sp p2 k2 by simp
qed

end
